(* ===== verification/Prelude.thy ===== *)
theory Prelude
  imports Main "HOL-Library.Word"
begin

unbundle bit_operations_syntax

section \<open>Prelude: types, outcomes and shared lemmas\<close>

text \<open>
  The vocabulary every component uses: the machine types of the C++ code, the outcome of a
  call (a value, undefined behaviour, or the process aborting), and the generic lemmas on
  lists and words that the component proofs rest on.

  A C++ call of this code base ends in one of three ways.  It returns; it executes an
  operation the language leaves undefined (an access outside a buffer, the increment of an
  erased iterator, the use of a value that was never written), after which nothing is known;
  or it aborts the process through \<^verbatim>\<open>LOG(FATAL)\<close>, \<^verbatim>\<open>CHECK\<close> or \<^verbatim>\<open>FATAL_NOT_OK\<close>.
  An error status is a returned value, not an outcome of its own.
\<close>

type_synonym byte = "8 word"
type_synonym bytes = "8 word list"
type_synonym u32 = "32 word"
type_synonym u64 = "64 word"

datatype undefined_behaviour =
    OutOfBounds
  | InvalidIterator
  | Indeterminate
  | NullDereference
  | Overflow
  | UseAfterFree
  | DivideByZero

datatype 'a outcome =
    Ret (ret: 'a)
  | Undef undefined_behaviour
  | Fatal

fun bind_outcome :: "'a outcome \<Rightarrow> ('a \<Rightarrow> 'b outcome) \<Rightarrow> 'b outcome" where
  "bind_outcome (Ret x) f = f x"
| "bind_outcome (Undef u) f = Undef u"
| "bind_outcome Fatal f = Fatal"

lemma bind_outcome_eq_Ret [simp]:
  "bind_outcome m f = Ret y \<longleftrightarrow> (\<exists>x. m = Ret x \<and> f x = Ret y)"
  by (cases m) auto

lemma bind_outcome_assoc:
  "bind_outcome (bind_outcome m f) g = bind_outcome m (\<lambda>x. bind_outcome (f x) g)"
  by (cases m) auto

subsection \<open>Collections of facts\<close>

named_theorems codec_simps \<open>lengths and inverses of the byte encodings\<close>
named_theorems frame_simps \<open>fields an operation leaves alone\<close>

subsection \<open>Raw memory\<close>

text \<open>
  \<open>buf_write off data buf\<close> is a write of \<open>data\<close> at \<open>buf + off\<close> into a buffer of
  \<open>length buf\<close> bytes.  A write that leaves the buffer is undefined behaviour.
\<close>

definition buf_write :: "nat \<Rightarrow> 'a list \<Rightarrow> 'a list \<Rightarrow> 'a list outcome" where
  "buf_write off data buf =
     (if off + length data \<le> length buf
      then Ret (take off buf @ data @ drop (off + length data) buf)
      else Undef OutOfBounds)"

lemma buf_write_length: "buf_write off data buf = Ret buf' \<Longrightarrow> length buf' = length buf"
  by (auto simp: buf_write_def split: if_splits)

lemma buf_write_fits:
  "off + length data \<le> length buf \<Longrightarrow>
   buf_write off data buf = Ret (take off buf @ data @ drop (off + length data) buf)"
  by (simp add: buf_write_def)

lemma buf_write_middle:
  "off = length pre \<Longrightarrow> length old = length new \<Longrightarrow>
   buf_write off new (pre @ old @ post) = Ret (pre @ new @ post)"
  by (simp add: buf_write_def)

subsection \<open>Lists\<close>

lemma take_append_drop_append [simp]:
  "n = length xs \<Longrightarrow> take n (xs @ ys) = xs"
  "n = length xs \<Longrightarrow> drop n (xs @ ys) = ys"
  by simp_all

lemma concat_map_snoc: "concat (map f (xs @ [x])) = concat (map f xs) @ f x"
  by simp

lemma length_concat_map: "length (concat (map f xs)) = sum_list (map (\<lambda>x. length (f x)) xs)"
  by (induction xs) simp_all

lemma take_Suc_nth: "i < length xs \<Longrightarrow> take (Suc i) xs = take i xs @ [xs ! i]"
  by (rule take_Suc_conv_app_nth)

lemma split_at_nth: "i < length xs \<Longrightarrow> xs = take i xs @ xs ! i # drop (Suc i) xs"
  by (rule id_take_nth_drop)

subsection \<open>Ordered maps\<close>

text \<open>
  A \<^verbatim>\<open>std::map\<close> is the list of its pairs in the order of its keys; \<open>map_assign k v\<close> is
  \<^verbatim>\<open>m[k] = v\<close> and \<^const>\<open>map_of\<close> the lookup.
\<close>

fun map_assign :: "'k::linorder \<Rightarrow> 'v \<Rightarrow> ('k \<times> 'v) list \<Rightarrow> ('k \<times> 'v) list" where
  "map_assign k v [] = [(k, v)]"
| "map_assign k v ((i, s) # m) =
     (if k < i then (k, v) # (i, s) # m
      else if k = i then (i, v) # m
      else (i, s) # map_assign k v m)"

definition map_ok :: "('k::linorder \<times> 'v) list \<Rightarrow> bool" where
  "map_ok m = (sorted (map fst m) \<and> distinct (map fst m))"

lemma map_assign_keys: "set (map fst (map_assign k v m)) = insert k (set (map fst m))"
  by (induction k v m rule: map_assign.induct) auto

lemma map_assign_sorted:
  "sorted (map fst m) \<and> distinct (map fst m) \<Longrightarrow>
   sorted (map fst (map_assign k v m)) \<and> distinct (map fst (map_assign k v m))"
  by (induction k v m rule: map_assign.induct) (auto simp: map_assign_keys simp del: set_map)

lemma map_assign_ok: "map_ok m \<Longrightarrow> map_ok (map_assign k v m)"
  unfolding map_ok_def by (rule map_assign_sorted)

lemma map_assign_lookup [simp]: "map_of (map_assign k v m) = (map_of m)(k \<mapsto> v)"
  by (induction k v m rule: map_assign.induct) auto

lemma map_assign_set:
  "(\<forall>t. (k, t) \<in> set m \<longrightarrow> t = v) \<Longrightarrow> set (map_assign k v m) = insert (k, v) (set m)"
  by (induction k v m rule: map_assign.induct) auto

end
