(* ===== verification/Status.thy ===== *)
theory Status
  imports Prelude
begin

section \<open>Error codes: base/status.h, base/status.cc, base/logging.h, apps/memkv/src/status.h\<close>

text \<open>
  A \<^verbatim>\<open>Status\<close> is its error code; the message it carries is built by the formatting library
  and is not modelled.  A \<^verbatim>\<open>StatusWith<T>\<close> is a sum: \<^const>\<open>Inl\<close> the code, \<^const>\<open>Inr\<close> the value.
  \<^verbatim>\<open>toString\<close> is parameterised by the library's integer formatting \<open>fmt\<close>.
\<close>

datatype ErrorCodes =
    OK
  | IOError
  | NotSupported
  | Corruption
  | LogCompacted
  | OutOfBound
  | YARaftError
  | BadConfig
  | RpcError
  | IllegalState
  | RuntimeError
  | InvalidArgument
  | WalWriteToNonLeader

type_synonym 'a StatusWith = "ErrorCodes + 'a"

fun enum_value :: "ErrorCodes \<Rightarrow> u32" where
  "enum_value OK = 0"
| "enum_value IOError = 1"
| "enum_value NotSupported = 2"
| "enum_value Corruption = 3"
| "enum_value LogCompacted = 4"
| "enum_value OutOfBound = 5"
| "enum_value YARaftError = 6"
| "enum_value BadConfig = 7"
| "enum_value RpcError = 8"
| "enum_value IllegalState = 9"
| "enum_value RuntimeError = 10"
| "enum_value InvalidArgument = 11"
| "enum_value WalWriteToNonLeader = 12"

definition Error_toString :: "(u32 \<Rightarrow> string) \<Rightarrow> u32 \<Rightarrow> string" where
  "Error_toString fmt code =
     (if code = 1 then ''IOError''
      else if code = 2 then ''NotSupported''
      else if code = 3 then ''Corruption''
      else if code = 4 then ''LogCompacted''
      else if code = 5 then ''OutOfBound''
      else if code = 6 then ''YARaftError''
      else if code = 7 then ''BadConfig''
      else if code = 8 then ''RpcError''
      else if code = 9 then ''IllegalState''
      else if code = 10 then ''RuntimeError''
      else if code = 11 then ''InvalidArgument''
      else if code = 12 then ''WalWriteToNonLeader''
      else ''Unknown error codes: '' @ fmt code)"

text \<open>The macro \<^verbatim>\<open>FATAL_NOT_OK\<close> aborts the process on an error status.\<close>

definition FATAL_NOT_OK :: "ErrorCodes \<Rightarrow> unit outcome" where
  "FATAL_NOT_OK s = (if s \<noteq> OK then Fatal else Ret ())"

datatype memkv_ErrorCodes = KvOK | KvInvalidArgument | KvNodeNotExist | KvConsensusError

fun memkv_enum_value :: "memkv_ErrorCodes \<Rightarrow> u32" where
  "memkv_enum_value KvOK = 0"
| "memkv_enum_value KvInvalidArgument = 1"
| "memkv_enum_value KvNodeNotExist = 2"
| "memkv_enum_value KvConsensusError = 3"

definition memkv_Error_toString :: "u32 \<Rightarrow> string outcome" where
  "memkv_Error_toString c =
     (if c = 0 then Ret ''OK''
      else if c = 1 then Ret ''InvalidArgument''
      else if c = 2 then Ret ''NodeNotExist''
      else if c = 3 then Ret ''ConsensusError''
      else Fatal)"

lemma FATAL_NOT_OK_Ret [simp]: "FATAL_NOT_OK s = Ret u \<longleftrightarrow> s = OK"
  by (simp add: FATAL_NOT_OK_def)

lemma FATAL_NOT_OK_OK [simp]: "FATAL_NOT_OK OK = Ret ()"
  by (simp add: FATAL_NOT_OK_def)

lemma enum_value_inj [simp]: "enum_value a = enum_value b \<longleftrightarrow> a = b"
  by (cases a; cases b) simp_all

text \<open>
  Every error code has a printed name of its own: no two different error codes share one,
  and none of them is printed as an unknown code.  The code of success has no case and is
  printed as an unknown code.
\<close>

lemma toString_names:
  "a \<noteq> OK \<Longrightarrow> b \<noteq> OK \<Longrightarrow>
     (Error_toString fmt (enum_value a) = Error_toString fmt' (enum_value b) \<longleftrightarrow> a = b) \<and>
     Error_toString fmt (enum_value OK) = ''Unknown error codes: '' @ fmt 0"
  by (cases a; cases b) (simp_all add: Error_toString_def)

lemma toString_names_witness:
  "(Error_toString (\<lambda>_. ''?'') (enum_value IOError) = Error_toString (\<lambda>_. ''?'') (enum_value Corruption)
      \<longleftrightarrow> IOError = Corruption) \<and>
   Error_toString (\<lambda>_. ''?'') (enum_value OK) = ''Unknown error codes: '' @ ''?''"
  using toString_names [of IOError Corruption "\<lambda>_. ''?''" "\<lambda>_. ''?''"] by simp

end
