(* ===== verification/Runtime.thy ===== *)
theory Runtime
  imports Status "HOL-Library.Sublist" "HOL-Library.Multiset"
begin

section \<open>Channels, background threads and the task queue\<close>

text \<open>
  include/consensus/base/simple_channel.h, src/base/background_worker.cc, src/base/task_queue.cc,
  src/raft_task_executor.h, src/raft_task_executor.cc and src/raft_timer.cc.

  Values of channels and flags are records; threads interleave, so the queue with its worker is a
  step relation.  The queue of moodycamel is not part of the repository and a parameter.
\<close>

subsection \<open>SimpleChannel and Barrier\<close>

text \<open>
  A promise and its future.  Setting the value twice throws, which nothing catches; receiving
  waits (\<^const>\<open>None\<close>) until there is a value and releases the shared state, so receiving
  again uses an invalid future.
\<close>

record 'v SimpleChannel =
  ch_value :: "'v option"
  ch_taken :: bool

definition new_SimpleChannel :: "'v SimpleChannel" where
  "new_SimpleChannel = \<lparr>ch_value = None, ch_taken = False\<rparr>"

definition chan_send :: "'v \<Rightarrow> 'v SimpleChannel \<Rightarrow> 'v SimpleChannel outcome" where
  "chan_send v c = (if ch_value c = None then Ret (c\<lparr>ch_value := Some v\<rparr>) else Fatal)"

definition chan_recv :: "'v SimpleChannel \<Rightarrow> ('v \<times> 'v SimpleChannel) outcome option" where
  "chan_recv c =
     (if ch_taken c then Some (Undef NullDereference)
      else case ch_value c of None \<Rightarrow> None | Some v \<Rightarrow> Some (Ret (v, c\<lparr>ch_taken := True\<rparr>)))"

type_synonym Barrier = "unit SimpleChannel"

definition Signal :: "Barrier \<Rightarrow> Barrier outcome" where
  "Signal b = chan_send () b"

definition Wait :: "Barrier \<Rightarrow> unit option" where
  "Wait b = ch_value b"

subsection \<open>BackgroundWorker\<close>

record BackgroundWorker =
  bw_joinable :: bool
  bw_stopped :: bool

definition new_BackgroundWorker :: BackgroundWorker where
  "new_BackgroundWorker = \<lparr>bw_joinable = False, bw_stopped = True\<rparr>"

text \<open>\<open>has_target\<close>: the function object given is not empty.\<close>

definition StartLoop :: "bool \<Rightarrow> BackgroundWorker \<Rightarrow> ErrorCodes \<times> BackgroundWorker" where
  "StartLoop has_target w =
     (if bw_joinable w then (RuntimeError, w)
      else if \<not> has_target then (InvalidArgument, w)
      else (OK, w\<lparr>bw_stopped := False, bw_joinable := True\<rparr>))"

text \<open>
  \<^verbatim>\<open>Stop\<close> sets the flag and waits for the thread: first the flag, then, when the thread has left
  its loop, the join.
\<close>

definition Stop_request :: "BackgroundWorker \<Rightarrow> ErrorCodes \<times> BackgroundWorker" where
  "Stop_request w = (if \<not> bw_joinable w then (RuntimeError, w) else (OK, w\<lparr>bw_stopped := True\<rparr>))"

definition Stop_join :: "BackgroundWorker \<Rightarrow> BackgroundWorker" where
  "Stop_join w = w\<lparr>bw_joinable := False\<rparr>"

text \<open>Destroying a thread object that is joinable ends the process.\<close>

definition delete_BackgroundWorker :: "BackgroundWorker \<Rightarrow> unit outcome" where
  "delete_BackgroundWorker w = (if bw_joinable w then Fatal else Ret ())"

subsection \<open>TaskQueue\<close>

text \<open>
  The queue of moodycamel is a library of its own and a parameter here: an empty queue, adding an
  element, and the answers \<^verbatim>\<open>wait_dequeue_timed\<close> may give, \<^const>\<open>None\<close> when the time is up.
\<close>

record ('q, 'a) ConcurrentQueue =
  cq_new :: 'q
  cq_enqueue :: "'a \<Rightarrow> 'q \<Rightarrow> 'q"
  cq_dequeue :: "'q \<Rightarrow> 'a option \<Rightarrow> 'q \<Rightarrow> bool"

text \<open>
  What its documentation promises, for the elements \<open>items q\<close> that are in a queue: an element that
  is added is in the queue until it is taken, which happens once; the call gives an element if
  there is one and waits in vain only if there is none.  Nothing is said about the order.
\<close>

definition queue_law :: "('q, 'a) ConcurrentQueue \<Rightarrow> ('q \<Rightarrow> 'a multiset) \<Rightarrow> bool" where
  "queue_law Q items \<longleftrightarrow>
     items (cq_new Q) = {#} \<and>
     (\<forall>x q. items (cq_enqueue Q x q) = add_mset x (items q)) \<and>
     (\<forall>q q'. cq_dequeue Q q None q' \<longrightarrow> items q' = items q) \<and>
     (\<forall>q x q'. cq_dequeue Q q (Some x) q' \<longrightarrow> items q = add_mset x (items q')) \<and>
     (\<forall>q. \<exists>r q'. cq_dequeue Q q r q' \<and> (r = None \<longleftrightarrow> items q = {#}))"

lemma queue_law_taken: "queue_law Q items \<Longrightarrow> cq_dequeue Q q (Some x) q' \<Longrightarrow> items q = add_mset x (items q')"
  unfolding queue_law_def by blast

text \<open>Where the thread of the worker is in \<^verbatim>\<open>while (!stopped_) recurringTask()\<close>.\<close>

datatype thread_at = AtTest | Dequeuing | Running | Exited

record ('q, 'a) TaskQueue =
  tq_queue :: 'q
  tq_current :: "(nat \<times> 'a) option"
  tq_worker :: BackgroundWorker
  tq_thread :: thread_at
  tq_sent :: "(nat \<times> 'a) list"
  tq_run :: "(nat \<times> 'a) list"

text \<open>
  The last two fields are the history: what was given to \<^verbatim>\<open>Enqueue\<close>, each task with the number of
  the thread it comes from, and the tasks that have run, in order.  The number is part of the
  history too.  The constructor starts the worker.
\<close>

type_synonym ('q, 'a) task_queue_lib = "('q, nat \<times> 'a) ConcurrentQueue"

definition new_TaskQueue :: "('q, 'a) task_queue_lib \<Rightarrow> ('q, 'a) TaskQueue" where
  "new_TaskQueue Q =
     \<lparr>tq_queue = cq_new Q, tq_current = None, tq_worker = snd (StartLoop True new_BackgroundWorker),
      tq_thread = AtTest, tq_sent = [], tq_run = []\<rparr>"

definition Enqueue :: "('q, 'a) task_queue_lib \<Rightarrow> nat \<Rightarrow> 'a \<Rightarrow> ('q, 'a) TaskQueue \<Rightarrow> ('q, 'a) TaskQueue" where
  "Enqueue Q p task q =
     q\<lparr>tq_queue := cq_enqueue Q (p, task) (tq_queue q), tq_sent := tq_sent q @ [(p, task)]\<rparr>"

inductive tq_step :: "('q, 'a) task_queue_lib \<Rightarrow> ('q, 'a) TaskQueue \<Rightarrow> ('q, 'a) TaskQueue \<Rightarrow> bool" for Q where
  enqueue: "tq_step Q q (Enqueue Q p task q)"
| loop_test: "tq_thread q = AtTest \<Longrightarrow> \<not> bw_stopped (tq_worker q) \<Longrightarrow> tq_step Q q (q\<lparr>tq_thread := Dequeuing\<rparr>)"
| loop_exit: "tq_thread q = AtTest \<Longrightarrow> bw_stopped (tq_worker q) \<Longrightarrow> tq_step Q q (q\<lparr>tq_thread := Exited\<rparr>)"
| timed_out: "tq_thread q = Dequeuing \<Longrightarrow> cq_dequeue Q (tq_queue q) None c \<Longrightarrow>
    tq_step Q q (q\<lparr>tq_queue := c, tq_thread := AtTest\<rparr>)"
| dequeue: "tq_thread q = Dequeuing \<Longrightarrow> cq_dequeue Q (tq_queue q) (Some x) c \<Longrightarrow>
    tq_step Q q (q\<lparr>tq_queue := c, tq_current := Some x, tq_thread := Running\<rparr>)"
| task_done: "tq_thread q = Running \<Longrightarrow> tq_current q = Some x \<Longrightarrow>
    tq_step Q q (q\<lparr>tq_current := None, tq_run := tq_run q @ [x], tq_thread := AtTest\<rparr>)"
| stop_request: "Stop_request (tq_worker q) = (OK, w) \<Longrightarrow> tq_step Q q (q\<lparr>tq_worker := w\<rparr>)"
| stop_join: "bw_stopped (tq_worker q) \<Longrightarrow> tq_thread q = Exited \<Longrightarrow>
    tq_step Q q (q\<lparr>tq_worker := Stop_join (tq_worker q)\<rparr>)"

inductive_cases tq_stepE: "tq_step Q q q'"

text \<open>The invariant of the worker, whatever the library does, and that of the tasks under its law.\<close>

definition tq_inv :: "('q, 'a) TaskQueue \<Rightarrow> bool" where
  "tq_inv q =
     ((tq_current q \<noteq> None \<longleftrightarrow> tq_thread q = Running) \<and>
      (tq_thread q = Exited \<longrightarrow> bw_stopped (tq_worker q)) \<and>
      (\<not> bw_joinable (tq_worker q) \<longrightarrow> tq_thread q = Exited))"

definition will_run :: "('q, 'a) TaskQueue \<Rightarrow> (nat \<times> 'a) list" where
  "will_run q = tq_run q @ (case tq_current q of None \<Rightarrow> [] | Some x \<Rightarrow> [x])"

definition tasks_kept :: "('q \<Rightarrow> (nat \<times> 'a) multiset) \<Rightarrow> ('q, 'a) TaskQueue \<Rightarrow> bool" where
  "tasks_kept items q \<longleftrightarrow> mset (tq_sent q) = mset (will_run q) + items (tq_queue q)"

lemma tq_inv_new: "tq_inv (new_TaskQueue Q)"
  by (simp add: tq_inv_def new_TaskQueue_def StartLoop_def new_BackgroundWorker_def)

lemma tasks_kept_new: "queue_law Q items \<Longrightarrow> tasks_kept items (new_TaskQueue Q)"
  by (simp add: tasks_kept_def will_run_def new_TaskQueue_def queue_law_def)

lemma tq_inv_idle: "tq_inv q \<Longrightarrow> tq_thread q \<noteq> Running \<Longrightarrow> tq_current q = None"
  by (cases "tq_current q") (auto simp: tq_inv_def)

lemma tq_inv_thread: "tq_inv q \<Longrightarrow> \<not> bw_joinable (tq_worker q) \<Longrightarrow> tq_thread q = Exited"
  by (simp add: tq_inv_def)

lemma tq_step_inv:
  assumes "tq_step Q q q'" "tq_inv q"
  shows "tq_inv q'"
  using assms by cases (auto simp: tq_inv_def Enqueue_def Stop_request_def Stop_join_def split: if_splits)

lemma tq_step_kept:
  assumes "tq_step Q q q'" "tq_inv q" "queue_law Q items" "tasks_kept items q"
  shows "tasks_kept items q'"
  using assms(1)
proof cases
  case (dequeue x c)
  moreover have "items (tq_queue q) = add_mset x (items c)" using queue_law_taken [OF assms(3) dequeue(3)] .
  ultimately show ?thesis using assms(4) tq_inv_idle [OF assms(2)] by (simp add: tasks_kept_def will_run_def)
next
  case (timed_out c)
  moreover have "items c = items (tq_queue q)" using assms(3) timed_out(3) by (simp add: queue_law_def)
  ultimately show ?thesis using assms(4) by (simp add: tasks_kept_def will_run_def)
qed (use assms(3,4) in \<open>auto simp: tasks_kept_def will_run_def Enqueue_def queue_law_def split: option.splits\<close>)

abbreviation tq_steps :: "('q, 'a) task_queue_lib \<Rightarrow> ('q, 'a) TaskQueue \<Rightarrow> ('q, 'a) TaskQueue \<Rightarrow> bool" where
  "tq_steps Q \<equiv> (tq_step Q)\<^sup>*\<^sup>*"

lemma tq_steps_inv: "tq_steps Q q q' \<Longrightarrow> tq_inv q \<Longrightarrow> tq_inv q'"
  by (induction rule: rtranclp_induct) (auto intro: tq_step_inv)

lemma tq_steps_kept: "tq_steps Q q q' \<Longrightarrow> tq_inv q \<Longrightarrow> queue_law Q items \<Longrightarrow> tasks_kept items q \<Longrightarrow> tasks_kept items q'"
  by (induction rule: rtranclp_induct) (auto intro: tq_step_kept tq_steps_inv)

text \<open>
  What the worker adds to the promise of the library: every task that has run or is running was
  enqueued, and none runs more often than it was enqueued.
\<close>

lemma task_queue_once:
  assumes "queue_law Q items" "tq_steps Q (new_TaskQueue Q) q"
  shows "mset (will_run q) \<subseteq># mset (tq_sent q)"
  using tq_steps_kept [OF assms(2) tq_inv_new assms(1) tasks_kept_new [OF assms(1)]] by (simp add: tasks_kept_def)

text \<open>A queue for examples: a list of which any element may be taken next.\<close>

definition list_queue :: "('a list, 'a) ConcurrentQueue" where
  "list_queue =
     \<lparr>cq_new = [], cq_enqueue = (\<lambda>x q. q @ [x]),
      cq_dequeue = (\<lambda>q r q'. case r of None \<Rightarrow> q = [] \<and> q' = [] | Some x \<Rightarrow> x \<in> set q \<and> q' = remove1 x q)\<rparr>"

lemma list_queue_law: "queue_law list_queue mset"
proof -
  have "\<exists>r q'. (case r of None \<Rightarrow> q = [] \<and> q' = [] | Some x \<Rightarrow> x \<in> set q \<and> q' = remove1 x q) \<and> (r = None \<longleftrightarrow> mset q = {#})" for q :: "'a list"
  proof (cases q)
    case (Cons x xs)
    then show ?thesis by (intro exI [of _ "Some x"] exI [of _ xs]) simp
  qed (auto intro!: exI [of _ None])
  then show ?thesis by (auto simp: queue_law_def list_queue_def)
qed

lemma list_queue_simps [simp]:
  "cq_new list_queue = []" "cq_enqueue list_queue x q = q @ [x]"
  "cq_dequeue list_queue q None q' \<longleftrightarrow> q = [] \<and> q' = []" "cq_dequeue list_queue q (Some x) q' \<longleftrightarrow> x \<in> set q \<and> q' = remove1 x q"
  by (simp_all add: list_queue_def)

lemma stopped_step:
  assumes "tq_step Q q q'" "bw_stopped (tq_worker q)" "tq_inv q"
  shows "bw_stopped (tq_worker q') \<and>
    (if tq_thread q = Dequeuing \<and> tq_thread q' = Running then \<exists>x. will_run q' = will_run q @ [x]
     else will_run q' = will_run q \<and> (tq_thread q' = Dequeuing \<longrightarrow> tq_thread q = Dequeuing))"
  using assms
proof cases
  case (dequeue x c)
  with tq_inv_idle [OF assms(3)] assms(2) show ?thesis by (simp add: will_run_def)
qed (auto simp: will_run_def Enqueue_def Stop_request_def Stop_join_def split: if_splits)

lemma stopped_steps:
  assumes "tq_steps Q q q'" "bw_stopped (tq_worker q)" "tq_inv q"
  shows "bw_stopped (tq_worker q') \<and> tq_inv q' \<and>
    (\<exists>extra. will_run q' = will_run q @ extra \<and> length extra \<le> 1 \<and> (tq_thread q' = Dequeuing \<longrightarrow> extra = []) \<and>
      (tq_thread q \<noteq> Dequeuing \<longrightarrow> extra = [] \<and> tq_thread q' \<noteq> Dequeuing))"
  using assms
proof (induction rule: rtranclp_induct)
  case (step q1 q2)
  then obtain extra where e: "bw_stopped (tq_worker q1)" "tq_inv q1" "will_run q1 = will_run q @ extra" "length extra \<le> 1"
    "tq_thread q1 = Dequeuing \<longrightarrow> extra = []" "tq_thread q \<noteq> Dequeuing \<longrightarrow> extra = [] \<and> tq_thread q1 \<noteq> Dequeuing" by auto
  note S = stopped_step [OF step(2) e(1,2)] and I = tq_step_inv [OF step(2) e(2)]
  show ?case
  proof (cases "tq_thread q1 = Dequeuing \<and> tq_thread q2 = Running")
    case True
    with S obtain x where "bw_stopped (tq_worker q2)" "will_run q2 = will_run q1 @ [x]" by auto
    with True e I show ?thesis by simp
  next
    case False
    with S have "bw_stopped (tq_worker q2)" "will_run q2 = will_run q1" "tq_thread q2 = Dequeuing \<longrightarrow> tq_thread q1 = Dequeuing"
      by (simp_all only: if_False) simp_all
    with e I show ?thesis by (intro conjI exI [of _ extra]) (simp_all, blast)
  qed
qed simp

text \<open>
  C12. Stopping the queue, whatever its library does.  Once the stop flag is set the worker starts
  at most one more task (the one it may be taking from the queue at that moment), whatever is
  enqueued before or after; when the worker is outside the dequeue call it starts none.  So tasks
  that wait, and those enqueued later, are never run.  The thread is joined only after it has left
  its loop, with no task running.
\<close>

theorem task_queue_stop:
  assumes "tq_steps Q (new_TaskQueue Q) q" "bw_stopped (tq_worker q)" "tq_steps Q q q'"
  shows "(\<exists>extra. will_run q' = will_run q @ extra \<and> length extra \<le> 1 \<and> (tq_thread q \<noteq> Dequeuing \<longrightarrow> extra = [])) \<and>
    (\<not> bw_joinable (tq_worker q') \<longrightarrow> tq_thread q' = Exited \<and> tq_current q' = None)"
proof -
  note S = stopped_steps [OF assms(3,2) tq_steps_inv [OF assms(1) tq_inv_new]]
  have "tq_thread q' = Exited \<and> tq_current q' = None" if "\<not> bw_joinable (tq_worker q')"
    using tq_inv_thread [of q'] tq_inv_idle [of q'] S that by simp
  with S show ?thesis by blast
qed

text \<open>An example run: two tasks, one of them run, and the queue is stopped.\<close>

definition example_tq :: "nat \<Rightarrow> ((nat \<times> char) list, char) TaskQueue" where
  "example_tq n =
     (let q = Enqueue list_queue 1 (CHR ''b'') (Enqueue list_queue 1 (CHR ''a'') (new_TaskQueue list_queue)) in
      if n = 0 then q else if n = 1 then q\<lparr>tq_thread := Dequeuing\<rparr>
      else if n = 2 then q\<lparr>tq_queue := [(1, CHR ''b'')], tq_current := Some (1, CHR ''a''), tq_thread := Running\<rparr>
      else if n = 3 then q\<lparr>tq_queue := [(1, CHR ''b'')], tq_current := None, tq_run := [(1, CHR ''a'')], tq_thread := AtTest\<rparr>
      else q\<lparr>tq_queue := [(1, CHR ''b'')], tq_current := None, tq_run := [(1, CHR ''a'')], tq_thread := AtTest,
             tq_worker := \<lparr>bw_joinable = True, bw_stopped = True\<rparr>\<rparr>)"

lemma example_tq_steps: "tq_steps list_queue (new_TaskQueue list_queue) (example_tq 4)"
proof -
  let ?Q = "list_queue :: ((nat \<times> char) list, nat \<times> char) ConcurrentQueue"
  note defs = example_tq_def Enqueue_def new_TaskQueue_def StartLoop_def new_BackgroundWorker_def Let_def Stop_request_def
  have "tq_step ?Q (new_TaskQueue ?Q) (Enqueue ?Q 1 (CHR ''a'') (new_TaskQueue ?Q))" by (rule enqueue)
  moreover have "tq_step ?Q (Enqueue ?Q 1 (CHR ''a'') (new_TaskQueue ?Q)) (example_tq 0)"
    unfolding example_tq_def Let_def using enqueue by simp
  moreover have "tq_step ?Q (example_tq 0) (example_tq 1)"
    using loop_test [of "example_tq 0" ?Q] by (simp add: defs)
  moreover have "tq_step ?Q (example_tq 1) (example_tq 2)"
    using dequeue [of "example_tq 1" ?Q "(1, CHR ''a'')" "[(1, CHR ''b'')]"] by (simp add: defs)
  moreover have "tq_step ?Q (example_tq 2) (example_tq 3)"
    using task_done [of "example_tq 2" "(1, CHR ''a'')" ?Q] by (simp add: defs)
  moreover have "tq_step ?Q (example_tq 3) (example_tq 4)"
    using stop_request [of "example_tq 3" "\<lparr>bw_joinable = True, bw_stopped = True\<rparr>" ?Q] by (simp add: defs)
  ultimately show ?thesis by (meson rtranclp.rtrancl_refl rtranclp.rtrancl_into_rtrancl)
qed

theorem task_queue_stop_witness:
  "will_run (Enqueue list_queue 2 (CHR ''x'') (example_tq 4)) = [(1, CHR ''a'')] \<and> tq_sent (example_tq 4) = [(1, CHR ''a''), (1, CHR ''b'')]"
proof -
  have "tq_steps list_queue (example_tq 4) (Enqueue list_queue 2 (CHR ''x'') (example_tq 4))" by (intro r_into_rtranclp enqueue)
  moreover have "bw_stopped (tq_worker (example_tq 4))" "tq_thread (example_tq 4) = AtTest" "will_run (example_tq 4) = [(1, CHR ''a'')]"
    "tq_sent (example_tq 4) = [(1, CHR ''a''), (1, CHR ''b'')]"
    by (simp_all add: example_tq_def will_run_def Enqueue_def new_TaskQueue_def)
  ultimately show ?thesis using task_queue_stop [OF example_tq_steps] by force
qed

subsection \<open>Progress of the queue\<close>

text \<open>The steps of the worker's thread alone: nothing is enqueued and the stop flag is left alone.\<close>

definition tq_own :: "('q, 'a) task_queue_lib \<Rightarrow> ('q, 'a) TaskQueue \<Rightarrow> ('q, 'a) TaskQueue \<Rightarrow> bool" where
  "tq_own Q q q' \<longleftrightarrow> tq_step Q q q' \<and> tq_sent q' = tq_sent q \<and> tq_worker q' = tq_worker q"

abbreviation tq_owns :: "('q, 'a) task_queue_lib \<Rightarrow> ('q, 'a) TaskQueue \<Rightarrow> ('q, 'a) TaskQueue \<Rightarrow> bool" where
  "tq_owns Q \<equiv> (tq_own Q)\<^sup>*\<^sup>*"

lemma tq_owns_steps: "tq_owns Q q q' \<Longrightarrow> tq_steps Q q q' \<and> tq_sent q' = tq_sent q \<and> tq_worker q' = tq_worker q"
  by (induction rule: rtranclp_induct) (auto simp: tq_own_def intro: rtranclp.rtrancl_into_rtrancl)

lemma tq_task_ends:
  assumes "tq_thread q = Running" "tq_inv q"
  shows "\<exists>q'. tq_own Q q q' \<and> tq_thread q' = AtTest \<and> tq_queue q' = tq_queue q"
proof -
  obtain x where "tq_current q = Some x" using assms by (auto simp: tq_inv_def)
  from task_done [OF assms(1) this, of Q] show ?thesis by (auto simp: tq_own_def)
qed

lemma tq_reach_test:
  assumes "queue_law Q items" "tq_inv q" "tq_thread q \<noteq> Exited"
  shows "\<exists>q'. tq_owns Q q q' \<and> tq_thread q' = AtTest \<and> items (tq_queue q') \<subseteq># items (tq_queue q)"
proof (cases "tq_thread q")
  case Dequeuing
  obtain r c where c: "cq_dequeue Q (tq_queue q) r c" using assms(1) unfolding queue_law_def by blast
  show ?thesis
  proof (cases r)
    case None
    let ?q = "q\<lparr>tq_queue := c, tq_thread := AtTest\<rparr>"
    have "tq_own Q q ?q" using timed_out [OF Dequeuing, of Q c] c None by (simp add: tq_own_def)
    moreover have "items c = items (tq_queue q)" using assms(1) c None by (simp add: queue_law_def)
    ultimately show ?thesis by (intro exI [of _ ?q]) (simp add: r_into_rtranclp)
  next
    case (Some x)
    let ?q = "q\<lparr>tq_queue := c, tq_current := Some x, tq_thread := Running\<rparr>"
    have o: "tq_own Q q ?q" using dequeue [OF Dequeuing, of Q x c] c Some by (simp add: tq_own_def)
    have "items (tq_queue q) = add_mset x (items c)" using queue_law_taken [OF assms(1)] c Some by blast
    moreover obtain q' where "tq_own Q ?q q'" "tq_thread q' = AtTest" "tq_queue q' = c"
      using tq_task_ends [of ?q Q] tq_step_inv [OF _ assms(2)] o by (auto simp: tq_own_def)
    ultimately show ?thesis using o by (intro exI [of _ q']) (auto intro: rtranclp.rtrancl_into_rtrancl)
  qed
next
  case Running
  with tq_task_ends [OF _ assms(2), of Q] show ?thesis by (metis r_into_rtranclp subset_mset.dual_order.refl)
qed (use assms(3) in auto)

lemma tq_drain:
  assumes "queue_law Q items" "tq_inv q" "\<not> bw_stopped (tq_worker q)" "tq_thread q = AtTest"
  shows "\<exists>q'. tq_owns Q q q' \<and> tq_thread q' = AtTest \<and> items (tq_queue q') = {#}"
  using assms(2-4)
proof (induction "size (items (tq_queue q))" arbitrary: q rule: less_induct)
  case less
  show ?case
  proof (cases "items (tq_queue q) = {#}")
    case False
    obtain r c where c: "cq_dequeue Q (tq_queue q) r c" "r = None \<longleftrightarrow> items (tq_queue q) = {#}"
      using assms(1) unfolding queue_law_def by blast
    with False obtain x where x: "r = Some x" by auto
    let ?q1 = "q\<lparr>tq_thread := Dequeuing\<rparr>"
    let ?q2 = "?q1\<lparr>tq_queue := c, tq_current := Some x, tq_thread := Running\<rparr>"
    let ?q3 = "?q2\<lparr>tq_current := None, tq_run := tq_run q @ [x], tq_thread := AtTest\<rparr>"
    have "tq_own Q q ?q1" using less.prems by (simp add: tq_own_def loop_test)
    moreover have "tq_own Q ?q1 ?q2" using dequeue [of ?q1 Q x c] c x by (simp add: tq_own_def)
    moreover have "tq_own Q ?q2 ?q3" using task_done [of ?q2 x Q] by (simp add: tq_own_def)
    ultimately have s: "tq_owns Q q ?q3" by (meson rtranclp.rtrancl_refl rtranclp.rtrancl_into_rtrancl)
    have "items (tq_queue q) = add_mset x (items c)" using queue_law_taken [OF assms(1)] c(1) x by blast
    then have "size (items (tq_queue ?q3)) < size (items (tq_queue q))" by simp
    moreover have "tq_inv ?q3" using tq_steps_inv [OF _ less.prems(1)] tq_owns_steps [OF s] by blast
    ultimately obtain q' where "tq_owns Q ?q3 q'" "tq_thread q' = AtTest" "items (tq_queue q') = {#}"
      using less.hyps [of ?q3] less.prems(2) by auto
    with s show ?thesis by (metis rtranclp_trans)
  qed (use less.prems(3) in blast)
qed

text \<open>
  The queue never gets stuck: as long as it has not been stopped, from every state it can
  reach, whatever the thread is doing, there is a continuation without any further request in
  which every task that was enqueued has been run, and exactly as often.
\<close>

lemma task_queue_progress:
  assumes "queue_law Q items" "tq_inv q" "tasks_kept items q" "\<not> bw_stopped (tq_worker q)"
  shows "\<exists>q'. tq_owns Q q q' \<and> tq_inv q' \<and> mset (tq_run q') = mset (tq_sent q)"
proof -
  have "tq_thread q \<noteq> Exited" using assms(2,4) by (auto simp: tq_inv_def)
  from tq_reach_test [OF assms(1,2) this] obtain q1 where q1: "tq_owns Q q q1" "tq_thread q1 = AtTest" by blast
  have i1: "tq_inv q1" "\<not> bw_stopped (tq_worker q1)"
    using tq_owns_steps [OF q1(1)] tq_steps_inv [OF _ assms(2)] assms(4) by auto
  from tq_drain [OF assms(1) i1 q1(2)] obtain q2 where
    q2: "tq_owns Q q1 q2" "tq_thread q2 = AtTest" "items (tq_queue q2) = {#}" by blast
  from q1(1) q2(1) have o: "tq_owns Q q q2" by (rule rtranclp_trans)
  have i2: "tq_inv q2" using tq_owns_steps [OF o] tq_steps_inv [OF _ assms(2)] by blast
  have "tasks_kept items q2" using tq_owns_steps [OF o] tq_steps_kept [OF _ assms(2,1,3)] by blast
  with q2(2,3) tq_inv_idle [OF i2] have "mset (tq_run q2) = mset (tq_sent q2)" by (simp add: tasks_kept_def will_run_def)
  with o i2 tq_owns_steps [OF o] show ?thesis by auto
qed

subsection \<open>RaftTaskExecutor\<close>

text \<open>
  A task is what its closure does, one statement after the other: work on the raft node and on
  what the closure refers to (\<open>'n\<close> stands for both), and signals to the barrier at an address.
  \<^verbatim>\<open>Submit\<close> binds the node and enqueues.
\<close>

datatype 'n instruction = Work "'n \<Rightarrow> 'n outcome" | SignalBarrier nat

type_synonym 'n RaftTask = "'n instruction list"

definition Submit :: "('q, 'n RaftTask) task_queue_lib \<Rightarrow> nat \<Rightarrow> 'n RaftTask \<Rightarrow> ('q, 'n RaftTask) TaskQueue \<Rightarrow> ('q, 'n RaftTask) TaskQueue" where
  "Submit Q p task q = Enqueue Q p task q"

text \<open>
  A call that waits for its task has a \<^verbatim>\<open>Barrier\<close> on its stack and submits a closure that works
  and then calls \<^verbatim>\<open>barrier.Signal()\<close>.
\<close>

definition waiting_task :: "nat \<Rightarrow> ('n \<Rightarrow> 'n outcome) \<Rightarrow> 'n RaftTask" where
  "waiting_task b f = [Work f, SignalBarrier b]"

text \<open>\<^verbatim>\<open>GetReady\<close> leaves its result in a local variable of the caller, here the second component.\<close>

definition GetReady :: "('n \<Rightarrow> 'r \<times> 'n) \<Rightarrow> nat \<Rightarrow> ('n \<times> 'r option) RaftTask" where
  "GetReady node_GetReady b =
     waiting_task b (\<lambda>(node, rd). case node_GetReady node of (r, node') \<Rightarrow> Ret (node', Some r))"

fun carry_out :: "'n instruction \<Rightarrow> 'n \<times> (nat \<Rightarrow> Barrier) \<Rightarrow> ('n \<times> (nat \<Rightarrow> Barrier)) outcome" where
  "carry_out (Work f) (node, barriers) = bind_outcome (f node) (\<lambda>node. Ret (node, barriers))"
| "carry_out (SignalBarrier b) (node, barriers) =
     bind_outcome (Signal (barriers b)) (\<lambda>b'. Ret (node, barriers(b := b')))"

text \<open>
  The executor with its queue: the node and the barriers, what is left to do of the current task,
  and the history of all instructions that were carried out.  Between two instructions of a task
  other threads submit tasks and look at their barriers.
\<close>

record ('q, 'n) executor =
  ex_queue :: "('q, 'n RaftTask) TaskQueue"
  ex_node :: 'n
  ex_barriers :: "nat \<Rightarrow> Barrier"
  ex_todo :: "'n instruction list"
  ex_done :: "'n instruction list"

definition new_executor :: "('q, 'n RaftTask) task_queue_lib \<Rightarrow> 'n \<Rightarrow> (nat \<Rightarrow> Barrier) \<Rightarrow> ('q, 'n) executor" where
  "new_executor Q node barriers =
     \<lparr>ex_queue = new_TaskQueue Q, ex_node = node, ex_barriers = barriers, ex_todo = [], ex_done = []\<rparr>"

inductive ex_step :: "('q, 'n RaftTask) task_queue_lib \<Rightarrow> ('q, 'n) executor \<Rightarrow> ('q, 'n) executor \<Rightarrow> bool" for Q where
  submit: "ex_step Q x (x\<lparr>ex_queue := Submit Q p task (ex_queue x)\<rparr>)"
| between_tasks: "tq_step Q (ex_queue x) q \<Longrightarrow> tq_current q = tq_current (ex_queue x) \<Longrightarrow> ex_step Q x (x\<lparr>ex_queue := q\<rparr>)"
| task_starts: "tq_step Q (ex_queue x) q \<Longrightarrow> tq_current (ex_queue x) = None \<Longrightarrow> tq_current q = Some (p, task) \<Longrightarrow>
    ex_step Q x (x\<lparr>ex_queue := q, ex_todo := task\<rparr>)"
| instruction: "tq_current (ex_queue x) \<noteq> None \<Longrightarrow> ex_todo x = i # is \<Longrightarrow>
    carry_out i (ex_node x, ex_barriers x) = Ret (node, barriers) \<Longrightarrow>
    ex_step Q x (x\<lparr>ex_node := node, ex_barriers := barriers, ex_todo := is, ex_done := ex_done x @ [i]\<rparr>)"
| task_ends: "tq_step Q (ex_queue x) q \<Longrightarrow> tq_current (ex_queue x) \<noteq> None \<Longrightarrow> tq_current q = None \<Longrightarrow> ex_todo x = [] \<Longrightarrow>
    ex_step Q x (x\<lparr>ex_queue := q\<rparr>)"

abbreviation ex_steps :: "('q, 'n RaftTask) task_queue_lib \<Rightarrow> ('q, 'n) executor \<Rightarrow> ('q, 'n) executor \<Rightarrow> bool" where
  "ex_steps Q \<equiv> (ex_step Q)\<^sup>*\<^sup>*"

text \<open>What the work of a list of instructions makes of the node.\<close>

fun task_effect :: "'n RaftTask \<Rightarrow> 'n \<Rightarrow> 'n outcome" where
  "task_effect [] node = Ret node"
| "task_effect (Work f # is) node = bind_outcome (f node) (task_effect is)"
| "task_effect (SignalBarrier b # is) node = task_effect is node"

lemma task_effect_append: "task_effect (is @ js) node = bind_outcome (task_effect is node) (task_effect js)"
proof (induction "is" node rule: task_effect.induct)
  case (2 f "is" node)
  then show ?case by (cases "f node") simp_all
qed simp_all

lemma task_effect_waiting [simp]: "task_effect (waiting_task b f) node = f node" "task_effect [Work f] node = f node"
  by (cases "f node"; simp add: waiting_task_def)+

text \<open>
  The invariant: the instructions that were carried out are those of the tasks that have run and
  the first ones of the current task, the node is what they make of it, and an open barrier has
  been signalled by one of them.
\<close>

definition ex_inv :: "'n \<Rightarrow> (nat \<Rightarrow> Barrier) \<Rightarrow> ('q, 'n) executor \<Rightarrow> bool" where
  "ex_inv node barriers x \<longleftrightarrow>
     tq_inv (ex_queue x) \<and>
     ex_done x @ ex_todo x = concat (map snd (will_run (ex_queue x))) \<and>
     (tq_current (ex_queue x) = None \<longrightarrow> ex_todo x = []) \<and>
     (\<forall>t. tq_current (ex_queue x) = Some t \<longrightarrow> suffix (ex_todo x) (snd t)) \<and>
     task_effect (ex_done x) node = Ret (ex_node x) \<and>
     (\<forall>b. Wait (barriers b) = None \<longrightarrow> Wait (ex_barriers x b) = Some () \<longrightarrow> SignalBarrier b \<in> set (ex_done x))"

lemma ex_inv_new: "ex_inv node barriers (new_executor Q node barriers)"
  using tq_inv_new [of Q] by (simp add: ex_inv_def new_executor_def will_run_def new_TaskQueue_def)

lemma tq_step_current:
  assumes "tq_step Q q q'" "tq_inv q"
  shows "(tq_current q' = tq_current q \<longrightarrow> will_run q' = will_run q) \<and>
    (\<forall>t. tq_current q = None \<longrightarrow> tq_current q' = Some t \<longrightarrow> will_run q' = will_run q @ [t]) \<and>
    (tq_current q \<noteq> None \<longrightarrow> tq_current q' = None \<longrightarrow> will_run q' = will_run q)"
  using assms(1) tq_inv_idle [OF assms(2)] by cases (auto simp: will_run_def Enqueue_def split: option.splits)

lemma ex_step_inv:
  assumes "ex_step Q x x'" "ex_inv node barriers x"
  shows "ex_inv node barriers x'"
  using assms(1)
proof cases
  case (submit p task)
  have "tq_step Q (ex_queue x) (Submit Q p task (ex_queue x))" unfolding Submit_def by (rule enqueue)
  with tq_step_inv [OF this] tq_step_current [OF this] assms(2) submit show ?thesis by (simp add: ex_inv_def Submit_def Enqueue_def)
next
  case (between_tasks q)
  with tq_step_inv [OF between_tasks(2)] tq_step_current [OF between_tasks(2)] assms(2) show ?thesis by (simp add: ex_inv_def)
next
  case (task_starts q p task)
  with tq_step_inv [OF task_starts(2)] tq_step_current [OF task_starts(2)] assms(2) show ?thesis by (auto simp: ex_inv_def)
next
  case (task_ends q)
  with tq_step_inv [OF task_ends(2)] tq_step_current [OF task_ends(2)] assms(2) show ?thesis by (auto simp: ex_inv_def)
next
  case (instruction i "is" n bs)
  then show ?thesis
    using assms(2) by (cases i) (auto simp: ex_inv_def task_effect_append Wait_def suffix_ConsD split: if_splits)
qed

lemma ex_steps_inv: "ex_steps Q x x' \<Longrightarrow> ex_inv node barriers x \<Longrightarrow> ex_inv node barriers x'"
  by (induction rule: rtranclp_induct) (auto intro: ex_step_inv)

lemma ex_step_queue: "ex_step Q x x' \<Longrightarrow> tq_steps Q (ex_queue x) (ex_queue x')"
  by (induction rule: ex_step.induct) (auto simp: Submit_def intro: enqueue)

lemma ex_steps_queue: "ex_steps Q x x' \<Longrightarrow> tq_steps Q (ex_queue x) (ex_queue x')"
  by (induction rule: rtranclp_induct) (auto dest: ex_step_queue)

text \<open>Among whole tasks laid end to end, a barrier signalled in a prefix belongs to a task of it.\<close>

lemma prefix_of_tasks:
  assumes "done @ todo = concat ts" "i \<in> set done" "\<forall>t\<in>set ts. i \<in> set t \<longrightarrow> t = [j, i]"
  shows "\<exists>us vs. set us \<subseteq> set ts \<and> done = concat us @ j # vs"
  using assms
proof (induction ts arbitrary: "done")
  case (Cons t ts)
  show ?case
  proof (cases "i \<in> set t")
    case True
    then have t: "t = [j, i]" using Cons.prems(3) by simp
    then obtain d vs where "done = d # vs" using Cons.prems(2) by (cases "done") auto
    with Cons.prems(1) t show ?thesis by (intro exI [of _ "[]"] exI [of _ vs]) simp
  next
    case False
    from Cons.prems(1) have "done @ todo = t @ concat ts" by simp
    then consider us where "done = t @ us" "us @ todo = concat ts" | us where "t = done @ us"
      unfolding append_eq_append_conv2 by blast
    then show ?thesis
    proof cases
      case (1 rest)
      then have "i \<in> set rest" using Cons.prems(2) False by simp
      from Cons.IH [OF 1(2) this] Cons.prems(3) obtain us vs where "set us \<subseteq> set ts" "rest = concat us @ j # vs" by auto
      with 1(1) show ?thesis by (intro exI [of _ "t # us"] exI [of _ vs]) auto
    next
      case 2
      with Cons.prems(2) False show ?thesis by simp
    qed
  qed
qed simp

text \<open>
  C38. A call that waits for its task (\<^verbatim>\<open>GetReady\<close>, the timer, the handlers of the RPC service):
  when \<^verbatim>\<open>Wait\<close> on its barrier returns, whatever the other threads have submitted and however
  their steps interleave, the work of its task has been done completely, at a moment when the node was
  what some tasks, each of them submitted and each of them carried out as a whole, had made of it, and what
  followed on the worker's thread started from the node that this work left.
\<close>

theorem executor_call_waits:
  assumes "queue_law Q items"
    and "ex_steps Q (new_executor Q node barriers) x"
    and "Wait (barriers b) = None" "Wait (ex_barriers x b) = Some ()"
    and "\<forall>t\<in>set (map snd (tq_sent (ex_queue x))). SignalBarrier b \<in> set t \<longrightarrow> t = waiting_task b f"
  shows "\<exists>ts later node1 node2.
    set ts \<subseteq> set (map snd (tq_sent (ex_queue x))) \<and> ex_done x = concat ts @ Work f # later \<and>
    task_effect (concat ts) node = Ret node1 \<and> f node1 = Ret node2 \<and> task_effect later node2 = Ret (ex_node x)"
proof -
  note I = ex_steps_inv [OF assms(2) ex_inv_new, unfolded ex_inv_def]
  have q: "tq_steps Q (new_TaskQueue Q) (ex_queue x)" using ex_steps_queue [OF assms(2)] by (simp add: new_executor_def)
  have sub: "set (will_run (ex_queue x)) \<subseteq> set (tq_sent (ex_queue x))"
    using mset_subset_eqD [OF task_queue_once [OF assms(1) q]] by auto
  have "SignalBarrier b \<in> set (ex_done x)" using I assms(3,4) by blast
  moreover have "\<forall>t\<in>set (map snd (will_run (ex_queue x))). SignalBarrier b \<in> set t \<longrightarrow> t = [Work f, SignalBarrier b]"
    using sub assms(5) by (auto simp: waiting_task_def)
  moreover have "ex_done x @ ex_todo x = concat (map snd (will_run (ex_queue x)))" using I by blast
  ultimately obtain ts later where
    ts: "set ts \<subseteq> set (map snd (will_run (ex_queue x)))" "ex_done x = concat ts @ Work f # later"
    using prefix_of_tasks by metis
  have "task_effect (concat ts @ Work f # later) node = Ret (ex_node x)" using I ts(2) by simp
  then obtain node1 node2 where "task_effect (concat ts) node = Ret node1" "f node1 = Ret node2" "task_effect later node2 = Ret (ex_node x)"
    by (auto simp: task_effect_append)
  moreover have "set ts \<subseteq> set (map snd (tq_sent (ex_queue x)))" using ts(1) sub by (metis image_mono order_trans set_map)
  ultimately show ?thesis using ts(2) by blast
qed

text \<open>An example: the node is a counter, one task adds five and one, which is waited for, doubles.\<close>

definition example_add :: "nat RaftTask" where
  "example_add = [Work (\<lambda>n. Ret (n + 5))]"

definition example_ex :: "nat \<Rightarrow> ((nat \<times> nat RaftTask) list, nat) executor" where
  "example_ex k =
     (let q = Submit list_queue 2 (waiting_task 0 (\<lambda>n. Ret (2 * n))) (Submit list_queue 1 example_add (new_TaskQueue list_queue));
          t = (2, waiting_task 0 (\<lambda>n. Ret (2 * n))); rest = q\<lparr>tq_queue := [(1, example_add)], tq_current := Some t, tq_thread := Running\<rparr>;
          x = (new_executor list_queue 1 (\<lambda>_. new_SimpleChannel))\<lparr>ex_queue := rest\<rparr>
      in if k = 0 then x\<lparr>ex_queue := q\<rparr> else if k = 1 then x\<lparr>ex_queue := q\<lparr>tq_thread := Dequeuing\<rparr>\<rparr>
         else if k = 2 then x\<lparr>ex_todo := snd t\<rparr>
         else if k = 3 then x\<lparr>ex_todo := tl (snd t), ex_node := 2, ex_done := take 1 (snd t)\<rparr>
         else x\<lparr>ex_node := 2, ex_barriers := (\<lambda>_. new_SimpleChannel)(0 := new_SimpleChannel\<lparr>ch_value := Some ()\<rparr>), ex_done := snd t\<rparr>)"

lemma example_ex_steps:
  "ex_steps list_queue (new_executor list_queue 1 (\<lambda>_. new_SimpleChannel)) (example_ex 4)"
proof -
  let ?Q = "list_queue :: ((nat \<times> nat RaftTask) list, nat \<times> nat RaftTask) ConcurrentQueue"
  let ?t = "(2, waiting_task 0 (\<lambda>n. Ret (2 * n))) :: nat \<times> nat RaftTask"
  let ?x = "new_executor ?Q 1 (\<lambda>_. new_SimpleChannel)"
  note defs = example_ex_def new_executor_def Let_def Submit_def Enqueue_def new_TaskQueue_def StartLoop_def new_BackgroundWorker_def
  have "ex_step ?Q ?x (?x\<lparr>ex_queue := Submit ?Q 1 example_add (ex_queue ?x)\<rparr>)" by (rule submit)
  moreover have "ex_step ?Q (?x\<lparr>ex_queue := Submit ?Q 1 example_add (ex_queue ?x)\<rparr>) (example_ex 0)"
    using submit [of ?Q "?x\<lparr>ex_queue := Submit ?Q 1 example_add (ex_queue ?x)\<rparr>" 2 "snd ?t"] by (simp add: defs)
  moreover have "ex_step ?Q (example_ex 0) (example_ex 1)"
    using between_tasks [OF loop_test, of "example_ex 0" ?Q] by (simp add: defs)
  moreover have "ex_step ?Q (example_ex 1) (example_ex 2)"
    using task_starts [OF dequeue, of "example_ex 1" ?Q ?t "[(1, example_add)]" 2 "snd ?t"]
    by (simp add: defs example_add_def waiting_task_def)
  moreover have "ex_step ?Q (example_ex 2) (example_ex 3)"
    using instruction [of "example_ex 2" "hd (snd ?t)" "tl (snd ?t)" 2 "\<lambda>_. new_SimpleChannel" ?Q]
    by (simp add: defs waiting_task_def)
  moreover have "ex_step ?Q (example_ex 3) (example_ex 4)"
    using instruction [of "example_ex 3" "SignalBarrier 0" "[]" 2 "(\<lambda>_. new_SimpleChannel)(0 := new_SimpleChannel\<lparr>ch_value := Some ()\<rparr>)" ?Q]
    by (simp add: defs waiting_task_def Signal_def chan_send_def new_SimpleChannel_def)
  ultimately show ?thesis by (meson rtranclp.rtrancl_refl rtranclp.rtrancl_into_rtrancl)
qed

theorem executor_call_waits_witness:
  "\<exists>ts later node1 node2. ex_done (example_ex 4) = concat ts @ Work (\<lambda>n. Ret (2 * n)) # later \<and>
     task_effect (concat ts) 1 = Ret node1 \<and> 2 * node1 = node2 \<and> task_effect later node2 = Ret 2"
proof -
  have "Wait (new_SimpleChannel :: Barrier) = None" "Wait (ex_barriers (example_ex 4) 0) = Some ()" "ex_node (example_ex 4) = 2"
    by (simp_all add: Wait_def new_SimpleChannel_def example_ex_def Let_def)
  moreover have "tq_sent (ex_queue (example_ex 4)) = [(1, example_add), (2, waiting_task 0 (\<lambda>n. Ret (2 * n)))]"
    by (simp add: example_ex_def Let_def Submit_def Enqueue_def new_TaskQueue_def)
  ultimately show ?thesis
    using executor_call_waits [OF list_queue_law example_ex_steps, of 0 "\<lambda>n. Ret (2 * n)"] by (auto simp: example_add_def)
qed

subsection \<open>RaftTimer\<close>

definition kTimerGranularity :: nat where
  "kTimerGranularity = 100"

text \<open>
  The task of the timer, \<^verbatim>\<open>for (i = 0; i < kTimerGranularity; i++) node->Tick()\<close>, which the timer
  waits for before it goes to the next executor.
\<close>

definition timer_task :: "('n \<Rightarrow> 'n) \<Rightarrow> nat \<Rightarrow> 'n RaftTask" where
  "timer_task Tick b = waiting_task b (\<lambda>node. Ret ((Tick ^^ kTimerGranularity) node))"

text \<open>
  One round of the timer's thread: every registered executor has run the task before the next
  one gets it.
\<close>

fun timer_round :: "('n \<Rightarrow> 'n) \<Rightarrow> 'n list \<Rightarrow> 'n list outcome" where
  "timer_round Tick [] = Ret []"
| "timer_round Tick (node # nodes) =
     bind_outcome (task_effect (timer_task Tick 0) node) (\<lambda>node'.
     bind_outcome (timer_round Tick nodes) (\<lambda>nodes'. Ret (node' # nodes')))"

primrec timer_rounds :: "('n \<Rightarrow> 'n) \<Rightarrow> nat \<Rightarrow> 'n list \<Rightarrow> 'n list outcome" where
  "timer_rounds Tick 0 nodes = Ret nodes"
| "timer_rounds Tick (Suc r) nodes = bind_outcome (timer_round Tick nodes) (timer_rounds Tick r)"

definition Timer_Register :: "'n \<Rightarrow> 'n list \<Rightarrow> 'n list" where
  "Timer_Register executor executors = executors @ [executor]"

lemma timer_round_map: "timer_round Tick nodes = Ret (map (Tick ^^ kTimerGranularity) nodes)"
  by (induction nodes) (simp_all add: timer_task_def)

lemma timer_rounds_map: "timer_rounds Tick r nodes = Ret (map (Tick ^^ (kTimerGranularity * r)) nodes)"
proof (induction r arbitrary: nodes)
  case (Suc r)
  have "Tick ^^ (kTimerGranularity * Suc r) = Tick ^^ (kTimerGranularity * r) \<circ> Tick ^^ kTimerGranularity"
    by (simp add: funpow_add [symmetric] add.commute)
  with Suc show ?case by (simp add: timer_round_map)
qed simp

text \<open>
  The timer keeps time: after any number of rounds every registered node, and no more than
  once per registration, has been ticked a hundred times per round, so a tick is a millisecond.
\<close>

lemma timer_ticks:
  "timer_rounds Tick r (Timer_Register node nodes) = Ret (map (Tick ^^ (100 * r)) nodes @ [(Tick ^^ (100 * r)) node])"
  unfolding timer_rounds_map by (simp add: Timer_Register_def kTimerGranularity_def)

end
