(* ===== verification/Coding.thy ===== *)
theory Coding
  imports Prelude
begin

unbundle bit_operations_syntax

section \<open>Byte encodings: base/coding.cc, base/coding.h, base/endianness.cc\<close>

text \<open>
  Fixed-width integers, base-128 varints and length-prefixed byte strings.  A routine that
  writes to a \<^verbatim>\<open>char*\<close> is modelled by the bytes it writes; one that appends to a
  \<^verbatim>\<open>std::string\<close> takes and returns the string.  A \<^verbatim>\<open>Slice\<close>, or a pair of pointers
  \<^verbatim>\<open>p\<close>, \<^verbatim>\<open>limit\<close>, is the list of bytes between them; advancing it is dropping a prefix,
  and a null result is \<^const>\<open>None\<close>.
\<close>

subsection \<open>The platform\<close>

text \<open>
  \<open>host_little\<close> is the byte order of the machine, which decides what \<^verbatim>\<open>memcpy\<close> of an
  integer yields.  \<open>FLAGS_is_little_endian\<close> is the flag the code tests; it is a gflags
  variable, so the command line can set it to either value.
\<close>

record platform =
  host_little :: bool
  FLAGS_is_little_endian :: bool

definition default_platform :: "bool \<Rightarrow> platform" where
  "default_platform host =
     (if host then \<lparr>host_little = host, FLAGS_is_little_endian = True\<rparr>
      else \<lparr>host_little = host, FLAGS_is_little_endian = False\<rparr>)"

definition memcpy_from :: "platform \<Rightarrow> bytes \<Rightarrow> bytes" where
  "memcpy_from P le = (if host_little P then le else rev le)"

definition le_bytes32 :: "u32 \<Rightarrow> bytes" where
  "le_bytes32 v = [ucast v, ucast (drop_bit 8 v), ucast (drop_bit 16 v), ucast (drop_bit 24 v)]"

definition le_bytes64 :: "u64 \<Rightarrow> bytes" where
  "le_bytes64 v =
     [ucast v, ucast (drop_bit 8 v), ucast (drop_bit 16 v), ucast (drop_bit 24 v),
      ucast (drop_bit 32 v), ucast (drop_bit 40 v), ucast (drop_bit 48 v), ucast (drop_bit 56 v)]"

subsection \<open>Fixed-width integers\<close>

definition EncodeFixed32 :: "platform \<Rightarrow> u32 \<Rightarrow> bytes" where
  "EncodeFixed32 P value =
     (if FLAGS_is_little_endian P then memcpy_from P (le_bytes32 value)
      else
        [ucast (value AND 0xff),
         ucast (drop_bit 8 value AND 0xff),
         ucast (drop_bit 16 value AND 0xff),
         ucast (drop_bit 24 value AND 0xff)])"

definition EncodeFixed64 :: "platform \<Rightarrow> u64 \<Rightarrow> bytes" where
  "EncodeFixed64 P value =
     (if FLAGS_is_little_endian P then memcpy_from P (le_bytes64 value)
      else
        [ucast (value AND 0xff),
         ucast (drop_bit 8 value AND 0xff),
         ucast (drop_bit 16 value AND 0xff),
         ucast (drop_bit 24 value AND 0xff),
         ucast (drop_bit 32 value AND 0xff),
         ucast (drop_bit 40 value AND 0xff),
         ucast (drop_bit 48 value AND 0xff),
         ucast (drop_bit 56 value AND 0xff)])"

definition PutFixed32 :: "platform \<Rightarrow> bytes \<Rightarrow> u32 \<Rightarrow> bytes" where
  "PutFixed32 P dst value = dst @ EncodeFixed32 P value"

definition PutFixed64 :: "platform \<Rightarrow> bytes \<Rightarrow> u64 \<Rightarrow> bytes" where
  "PutFixed64 P dst value = dst @ EncodeFixed64 P value"

text \<open>
  The decoders read without a bounds check: fewer bytes than the width is undefined.
\<close>

definition le_word32 :: "bytes \<Rightarrow> u32" where
  "le_word32 b =
     ucast (b ! 0) OR push_bit 8 (ucast (b ! 1)) OR push_bit 16 (ucast (b ! 2))
       OR push_bit 24 (ucast (b ! 3))"

definition le_word64 :: "bytes \<Rightarrow> u64" where
  "le_word64 b =
     ucast (b ! 0) OR push_bit 8 (ucast (b ! 1)) OR push_bit 16 (ucast (b ! 2))
       OR push_bit 24 (ucast (b ! 3)) OR push_bit 32 (ucast (b ! 4)) OR push_bit 40 (ucast (b ! 5))
       OR push_bit 48 (ucast (b ! 6)) OR push_bit 56 (ucast (b ! 7))"

definition DecodeFixed32 :: "platform \<Rightarrow> bytes \<Rightarrow> u32 outcome" where
  "DecodeFixed32 P ptr =
     (if length ptr < 4 then Undef OutOfBounds
      else if FLAGS_is_little_endian P then Ret (le_word32 (memcpy_from P (take 4 ptr)))
      else Ret (ucast (ptr ! 0) OR push_bit 8 (ucast (ptr ! 1)) OR push_bit 16 (ucast (ptr ! 2))
                  OR push_bit 24 (ucast (ptr ! 3))))"

definition DecodeFixed64 :: "platform \<Rightarrow> bytes \<Rightarrow> u64 outcome" where
  "DecodeFixed64 P ptr =
     (if length ptr < 8 then Undef OutOfBounds
      else if FLAGS_is_little_endian P then Ret (le_word64 (memcpy_from P (take 8 ptr)))
      else
        bind_outcome (DecodeFixed32 P ptr) (\<lambda>lo.
        bind_outcome (DecodeFixed32 P (drop 4 ptr)) (\<lambda>hi.
          Ret (push_bit 32 (ucast hi) OR ucast lo))))"

subsection \<open>Varints\<close>

definition EncodeVarint32 :: "u32 \<Rightarrow> bytes" where
  "EncodeVarint32 v =
     (if v < 2 ^ 7 then
        [ucast v]
      else if v < 2 ^ 14 then
        [ucast (v OR 128), ucast (drop_bit 7 v)]
      else if v < 2 ^ 21 then
        [ucast (v OR 128), ucast (drop_bit 7 v OR 128), ucast (drop_bit 14 v)]
      else if v < 2 ^ 28 then
        [ucast (v OR 128), ucast (drop_bit 7 v OR 128), ucast (drop_bit 14 v OR 128),
         ucast (drop_bit 21 v)]
      else
        [ucast (v OR 128), ucast (drop_bit 7 v OR 128), ucast (drop_bit 14 v OR 128),
         ucast (drop_bit 21 v OR 128), ucast (drop_bit 28 v)])"

definition PutVarint32 :: "bytes \<Rightarrow> u32 \<Rightarrow> bytes" where
  "PutVarint32 dst v = dst @ EncodeVarint32 v"

lemma drop_bit_7_less: "128 \<le> v \<Longrightarrow> unat (drop_bit 7 v) < unat (v :: u64)"
  using div_less_dividend [of 128 "unat v"]
  by (simp only: unat_drop_bit_eq word_le_nat_alt) (simp add: drop_bit_eq_div)

function EncodeVarint64 :: "u64 \<Rightarrow> bytes" where
  "EncodeVarint64 v =
     (if v \<ge> 128 then ucast ((v AND 127) OR 128) # EncodeVarint64 (drop_bit 7 v)
      else [ucast v])"
  by pat_completeness auto
termination
  by (relation "measure unat") (simp_all add: drop_bit_7_less)

declare EncodeVarint64.simps [simp del]

definition PutVarint64 :: "bytes \<Rightarrow> u64 \<Rightarrow> bytes" where
  "PutVarint64 dst v = dst @ EncodeVarint64 v"

definition PutLengthPrefixedSlice :: "bytes \<Rightarrow> bytes \<Rightarrow> bytes" where
  "PutLengthPrefixedSlice dst value = PutVarint32 dst (of_nat (length value)) @ value"

function VarintLength_loop :: "u64 \<Rightarrow> nat \<Rightarrow> nat" where
  "VarintLength_loop v len =
     (if v \<ge> 128 then VarintLength_loop (drop_bit 7 v) (Suc len) else len)"
  by pat_completeness auto
termination
  by (relation "measure (\<lambda>(v, _). unat v)") (simp_all add: drop_bit_7_less)

declare VarintLength_loop.simps [simp del]

definition VarintLength :: "u64 \<Rightarrow> nat" where
  "VarintLength v = VarintLength_loop v 1"

fun GetVarint32PtrFallback_loop :: "nat \<Rightarrow> u32 \<Rightarrow> bytes \<Rightarrow> (u32 \<times> bytes) option" where
  "GetVarint32PtrFallback_loop shift result [] = None"
| "GetVarint32PtrFallback_loop shift result (b # p) =
     (if shift \<le> 28 then
        let byte = ucast b :: u32 in
        if byte AND 128 \<noteq> 0 then
          GetVarint32PtrFallback_loop (shift + 7) (result OR push_bit shift (byte AND 127)) p
        else Some (result OR push_bit shift byte, p)
      else None)"

definition GetVarint32PtrFallback :: "bytes \<Rightarrow> (u32 \<times> bytes) option" where
  "GetVarint32PtrFallback p = GetVarint32PtrFallback_loop 0 0 p"

definition GetVarint32Ptr :: "bytes \<Rightarrow> (u32 \<times> bytes) option" where
  "GetVarint32Ptr p =
     (case p of
        [] \<Rightarrow> GetVarint32PtrFallback p
      | b # p' \<Rightarrow>
          let result = ucast b :: u32 in
          if result AND 128 = 0 then Some (result, p') else GetVarint32PtrFallback p)"

definition GetVarint32 :: "bytes \<Rightarrow> (u32 \<times> bytes) option" where
  "GetVarint32 input =
     (case GetVarint32Ptr input of None \<Rightarrow> None | Some (value, q) \<Rightarrow> Some (value, q))"

fun GetVarint64Ptr_loop :: "nat \<Rightarrow> u64 \<Rightarrow> bytes \<Rightarrow> (u64 \<times> bytes) option" where
  "GetVarint64Ptr_loop shift result [] = None"
| "GetVarint64Ptr_loop shift result (b # p) =
     (if shift \<le> 63 then
        let byte = ucast b :: u64 in
        if byte AND 128 \<noteq> 0 then
          GetVarint64Ptr_loop (shift + 7) (result OR push_bit shift (byte AND 127)) p
        else Some (result OR push_bit shift byte, p)
      else None)"

definition GetVarint64Ptr :: "bytes \<Rightarrow> (u64 \<times> bytes) option" where
  "GetVarint64Ptr p = GetVarint64Ptr_loop 0 0 p"

definition GetVarint64 :: "bytes \<Rightarrow> (u64 \<times> bytes) option" where
  "GetVarint64 input =
     (case GetVarint64Ptr input of None \<Rightarrow> None | Some (value, q) \<Rightarrow> Some (value, q))"

subsection \<open>Length-prefixed strings\<close>

definition GetLengthPrefixedSlicePtr :: "bytes \<Rightarrow> (bytes \<times> bytes) option" where
  "GetLengthPrefixedSlicePtr p =
     (case GetVarint32Ptr p of
        None \<Rightarrow> None
      | Some (len, q) \<Rightarrow>
          if unat len > length q then None else Some (take (unat len) q, drop (unat len) q))"

text \<open>
  When there are too few bytes, the source has already moved the input behind the varint; \<^const>\<open>None\<close>
  says nothing about the input then, and no caller looks at it.
\<close>

definition GetLengthPrefixedSlice :: "bytes \<Rightarrow> (bytes \<times> bytes) option" where
  "GetLengthPrefixedSlice input =
     (case GetVarint32 input of
        Some (len, input') \<Rightarrow>
          if length input' \<ge> unat len
          then Some (take (unat len) input', drop (unat len) input')
          else None
      | None \<Rightarrow> None)"

subsection \<open>Self-delimiting codecs\<close>

locale codec =
  fixes enc :: "'a \<Rightarrow> bytes"
    and dec :: "bytes \<Rightarrow> ('a \<times> bytes) option"
    and valid :: "'a \<Rightarrow> bool"
  assumes dec_enc: "valid x \<Longrightarrow> dec (enc x @ rest) = Some (x, rest)"
    and dec_stable: "dec bs = Some (x, r) \<Longrightarrow> dec (bs @ s) = Some (x, r @ s)"
begin

lemma dec_enc_exact: "valid x \<Longrightarrow> dec (enc x) = Some (x, [])"
  using dec_enc [of x "[]"] by simp

lemma enc_append_inj:
  assumes "valid x" "valid y" "enc x @ r = enc y @ s"
  shows "x = y \<and> r = s"
proof -
  have "Some (x, r) = Some (y, s)"
    unfolding dec_enc [OF assms(1), symmetric] dec_enc [OF assms(2), symmetric] assms(3) ..
  then show ?thesis by simp
qed

lemma dec_truncated:
  assumes "valid x" "enc x = p @ q" "q \<noteq> []"
  shows "dec p = None"
proof (cases "dec p")
  case (Some yr)
  then obtain y r where "dec p = Some (y, r)" by (cases yr) auto
  then have "dec (enc x) = Some (y, r @ q)" using dec_stable assms(2) by metis
  then show ?thesis using dec_enc_exact [OF assms(1)] assms(3) by simp
qed

end


subsection \<open>Bits\<close>

lemma bit_127: "bit (127 :: int) n \<longleftrightarrow> n < 7"
proof -
  have "(127 :: int) = mask 7" by (simp add: mask_eq_exp_minus_1)
  then show ?thesis by (simp only: bit_mask_iff possible_bit_int) simp
qed

lemma bit_128: "bit (128 :: int) n \<longleftrightarrow> n = 7"
proof -
  have "(128 :: int) = push_bit 7 1" by (simp add: push_bit_eq_mult)
  then show ?thesis by (auto simp only: bit_push_bit_iff bit_1_iff possible_bit_int)
qed

lemma word_join:
  "take_bit k v OR push_bit k (drop_bit k v) = (v :: 'a::len word)"
proof (rule bit_eqI)
  fix n
  show "bit (take_bit k v OR push_bit k (drop_bit k v)) n = bit v n"
    by (cases "n < k") (auto simp: bit_take_bit_iff bit_or_iff bit_push_bit_iff bit_drop_bit_eq dest: bit_imp_le_length)
qed

lemma word_join_shifted:
  "push_bit s (take_bit k v) OR push_bit (s + k) (drop_bit k v) = push_bit s (v :: 'a::len word)"
  using word_join [of k v] by (metis push_bit_or push_bit_push_bit add.commute)

lemma ucast_byte: "8 \<le> LENGTH('a) \<Longrightarrow> (ucast (ucast v :: byte) :: 'a::len word) = take_bit 8 v"
  by (rule bit_eqI) (auto simp: bit_take_bit_iff bit_ucast_iff)

lemma take_bit_top: "LENGTH('a) = k + n \<Longrightarrow> take_bit k (drop_bit n v) = drop_bit n (v :: 'a::len word)"
  by (rule bit_eqI) (auto simp: bit_take_bit_iff bit_drop_bit_eq dest: bit_imp_le_length)

lemma le_word32_bytes: "le_word32 (le_bytes32 v) = v"
proof -
  have "take_bit 8 (drop_bit 24 v) = drop_bit 24 v" by (rule take_bit_top) simp
  then show ?thesis
    using word_join_shifted [of 0 8 v] word_join_shifted [of 8 8 "drop_bit 8 v"]
      word_join_shifted [of 16 8 "drop_bit 16 v"]
    by (simp add: le_word32_def le_bytes32_def ucast_byte or.assoc)
qed

lemma varint_byte:
  fixes v :: "'a::len word"
  assumes "8 \<le> LENGTH('a)"
  shows "(ucast (ucast (v OR 128) :: byte) :: 'a word) AND 127 = take_bit 7 v"
    and "(ucast (ucast (v OR 128) :: byte) :: 'a word) AND 128 = 128"
  using assms by (auto intro!: bit_eqI simp: bit_take_bit_iff bit_and_iff bit_or_iff bit_ucast_iff bit_127 bit_128)

lemma le_word64_bytes: "le_word64 (le_bytes64 v) = v"
proof -
  have "take_bit 8 (drop_bit 56 v) = drop_bit 56 v" by (rule take_bit_top) simp
  then show ?thesis
    using word_join_shifted [of 0 8 v] word_join_shifted [of 8 8 "drop_bit 8 v"]
      word_join_shifted [of 16 8 "drop_bit 16 v"] word_join_shifted [of 24 8 "drop_bit 24 v"]
      word_join_shifted [of 32 8 "drop_bit 32 v"] word_join_shifted [of 40 8 "drop_bit 40 v"]
      word_join_shifted [of 48 8 "drop_bit 48 v"]
    by (simp add: le_word64_def le_bytes64_def ucast_byte or.assoc)
qed

lemma varint64_byte:
  fixes v :: "'a::len word"
  assumes "8 \<le> LENGTH('a)"
  shows "(ucast (ucast ((v AND 127) OR 128) :: byte) :: 'a word) AND 127 = take_bit 7 v"
    and "(ucast (ucast ((v AND 127) OR 128) :: byte) :: 'a word) AND 128 = 128"
  using assms by (auto intro!: bit_eqI simp: bit_take_bit_iff bit_and_iff bit_or_iff bit_ucast_iff bit_127 bit_128)

lemma bit_255: "bit (255 :: int) n \<longleftrightarrow> n < 8"
proof -
  have "(255 :: int) = mask 8" by (simp add: mask_eq_exp_minus_1)
  then show ?thesis by (simp only: bit_mask_iff possible_bit_int) simp
qed

lemma ucast_and_255: "ucast ((v :: 'a::len word) AND 255) = (ucast v :: byte)"
  by (rule bit_eqI) (auto simp: bit_and_iff bit_ucast_iff bit_255 dest: bit_imp_le_length)

lemma small_take_bit: "v < 128 \<Longrightarrow> 8 \<le> LENGTH('a) \<Longrightarrow> take_bit 7 v = (v :: 'a::len word)"
proof -
  assume "v < 128" "8 \<le> LENGTH('a)"
  moreover from this have "unat (128 :: 'a word) = 128"
    using power_increasing [of 8 "LENGTH('a)" "2::nat"] by (simp add: unat_numeral take_bit_eq_mod)
  ultimately have "unat v < 2 ^ 7" by (simp add: word_less_nat_alt)
  then have "unat (take_bit 7 v) = unat v" by (simp only: unsigned_take_bit_eq take_bit_nat_eq_self)
  then show ?thesis by (simp only: word_unat_eq_iff)
qed

lemma small_byte:
  "v < 128 \<Longrightarrow> 8 \<le> LENGTH('a) \<Longrightarrow> (ucast (ucast v :: byte) :: 'a::len word) = v"
proof -
  assume v: "v < 128" "8 \<le> LENGTH('a)"
  have "take_bit 8 (take_bit 7 v) = take_bit 7 v" by simp
  with v show ?thesis by (simp only: ucast_byte small_take_bit)
qed

lemma small_high: "v < 128 \<Longrightarrow> 8 \<le> LENGTH('a) \<Longrightarrow> (v :: 'a::len word) AND 128 = 0"
proof -
  assume "v < 128" "8 \<le> LENGTH('a)"
  then have "v AND 128 = take_bit 7 v AND 128" by (simp add: small_take_bit)
  also have "\<dots> = 0" by (rule bit_eqI) (auto simp: bit_and_iff bit_take_bit_iff bit_128)
  finally show ?thesis .
qed

lemma EncodeVarint64_small: "v < 128 \<Longrightarrow> EncodeVarint64 v = [ucast v]"
  by (subst EncodeVarint64.simps) (simp add: not_less [symmetric])

lemma EncodeVarint64_big:
  "128 \<le> v \<Longrightarrow> EncodeVarint64 v = ucast ((v AND 127) OR 128) # EncodeVarint64 (drop_bit 7 v)"
  by (subst EncodeVarint64.simps) simp

lemma GetVarint64Ptr_loop_Encode:
  "unat v < 2 ^ (64 - s) \<Longrightarrow> s \<le> 63 \<Longrightarrow>
   GetVarint64Ptr_loop s r (EncodeVarint64 v @ rest) = Some (r OR push_bit s v, rest)"
proof (induction v arbitrary: s r rule: EncodeVarint64.induct)
  case (1 v)
  show ?case
  proof (cases "v \<ge> 128")
    case True
    then have "(2::nat) ^ 7 < 2 ^ (64 - s)" using "1.prems"(1) by (simp add: word_le_nat_alt)
    then have "7 < 64 - s" by (simp only: power_strict_increasing_iff) 
    then have s: "s + 7 \<le> 63" and k: "64 - s = (64 - (s + 7)) + 7" by simp_all
    have "unat (drop_bit 7 v) < 2 ^ (64 - (s + 7))"
      using "1.prems"(1) unfolding k power_add unat_drop_bit_eq
      by (simp add: drop_bit_eq_div less_mult_imp_div_less)
    with s have IH: "GetVarint64Ptr_loop (s + 7) r' (EncodeVarint64 (drop_bit 7 v) @ rest) = Some (r' OR push_bit (s + 7) (drop_bit 7 v), rest)" for r'
      using "1.IH" True by blast
    from True show ?thesis
      using s IH word_join_shifted [of s 7 v]
      by (simp add: EncodeVarint64_big Let_def varint64_byte or.assoc)
  next
    case False
    then show ?thesis using "1.prems"(2)
      by (simp add: EncodeVarint64_small Let_def small_byte small_high not_le)
  qed
qed

lemma unat_bound: "unat (v :: 'a::len word) < 2 ^ LENGTH('a)"
  by (rule unsigned_less)

lemma GetVarint64_Encode: "GetVarint64 (EncodeVarint64 v @ rest) = Some (v, rest)"
  using GetVarint64Ptr_loop_Encode [of v 0 0 rest] unat_bound [of v]
  by (simp add: GetVarint64_def GetVarint64Ptr_def)

lemma EncodeVarint32_small: "v < 128 \<Longrightarrow> EncodeVarint32 v = [ucast v]"
  by (simp add: EncodeVarint32_def)


lemma drop_bit_7_less_iff:
  "drop_bit 7 v < (2 :: u32) ^ 7 \<longleftrightarrow> v < 2 ^ 14"
  "drop_bit 7 v < (2 :: u32) ^ 14 \<longleftrightarrow> v < 2 ^ 21"
  "drop_bit 7 v < (2 :: u32) ^ 21 \<longleftrightarrow> v < 2 ^ 28"
  by (simp_all only: word_less_nat_alt unat_drop_bit_eq) (simp_all add: drop_bit_eq_div div_less_iff_less_mult)

lemma EncodeVarint32_big:
  assumes "128 \<le> v"
  shows "EncodeVarint32 v = ucast (v OR 128) # EncodeVarint32 (drop_bit 7 v)"
proof -
  have "unat (drop_bit 7 v) < 2 ^ 25"
    using unat_bound [of v]
    by (simp only: unat_drop_bit_eq) (simp add: drop_bit_eq_div)
  then have "drop_bit 7 v < 2 ^ 28" by (simp only: word_less_nat_alt) simp
  then show ?thesis using assms
    using drop_bit_7_less_iff [of v]
    by (auto simp: EncodeVarint32_def not_less [symmetric])
qed

lemma drop_bit_7_less_u32: "128 \<le> v \<Longrightarrow> unat (drop_bit 7 v) < unat (v :: u32)"
  by (simp only: unat_drop_bit_eq word_le_nat_alt) (simp add: drop_bit_eq_div)

lemma GetVarint32PtrFallback_loop_Encode:
  "unat v < 2 ^ (32 - s) \<Longrightarrow> s \<le> 28 \<Longrightarrow> 7 dvd s \<Longrightarrow>
   GetVarint32PtrFallback_loop s r (EncodeVarint32 v @ rest) = Some (r OR push_bit s v, rest)"
proof (induction "unat v" arbitrary: v s r rule: less_induct)
  case less
  show ?case
  proof (cases "v \<ge> 128")
    case True
    then have "(2::nat) ^ 7 < 2 ^ (32 - s)" using less.prems(1) by (simp add: word_le_nat_alt)
    then have "7 < 32 - s" by (simp only: power_strict_increasing_iff) 
    then have k: "32 - s = (32 - (s + 7)) + 7" and s: "s + 7 \<le> 28" "7 dvd s + 7"
      using less.prems(3) by presburger+
    have "unat (drop_bit 7 v) < 2 ^ (32 - (s + 7))"
      using less.prems(1) unfolding k power_add unat_drop_bit_eq
      by (simp add: drop_bit_eq_div less_mult_imp_div_less)
    then have IH: "GetVarint32PtrFallback_loop (s + 7) r' (EncodeVarint32 (drop_bit 7 v) @ rest) =
        Some (r' OR push_bit (s + 7) (drop_bit 7 v), rest)" for r'
      using less.hyps [OF drop_bit_7_less_u32 [OF True]] s by blast
    from True show ?thesis
      using s IH word_join_shifted [of s 7 v]
      by (simp add: EncodeVarint32_big Let_def varint_byte or.assoc)
  next
    case False
    then show ?thesis using less.prems(2)
      by (simp add: EncodeVarint32_small Let_def small_byte small_high not_le)
  qed
qed

lemma GetVarint32Ptr_eq_Fallback: "GetVarint32Ptr p = GetVarint32PtrFallback p"
  by (auto simp: GetVarint32Ptr_def GetVarint32PtrFallback_def Let_def split: list.split)

lemma GetVarint32_Encode: "GetVarint32 (EncodeVarint32 v @ rest) = Some (v, rest)"
  using GetVarint32PtrFallback_loop_Encode [of v 0 0 rest] unat_bound [of v]
  by (simp add: GetVarint32_def GetVarint32Ptr_eq_Fallback GetVarint32PtrFallback_def)

lemma GetVarint32PtrFallback_loop_stable:
  "GetVarint32PtrFallback_loop s r p = Some (x, q) \<Longrightarrow> GetVarint32PtrFallback_loop s r (p @ t) = Some (x, q @ t)"
  by (induction s r p rule: GetVarint32PtrFallback_loop.induct) (auto simp: Let_def split: if_splits)

lemma GetVarint64Ptr_loop_stable:
  "GetVarint64Ptr_loop s r p = Some (x, q) \<Longrightarrow> GetVarint64Ptr_loop s r (p @ t) = Some (x, q @ t)"
  by (induction s r p rule: GetVarint64Ptr_loop.induct) (auto simp: Let_def split: if_splits)

lemma GetVarint32_stable: "GetVarint32 p = Some (x, q) \<Longrightarrow> GetVarint32 (p @ t) = Some (x, q @ t)"
  by (auto simp: GetVarint32_def GetVarint32Ptr_eq_Fallback GetVarint32PtrFallback_def
      GetVarint32PtrFallback_loop_stable split: option.splits)

lemma GetVarint64_stable: "GetVarint64 p = Some (x, q) \<Longrightarrow> GetVarint64 (p @ t) = Some (x, q @ t)"
  by (auto simp: GetVarint64_def GetVarint64Ptr_def GetVarint64Ptr_loop_stable split: option.splits)

lemma GetLengthPrefixedSlice_Put:
  "length value < 2 ^ 32 \<Longrightarrow>
   GetLengthPrefixedSlice (PutLengthPrefixedSlice [] value @ rest) = Some (value, rest)"
  by (simp add: GetLengthPrefixedSlice_def PutLengthPrefixedSlice_def PutVarint32_def GetVarint32_Encode
      unat_of_nat)

lemma GetLengthPrefixedSlice_stable:
  "GetLengthPrefixedSlice p = Some (x, q) \<Longrightarrow> GetLengthPrefixedSlice (p @ t) = Some (x, q @ t)"
  by (auto simp: GetLengthPrefixedSlice_def dest: GetVarint32_stable [where t = t] split: option.splits if_splits)

interpretation varint32: codec EncodeVarint32 GetVarint32 "\<lambda>_. True"
  by unfold_locales (auto simp: GetVarint32_Encode GetVarint32_stable)

interpretation varint64: codec EncodeVarint64 GetVarint64 "\<lambda>_. True"
  by unfold_locales (auto simp: GetVarint64_Encode GetVarint64_stable)

interpretation prefixed: codec "PutLengthPrefixedSlice []" GetLengthPrefixedSlice "\<lambda>v. length v < 2 ^ 32"
  by unfold_locales (auto simp only: GetLengthPrefixedSlice_Put GetLengthPrefixedSlice_stable)


lemma VarintLength_loop_eq: "Suc (VarintLength_loop v n) = n + length (EncodeVarint64 v)"
proof (induction v n rule: VarintLength_loop.induct)
  case (1 v n)
  show ?case
  proof (cases "v \<ge> 128")
    case True
    then have "VarintLength_loop v n = VarintLength_loop (drop_bit 7 v) (Suc n)"
      by (subst VarintLength_loop.simps) simp
    with True "1.IH" show ?thesis by (simp only: EncodeVarint64_big) simp
  next
    case False
    then have "VarintLength_loop v n = n"
      by (subst VarintLength_loop.simps) simp
    with False show ?thesis by (simp add: EncodeVarint64_small not_le)
  qed
qed

lemma VarintLength_eq: "VarintLength v = length (EncodeVarint64 v)"
  using VarintLength_loop_eq [of v 1] by (simp add: VarintLength_def)

lemma ucast_drop_bit_7: "drop_bit 7 (ucast (v :: u32) :: u64) = ucast (drop_bit 7 v)"
  by (rule bit_eqI) (auto simp: bit_drop_bit_eq bit_ucast_iff dest: bit_imp_le_length)

lemma ucast_varint_byte:
  "(ucast (((ucast (v :: u32) :: u64) AND 127) OR 128) :: byte) = ucast (v OR 128)"
  by (rule bit_eqI) (auto simp: bit_and_iff bit_or_iff bit_ucast_iff bit_127 bit_128)

lemma ucast_le_128: "128 \<le> (ucast (v :: u32) :: u64) \<longleftrightarrow> 128 \<le> v"
  using unat_bound [of v] by (simp add: word_le_nat_alt unsigned_ucast_eq take_bit_nat_eq_self)

lemma EncodeVarint32_eq_64: "EncodeVarint32 v = EncodeVarint64 (ucast v)"
proof (induction "unat v" arbitrary: v rule: less_induct)
  case less
  show ?case
  proof (cases "128 \<le> v")
    case True
    with less.hyps [OF drop_bit_7_less_u32] show ?thesis
      by (simp add: EncodeVarint32_big EncodeVarint64_big ucast_le_128 ucast_varint_byte ucast_drop_bit_7)
  next
    case False
    then have "v < 128" "(ucast v :: u64) < 128"
      using ucast_le_128 [of v] not_le by blast+
    moreover have "(ucast (ucast v :: u64) :: byte) = ucast v"
      by (rule bit_eqI) (auto simp: bit_ucast_iff)
    ultimately show ?thesis by (simp add: EncodeVarint32_small EncodeVarint64_small)
  qed
qed

lemma length_EncodeVarint32: "1 \<le> length (EncodeVarint32 v) \<and> length (EncodeVarint32 v) \<le> 5"
  by (simp add: EncodeVarint32_def)

lemma length_EncodeVarint64_bound:
  "unat v < 2 ^ (7 * Suc k) \<Longrightarrow> length (EncodeVarint64 v) \<le> Suc k"
proof (induction k arbitrary: v)
  case 0
  then show ?case by (simp add: EncodeVarint64_small word_less_nat_alt)
next
  case (Suc k)
  show ?case
  proof (cases "128 \<le> v")
    case True
    have "7 * Suc (Suc k) = 7 * Suc k + 7" by simp
    then have "unat (drop_bit 7 v) < 2 ^ (7 * Suc k)"
      using Suc.prems unfolding unat_drop_bit_eq power_add
      by (simp only: drop_bit_eq_div power_add less_mult_imp_div_less)
    with Suc.IH True show ?thesis by (simp add: EncodeVarint64_big)
  next
    case False
    then show ?thesis by (simp add: EncodeVarint64_small not_le)
  qed
qed

lemma length_EncodeVarint64: "1 \<le> length (EncodeVarint64 v) \<and> length (EncodeVarint64 v) \<le> 10"
proof
  have "unat v < 2 ^ (7 * Suc 9)"
    using unat_bound [of v] by (simp add: less_trans)
  then show "length (EncodeVarint64 v) \<le> 10"
    using length_EncodeVarint64_bound [of v 9] by simp
next
  show "1 \<le> length (EncodeVarint64 v)" by (subst EncodeVarint64.simps) simp
qed

lemma length_le_bytes [codec_simps]: "length (le_bytes32 v) = 4" "length (le_bytes64 w) = 8"
  by (simp_all add: le_bytes32_def le_bytes64_def)

lemma memcpy_from_twice [simp]: "memcpy_from P (memcpy_from P b) = b"
  by (simp add: memcpy_from_def)

lemma length_memcpy_from [codec_simps]: "length (memcpy_from P b) = length b"
  by (simp add: memcpy_from_def)

lemma EncodeFixed32_bytes:
  "EncodeFixed32 P v = (if FLAGS_is_little_endian P then memcpy_from P (le_bytes32 v) else le_bytes32 v)"
  by (simp add: EncodeFixed32_def le_bytes32_def ucast_and_255)

lemma EncodeFixed64_bytes:
  "EncodeFixed64 P v = (if FLAGS_is_little_endian P then memcpy_from P (le_bytes64 v) else le_bytes64 v)"
  by (simp add: EncodeFixed64_def le_bytes64_def ucast_and_255)

lemma length_EncodeFixed [codec_simps]: "length (EncodeFixed32 P v) = 4" "length (EncodeFixed64 P w) = 8"
  by (simp_all add: EncodeFixed32_bytes EncodeFixed64_bytes codec_simps)

lemma DecodeFixed32_word:
  "4 \<le> length p \<Longrightarrow> DecodeFixed32 P p =
     Ret (le_word32 (if FLAGS_is_little_endian P then memcpy_from P (take 4 p) else take 4 p))"
  by (simp add: DecodeFixed32_def le_word32_def)

lemma DecodeFixed32_Encode: "DecodeFixed32 P (EncodeFixed32 P v @ rest) = Ret v"
  by (simp add: DecodeFixed32_word EncodeFixed32_bytes codec_simps le_word32_bytes)


lemma ucast_push_byte:
  "n \<le> 24 \<Longrightarrow> (ucast (push_bit n (ucast (b :: byte) :: u32)) :: u64) = push_bit n (ucast b)"
  by (rule bit_eqI) (auto simp: bit_push_bit_iff bit_ucast_iff dest: bit_imp_le_length)

lemma ucast_ucast_byte: "(ucast (ucast (b :: byte) :: u32) :: u64) = ucast b"
  by (rule bit_eqI) (auto simp: bit_ucast_iff dest: bit_imp_le_length)

lemma le_word64_halves:
  assumes "length b = 8"
  shows "push_bit 32 (ucast (le_word32 (drop 4 b))) OR ucast (le_word32 b) = le_word64 b"
proof -
  have "le_word32 (drop 4 b) = ucast (b ! 4) OR push_bit 8 (ucast (b ! 5)) OR push_bit 16 (ucast (b ! 6)) OR push_bit 24 (ucast (b ! 7))"
    using assms by (simp add: le_word32_def)
  then show ?thesis
    unfolding le_word32_def le_word64_def
    by (simp only: unsigned_or_eq ucast_push_byte ucast_ucast_byte push_bit_or push_bit_push_bit
        or.assoc or.commute or.left_commute arith_simps numeral_le_iff rel_simps)
qed

lemma DecodeFixed64_word:
  assumes "8 \<le> length p"
  shows "DecodeFixed64 P p =
     Ret (le_word64 (if FLAGS_is_little_endian P then memcpy_from P (take 8 p) else take 8 p))"
proof (cases "FLAGS_is_little_endian P")
  case False
  have "le_word32 (take 4 p) = le_word32 (take 8 p)"
    "le_word32 (take 4 (drop 4 p)) = le_word32 (drop 4 (take 8 p))"
    using assms by (simp_all add: le_word32_def)
  with False assms show ?thesis
    by (simp add: DecodeFixed64_def DecodeFixed32_word le_word64_halves)
next
  case True
  with assms show ?thesis by (simp add: DecodeFixed64_def)
qed

lemma DecodeFixed64_Encode: "DecodeFixed64 P (EncodeFixed64 P v @ rest) = Ret v"
  by (simp add: DecodeFixed64_word EncodeFixed64_bytes codec_simps le_word64_bytes)

lemma EncodeFixed_default:
  "EncodeFixed32 (default_platform host) v = le_bytes32 v"
  "EncodeFixed64 (default_platform host) w = le_bytes64 w"
  by (simp_all add: EncodeFixed32_bytes EncodeFixed64_bytes default_platform_def memcpy_from_def)

subsection \<open>Properties\<close>

text \<open>
  A fixed-width integer that was appended to a string is read back unchanged from the
  place where it was appended, on every platform and for either value of the endianness flag.
\<close>

lemma fixed_roundtrip:
  "DecodeFixed32 P (drop (length dst) (PutFixed32 P dst v @ rest)) = Ret v \<and>
   DecodeFixed64 P (drop (length dst) (PutFixed64 P dst w @ rest)) = Ret w"
  by (simp add: PutFixed32_def PutFixed64_def DecodeFixed32_Encode DecodeFixed64_Encode)


text \<open>
  With the flag as the build sets it, the bytes are the little-endian ones on every host,
  as the header of coding.h documents.  The flag is a command-line variable: set to true on a
  big-endian host it reverses the format, so such a process cannot share files with another.
\<close>

lemma fixed_little_endian:
  "EncodeFixed32 (default_platform host) v = le_bytes32 v \<and>
   EncodeFixed64 (default_platform host) w = le_bytes64 w \<and>
   EncodeFixed32 \<lparr>host_little = False, FLAGS_is_little_endian = True\<rparr> v = rev (le_bytes32 v)"
  by (simp add: EncodeFixed_default) (simp add: EncodeFixed32_bytes memcpy_from_def)

text \<open>
  A varint that was appended to a string is read back from there, for every value, and the
  reader stops exactly behind it.
\<close>

lemma varint_roundtrip:
  "GetVarint32 (drop (length dst) (PutVarint32 dst v @ rest)) = Some (v, rest) \<and>
   GetVarint64 (drop (length dst) (PutVarint64 dst w @ rest)) = Some (w, rest)"
  by (simp add: PutVarint32_def PutVarint64_def varint32.dec_enc varint64.dec_enc)

text \<open>
  C33. The unrolled 32-bit encoder writes what the 64-bit loop writes, \<^verbatim>\<open>VarintLength\<close> is the
  number of bytes written, and the inlined fast path of the 32-bit reader agrees with the
  general loop.
\<close>

theorem varint_unrolled_equiv:
  "EncodeVarint32 v = EncodeVarint64 (ucast v) \<and>
   VarintLength (ucast v) = length (EncodeVarint32 v) \<and>
   VarintLength w = length (EncodeVarint64 w) \<and>
   GetVarint32Ptr p = GetVarint32PtrFallback p"
  by (simp add: EncodeVarint32_eq_64 VarintLength_eq GetVarint32Ptr_eq_Fallback)

text \<open>
  The stack buffers of \<^verbatim>\<open>PutVarint32\<close> (5 bytes) and \<^verbatim>\<open>PutVarint64\<close> (10 bytes) are
  large enough for every value.
\<close>

lemma varint_buffers_suffice:
  "length (PutVarint32 dst v) \<le> length dst + 5 \<and> length (PutVarint64 dst w) \<le> length dst + 10 \<and>
   length dst < length (PutVarint32 dst v) \<and> length dst < length (PutVarint64 dst w)"
  using length_EncodeVarint32 [of v] length_EncodeVarint64 [of w]
  by (auto simp: PutVarint32_def PutVarint64_def)

text \<open>
  A length-prefixed string shorter than 4 GiB is read back from where it was appended,
  and every cut-off copy of its encoding is rejected.
\<close>

lemma prefixed_roundtrip:
  assumes "length value < 2 ^ 32"
  shows "GetLengthPrefixedSlice (drop (length dst) (PutLengthPrefixedSlice dst value @ rest)) = Some (value, rest) \<and>
    (\<forall>p q. PutLengthPrefixedSlice [] value = p @ q \<longrightarrow> q \<noteq> [] \<longrightarrow> GetLengthPrefixedSlice p = None)"
proof -
  have "PutLengthPrefixedSlice dst value = dst @ PutLengthPrefixedSlice [] value"
    by (simp add: PutLengthPrefixedSlice_def PutVarint32_def)
  then show ?thesis
    using prefixed.dec_enc [OF assms] prefixed.dec_truncated [OF assms] by simp
qed

lemma prefixed_example: "PutLengthPrefixedSlice [] [7, 8] = [2, 7] @ [8]"
  by (simp add: PutLengthPrefixedSlice_def PutVarint32_def EncodeVarint32_def)

lemma prefixed_roundtrip_example:
  "GetLengthPrefixedSlice (drop (length [1 :: byte]) (PutLengthPrefixedSlice [1] [7, 8] @ [9])) = Some ([7, 8], [9]) \<and>
   GetLengthPrefixedSlice [2, 7] = None"
proof -
  have "length [7, 8 :: byte] < 2 ^ 32" by simp
  from prefixed_roundtrip [OF this, of "[1]" "[9]"] prefixed_example
  show ?thesis by blast
qed

lemma GetVarint32PtrFallback_loop_suffix:
  "GetVarint32PtrFallback_loop s r p = Some (x, q) \<Longrightarrow> \<exists>b pre. p = b # pre @ q"
proof (induction s r p rule: GetVarint32PtrFallback_loop.induct)
  case (2 s r b p)
  then show ?case by (fastforce simp: Let_def split: if_splits)
qed simp

lemma GetVarint32_suffix: "GetVarint32 p = Some (x, q) \<Longrightarrow> \<exists>b pre. p = b # pre @ q"
  by (auto simp: GetVarint32_def GetVarint32Ptr_eq_Fallback GetVarint32PtrFallback_def
      dest: GetVarint32PtrFallback_loop_suffix split: option.splits)

lemma GetLengthPrefixedSlice_suffix:
  assumes "GetLengthPrefixedSlice p = Some (d, r)"
  shows "\<exists>b pre. p = b # pre @ d @ r"
proof -
  from assms obtain len q where q: "GetVarint32 p = Some (len, q)" and "d @ r = q"
    by (auto simp: GetLengthPrefixedSlice_def split: option.splits if_splits)
  with GetVarint32_suffix [OF q] show ?thesis by auto
qed

text \<open>
  The two readers of length-prefixed strings, the one over a pair of pointers and the one
  that advances a \<^verbatim>\<open>Slice\<close>, accept the same inputs and return the same string and rest; what
  they consume is at least the one byte of the prefix, and the rest is a suffix of the input.
\<close>

lemma prefixed_readers_agree:
  "GetLengthPrefixedSlicePtr p = GetLengthPrefixedSlice p \<and>
   (\<forall>d r. GetLengthPrefixedSlice p = Some (d, r) \<longrightarrow> (\<exists>b pre. p = b # pre @ d @ r))"
proof
  show "GetLengthPrefixedSlicePtr p = GetLengthPrefixedSlice p"
    by (auto simp: GetLengthPrefixedSlicePtr_def GetLengthPrefixedSlice_def GetVarint32_def not_le
        split: option.split)
qed (auto dest: GetLengthPrefixedSlice_suffix)

lemma prefixed_readers_agree_example:
  "\<exists>b pre. [2, 7, 8, 9 :: byte] = b # pre @ [7, 8] @ [9]"
proof -
  have "GetLengthPrefixedSlice [2, 7, 8, 9] = Some ([7, 8], [9])"
    by (simp add: GetLengthPrefixedSlice_def GetVarint32_def GetVarint32Ptr_def)
  with prefixed_readers_agree [of "[2, 7, 8, 9]"] show ?thesis by blast
qed

end
