(* ===== verification/Rpc.thy ===== *)
theory Rpc
  imports Runtime Coding
begin

section \<open>Messages between the nodes\<close>

text \<open>
  src/rpc/cluster.cc, src/rpc/peer.cc, src/rpc/raft_client.h and src/raft_service.cc.

  The raft state machine is the library yaraft and is not part of the repository: the record
  \<open>yaraft\<close> below holds the functions of it that the code calls, on an abstract node.  The RPC
  library is not part of it either; sending a request is an event of the network.
\<close>

subsection \<open>What the code uses of yaraft\<close>

text \<open>The error codes the code names, and all others.\<close>

datatype yaraft_code = YaraftOK | StepLocalMsg | StepPeerNotFound | OtherCode nat

text \<open>The fields of \<^verbatim>\<open>yaraft::Ready\<close> that are read.\<close>

record ('msg, 'e, 'h) Ready =
  currentLeader :: u64
  messages :: "'msg list"
  hardState :: "'h option"
  rd_entries :: "'e list"

record 'm Config =
  conf_electionTick :: u32
  conf_heartbeatTick :: u32
  conf_id :: u64
  conf_storage :: 'm
  conf_peers :: "u64 list"

record ('n, 'msg, 'e, 'h, 'm) yaraft =
  RawNode :: "'m Config \<Rightarrow> 'n"
  node_Id :: "'n \<Rightarrow> u64"
  IsLeader :: "'n \<Rightarrow> bool"
  LeaderHint :: "'n \<Rightarrow> u64"
  LastIndex :: "'n \<Rightarrow> u64"
  CurrentTerm :: "'n \<Rightarrow> u64"
  Tick :: "'n \<Rightarrow> 'n"
  Step :: "'msg \<Rightarrow> 'n \<Rightarrow> yaraft_code \<times> 'n"
  Propose :: "bytes \<Rightarrow> 'n \<Rightarrow> yaraft_code \<times> 'n"
  node_GetReady :: "'n \<Rightarrow> ('msg, 'e, 'h) Ready option \<times> 'n"
  Advance :: "('msg, 'e, 'h) Ready \<Rightarrow> 'm \<Rightarrow> 'm"
  msg_to :: "'msg \<Rightarrow> u64"
  has_commit :: "'h \<Rightarrow> bool"
  hs_commit :: "'h \<Rightarrow> u64"

subsection \<open>AsyncRaftClient\<close>

text \<open>
  A request that has been sent: the controller and the response belong to the call until the
  completion callback.  The settings are those of the channel and of the controller.
\<close>

record AsyncRaftClient =
  cl_url :: string
  cl_max_retry :: nat
  cl_connect_timeout_ms :: nat

definition new_AsyncRaftClient :: "string \<Rightarrow> AsyncRaftClient" where
  "new_AsyncRaftClient url = \<lparr>cl_url = url, cl_max_retry = 0, cl_connect_timeout_ms = 2000\<rparr>"

record 'msg call =
  call_url :: string
  call_timeout_ms :: nat
  call_message :: 'msg
  call_controller :: nat
  call_response :: nat

text \<open>The network: calls under way, and the heap objects of the calls that are alive.\<close>

record 'msg network =
  net_calls :: "'msg call list"
  net_next :: nat
  net_live :: "nat set"

definition new_network :: "'msg network" where
  "new_network = \<lparr>net_calls = [], net_next = 0, net_live = {}\<rparr>"

definition client_Step :: "AsyncRaftClient \<Rightarrow> 'msg \<Rightarrow> 'msg network \<Rightarrow> 'msg network" where
  "client_Step c msg net =
     (let cntl = net_next net; response = net_next net + 1 in
      net\<lparr>net_calls := net_calls net @
            [\<lparr>call_url = cl_url c, call_timeout_ms = 3000, call_message = msg,
              call_controller = cntl, call_response = response\<rparr>],
          net_next := net_next net + 2,
          net_live := net_live net \<union> {cntl, response}\<rparr>)"

definition doneCallBack :: "bool \<Rightarrow> nat \<Rightarrow> nat \<Rightarrow> 'msg network \<Rightarrow> 'msg network" where
  "doneCallBack failed response cntl net =
     (let net = (if failed then net else net\<lparr>net_live := net_live net - {response}\<rparr>)
      in net\<lparr>net_live := net_live net - {cntl}\<rparr>)"

subsection \<open>PeerManager and Cluster\<close>

text \<open>A peer owns its client; the map is in the order of its keys.\<close>

type_synonym Peer = AsyncRaftClient
type_synonym PeerManager = "(u64 \<times> Peer) list"

definition AsyncSend :: "Peer \<Rightarrow> 'msg \<Rightarrow> 'msg network \<Rightarrow> 'msg network" where
  "AsyncSend p msg net = client_Step p msg net"

fun PeerManager_Pass :: "('msg \<Rightarrow> u64) \<Rightarrow> PeerManager \<Rightarrow> 'msg list \<Rightarrow> 'msg network \<Rightarrow> (ErrorCodes \<times> 'msg network) outcome" where
  "PeerManager_Pass to peerMap [] net = Ret (OK, net)"
| "PeerManager_Pass to peerMap (m # mails) net =
     (if to m = 0 then Fatal
      else case map_of peerMap (to m) of
        None \<Rightarrow> Fatal
      | Some p \<Rightarrow> PeerManager_Pass to peerMap mails (AsyncSend p m net))"

definition Cluster_Default :: "(u64 \<times> string) list \<Rightarrow> PeerManager" where
  "Cluster_Default initialCluster =
     fold (\<lambda>(i, url) peerMap. map_assign i (new_AsyncRaftClient url) peerMap) initialCluster []"

text \<open>Deleting the peers: the pointers of the map, one after the other, behind the iterator.\<close>

fun STLDeleteContainerPairSecondPointers :: "('k \<times> nat) list \<Rightarrow> nat set \<Rightarrow> nat set outcome" where
  "STLDeleteContainerPairSecondPointers [] live = Ret live"
| "STLDeleteContainerPairSecondPointers ((k, p) # r) live =
     (if p \<in> live then STLDeleteContainerPairSecondPointers r (live - {p}) else Undef UseAfterFree)"

lemma delete_pairs_spec:
  "STLDeleteContainerPairSecondPointers m live =
     (if distinct (map snd m) \<and> set (map snd m) \<subseteq> live then Ret (live - set (map snd m)) else Undef UseAfterFree)"
  by (induction m live rule: STLDeleteContainerPairSecondPointers.induct) auto

subsubsection \<open>Delivery\<close>

lemma Cluster_Default_lookup:
  "map_of (fold (\<lambda>(i, url) peerMap. map_assign i (new_AsyncRaftClient url) peerMap) cs acc) =
   map_of acc ++ (map_option new_AsyncRaftClient \<circ> map_of (rev cs))"
  by (induction cs arbitrary: acc) (auto simp: fun_eq_iff map_add_def split: option.split)

lemma map_of_rev_distinct: "distinct (map fst m) \<Longrightarrow> map_of (rev m) = map_of m"
  by (rule map_of_eqI) (auto simp: rev_map [symmetric] map_of_eq_Some_iff)

lemma Cluster_Default_peers:
  "distinct (map fst cs) \<Longrightarrow> map_of (Cluster_Default cs) i = map_option new_AsyncRaftClient (map_of cs i)"
  unfolding Cluster_Default_def Cluster_Default_lookup by (simp add: map_of_rev_distinct map_add_def split: option.split)

definition sent_to :: "'msg call \<Rightarrow> string \<times> 'msg" where
  "sent_to c = (call_url c, call_message c)"

lemma Pass_spec:
  "PeerManager_Pass to peers mails net =
     (if \<forall>m \<in> set mails. to m \<noteq> 0 \<and> map_of peers (to m) \<noteq> None
      then Ret (OK, fold (\<lambda>m. AsyncSend (the (map_of peers (to m))) m) mails net)
      else Fatal)"
  by (induction mails arbitrary: net) (auto split: option.split)

lemma fold_AsyncSend_calls:
  "map sent_to (net_calls (fold (\<lambda>m. AsyncSend (f m) m) mails net)) =
   map sent_to (net_calls net) @ map (\<lambda>m. (cl_url (f m), m)) mails"
  by (induction mails arbitrary: net) (simp_all add: AsyncSend_def client_Step_def Let_def sent_to_def)

lemma Pass_Cluster_Default:
  assumes "distinct (map fst cs)" "\<forall>m \<in> set mails. to m \<noteq> 0 \<and> to m \<in> fst ` set cs"
  shows "\<exists>net'. PeerManager_Pass to (Cluster_Default cs) mails net = Ret (OK, net') \<and>
    map sent_to (net_calls net') = map sent_to (net_calls net) @ map (\<lambda>m. (the (map_of cs (to m)), m)) mails"
proof -
  have P: "\<exists>u. map_of cs (to m) = Some u \<and> map_of (Cluster_Default cs) (to m) = Some (new_AsyncRaftClient u)" if "m \<in> set mails" for m
  proof -
    have "to m \<in> fst ` set cs" using assms(2) that by blast
    then have "map_of cs (to m) \<noteq> None" by (simp only: map_of_eq_None_iff) simp
    then obtain u where "map_of cs (to m) = Some u" by blast
    then show ?thesis by (simp add: Cluster_Default_peers [OF assms(1)])
  qed
  have urls: "map (\<lambda>m. (cl_url (the (map_of (Cluster_Default cs) (to m))), m)) mails = map (\<lambda>m. (the (map_of cs (to m)), m)) mails"
  proof (rule map_cong [OF refl])
    fix m assume "m \<in> set mails"
    from P [OF this] show "(cl_url (the (map_of (Cluster_Default cs) (to m))), m) = (the (map_of cs (to m)), m)"
      by (auto simp: new_AsyncRaftClient_def)
  qed
  have known: "\<forall>m \<in> set mails. to m \<noteq> 0 \<and> map_of (Cluster_Default cs) (to m) \<noteq> None"
  proof
    fix m assume "m \<in> set mails"
    with P [OF this] assms(2) show "to m \<noteq> 0 \<and> map_of (Cluster_Default cs) (to m) \<noteq> None" by auto
  qed
  show ?thesis unfolding Pass_spec if_P [OF known]
    by (intro exI [of _ "fold (\<lambda>m. AsyncSend (the (map_of (Cluster_Default cs) (to m))) m) mails net"] conjI refl)
      (simp only: fold_AsyncSend_calls urls)
qed

text \<open>
  C39. Messages go to the right peer.  With the cluster made from a configuration of addresses,
  passing a batch of messages that are all for members of it sends every message exactly once, in
  order, each to the address that the configuration gives for its receiver, and answers OK.  A
  batch with a message for node 0 or for a node outside the configuration aborts the process.
\<close>

theorem cluster_delivers:
  assumes "distinct (map fst cs)"
  shows "((\<forall>m \<in> set mails. to m \<noteq> 0 \<and> to m \<in> fst ` set cs) \<longrightarrow>
      (\<exists>net'. PeerManager_Pass to (Cluster_Default cs) mails net = Ret (OK, net') \<and>
        map sent_to (net_calls net') = map sent_to (net_calls net) @ map (\<lambda>m. (the (map_of cs (to m)), m)) mails)) \<and>
    ((\<exists>m \<in> set mails. to m = 0 \<or> to m \<notin> fst ` set cs) \<longrightarrow>
      PeerManager_Pass to (Cluster_Default cs) mails net = Fatal)"
proof -
  have "map_of (Cluster_Default cs) (to m) = None \<longleftrightarrow> to m \<notin> fst ` set cs" for m
    unfolding Cluster_Default_peers [OF assms] by (simp add: map_of_eq_None_iff)
  then have "(\<exists>m \<in> set mails. to m = 0 \<or> to m \<notin> fst ` set cs) \<longrightarrow> PeerManager_Pass to (Cluster_Default cs) mails net = Fatal"
    unfolding Pass_spec by (metis (full_types))
  then show ?thesis by (intro conjI impI) (rule Pass_Cluster_Default [OF assms], assumption, rule mp)
qed

definition example_cluster :: "(u64 \<times> string) list" where
  "example_cluster = [(1, ''127.0.0.1:12321''), (2, ''127.0.0.1:12322'')]"

theorem cluster_delivers_witness:
  "(\<exists>net'. PeerManager_Pass fst (Cluster_Default example_cluster) [(2, ''a''), (1, ''b''), (2, ''c'')] new_network = Ret (OK, net') \<and>
     map sent_to (net_calls net') =
       [(''127.0.0.1:12322'', (2, ''a'')), (''127.0.0.1:12321'', (1, ''b'')), (''127.0.0.1:12322'', (2, ''c''))]) \<and>
   PeerManager_Pass fst (Cluster_Default example_cluster) [(3, ''a'')] new_network = Fatal"
  using cluster_delivers [of example_cluster "[(2, ''a''), (1, ''b''), (2, ''c'')]" fst new_network]
    cluster_delivers [of example_cluster "[(3, ''a'')]" fst new_network]
  by (simp add: example_cluster_def new_network_def)

subsubsection \<open>The objects of a call\<close>

text \<open>The calls complete in any order, each with success or failure.\<close>

definition complete_call :: "'msg call \<times> bool \<Rightarrow> 'msg network \<Rightarrow> 'msg network" where
  "complete_call x = (case x of (c, failed) \<Rightarrow> doneCallBack failed (call_response c) (call_controller c))"

lemma complete_calls_live:
  "net_live (fold complete_call xs net) =
     net_live net - ((\<lambda>x. call_controller (fst x)) ` set xs \<union> (\<lambda>x. call_response (fst x)) ` {x \<in> set xs. \<not> snd x})"
proof (induction xs arbitrary: net)
  case (Cons x xs)
  have "net_live (complete_call x net) =
      net_live net - {call_controller (fst x)} - (if snd x then {} else {call_response (fst x)})"
    by (cases x) (auto simp: complete_call_def doneCallBack_def Let_def)
  moreover have "{y \<in> set (x # xs). \<not> snd y} = (if snd x then {} else {x}) \<union> {y \<in> set xs. \<not> snd y}" by auto
  ultimately show ?case by (simp only: Cons fold_Cons o_apply list.set) auto
qed simp

definition net_ok :: "'msg network \<Rightarrow> bool" where
  "net_ok net =
     ((\<forall>c \<in> set (net_calls net). call_response c < net_next net \<and> call_controller c < net_next net) \<and>
      net_live net = call_controller ` set (net_calls net) \<union> call_response ` set (net_calls net) \<and>
      call_controller ` set (net_calls net) \<inter> call_response ` set (net_calls net) = {} \<and>
      distinct (map call_response (net_calls net)))"

lemma client_Step_ok: "net_ok net \<Longrightarrow> net_ok (client_Step c msg net)"
  by (auto simp: net_ok_def client_Step_def Let_def)

lemma fold_AsyncSend_ok: "net_ok net \<Longrightarrow> net_ok (fold (\<lambda>m. AsyncSend (f m) m) mails net)"
  by (induction mails arbitrary: net) (simp_all add: AsyncSend_def client_Step_ok)

text \<open>
  Memory of the calls.  When every message of a batch has been sent and every call has
  completed, in whatever order and with whatever results, the objects that are left are exactly
  the responses of the calls that failed: a successful call frees both of its objects, a failed
  one leaks its response.
\<close>

lemma failed_calls_leak:
  assumes "PeerManager_Pass to peers mails new_network = Ret (s, net)" "fst ` set xs = set (net_calls net)" "distinct (map fst xs)"
  shows "net_live (fold complete_call xs net) = {call_response c | c. (c, True) \<in> set xs}"
proof -
  have "net_ok (new_network :: 'a network)" by (simp add: net_ok_def new_network_def)
  with assms(1) have ok: "net_ok net" unfolding Pass_spec by (auto split: if_splits intro: fold_AsyncSend_ok)
  have eq: "x = y" if "x \<in> set xs" "y \<in> set xs" "call_response (fst x) = call_response (fst y)" for x y
  proof -
    from ok have "inj_on call_response (set (net_calls net))" by (simp add: net_ok_def distinct_map)
    moreover have "fst x \<in> set (net_calls net)" "fst y \<in> set (net_calls net)"
      unfolding assms(2) [symmetric] using that(1,2) by simp_all
    ultimately have "fst x = fst y" using that(3) by (simp add: inj_on_eq_iff)
    with assms(3) that show ?thesis by (meson distinct_map inj_onD)
  qed
  from ok have live: "net_live net = (\<lambda>x. call_controller (fst x)) ` set xs \<union> (\<lambda>x. call_response (fst x)) ` set xs"
    and dis: "(\<lambda>x. call_controller (fst x)) ` set xs \<inter> (\<lambda>x. call_response (fst x)) ` set xs = {}"
    unfolding net_ok_def assms(2) [symmetric] by (simp_all add: image_image)
  let ?r = "\<lambda>x. call_response (fst x)"
  have "net_live (fold complete_call xs net) = ?r ` set xs - ?r ` {x \<in> set xs. \<not> snd x}"
    unfolding complete_calls_live live using dis by blast
  also have "\<dots> = ?r ` (set xs - {x \<in> set xs. \<not> snd x})"
    by (rule inj_on_image_set_diff [symmetric, OF inj_onI [OF eq]]) auto
  also have "\<dots> = {call_response c | c. (c, True) \<in> set xs}" by force
  finally show ?thesis .
qed

lemma failed_calls_leak_example:
  "\<exists>net. PeerManager_Pass fst (Cluster_Default example_cluster) [(2, ''a''), (1, ''b'')] new_network = Ret (OK, net) \<and>
     net_live (fold complete_call (zip (net_calls net) [True, False]) net) = {1}"
proof -
  let ?c = "\<lambda>i u m. \<lparr>call_url = u, call_timeout_ms = 3000, call_message = m, call_controller = i, call_response = i + 1\<rparr>"
  let ?a = "?c 0 ''127.0.0.1:12322'' (2, ''a'')" and ?b = "?c 2 ''127.0.0.1:12321'' (1, ''b'')"
  let ?net = "\<lparr>net_calls = [?a, ?b], net_next = 4, net_live = {0, 1, 2, 3}\<rparr>"
  have "PeerManager_Pass fst (Cluster_Default example_cluster) [(2, ''a''), (1, ''b'')] new_network = Ret (OK, ?net)"
    by (simp add: Cluster_Default_def example_cluster_def new_AsyncRaftClient_def AsyncSend_def client_Step_def
        new_network_def Let_def) auto
  with failed_calls_leak [OF this, of "zip (net_calls ?net) [True, False]"] show ?thesis
    by (intro exI [of _ ?net]) simp
qed

subsection \<open>RaftServiceImpl\<close>

datatype pb_StatusCode = PbOK | PbStepLocalMsg | PbStepPeerNotFound

fun yaraftErrorCodeToRpcStatusCode :: "yaraft_code \<Rightarrow> pb_StatusCode outcome" where
  "yaraftErrorCodeToRpcStatusCode StepLocalMsg = Ret PbStepLocalMsg"
| "yaraftErrorCodeToRpcStatusCode StepPeerNotFound = Ret PbStepPeerNotFound"
| "yaraftErrorCodeToRpcStatusCode _ = Fatal"

text \<open>
  The handlers submit a task and wait for it.  The state of the task is the node and the response
  that the closure refers to; the caller reads the response behind the barrier and then runs
  \<^verbatim>\<open>done\<close>.
\<close>

definition Step_task :: "('n, 'msg, 'e, 'h, 'm) yaraft \<Rightarrow> 'msg \<Rightarrow> nat \<Rightarrow> ('n \<times> pb_StatusCode) RaftTask" where
  "Step_task Y msg barrier =
     waiting_task barrier (\<lambda>(node, code).
       case Step Y msg node of (s, node) \<Rightarrow>
         if s = YaraftOK then Ret (node, code)
         else bind_outcome (yaraftErrorCodeToRpcStatusCode s) (\<lambda>code. Ret (node, code)))"

definition RaftService_Step :: "('n, 'msg, 'e, 'h, 'm) yaraft \<Rightarrow> 'msg \<Rightarrow> 'n \<Rightarrow> (pb_StatusCode \<times> 'n) outcome" where
  "RaftService_Step Y msg node =
     bind_outcome (task_effect (Step_task Y msg 0) (node, PbOK)) (\<lambda>(node, code). Ret (code, node))"

record StatusResponse =
  sr_leader :: "u64 option"
  sr_raftIndex :: "u64 option"
  sr_raftTerm :: "u64 option"
  sr_raftCommit :: "u64 option"

definition new_StatusResponse :: StatusResponse where
  "new_StatusResponse = \<lparr>sr_leader = None, sr_raftIndex = None, sr_raftTerm = None, sr_raftCommit = None\<rparr>"

definition Status_task :: "('n, 'msg, 'e, 'h, 'm) yaraft \<Rightarrow> nat \<Rightarrow> ('n \<times> StatusResponse) RaftTask" where
  "Status_task Y barrier =
     waiting_task barrier (\<lambda>(node, response).
       Ret (node, response\<lparr>sr_leader := Some (LeaderHint Y node), sr_raftIndex := Some (LastIndex Y node),
                           sr_raftTerm := Some (CurrentTerm Y node)\<rparr>))"

definition RaftService_Status :: "('n, 'msg, 'e, 'h, 'm) yaraft \<Rightarrow> 'n \<Rightarrow> (StatusResponse \<times> 'n) outcome" where
  "RaftService_Status Y node =
     bind_outcome (task_effect (Status_task Y 0) (node, new_StatusResponse)) (\<lambda>(node, r). Ret (r, node))"

text \<open>
  The raft service.  A step is given to the node once.  When the node accepts it or refuses it
  with one of the two codes the protocol knows, the response carries exactly that code; any other
  refusal, although it comes from the message of a peer, aborts the process.  A status request
  leaves the node alone, reports leader, last index and term, and never the commit index.
\<close>

lemma raft_service:
  "Step Y msg node = (s, node') \<Longrightarrow>
     RaftService_Step Y msg node =
       (case s of YaraftOK \<Rightarrow> Ret (PbOK, node') | StepLocalMsg \<Rightarrow> Ret (PbStepLocalMsg, node')
        | StepPeerNotFound \<Rightarrow> Ret (PbStepPeerNotFound, node') | OtherCode n \<Rightarrow> Fatal) \<and>
     RaftService_Status Y node =
       Ret (\<lparr>sr_leader = Some (LeaderHint Y node), sr_raftIndex = Some (LastIndex Y node),
             sr_raftTerm = Some (CurrentTerm Y node), sr_raftCommit = None\<rparr>, node)"
  by (simp add: RaftService_Step_def Step_task_def RaftService_Status_def Status_task_def new_StatusResponse_def
      split: yaraft_code.split)

text \<open>
  A small node for examples: its log of proposals, whether it leads, and the Ready it hands out
  next.
\<close>

record example_node =
  xn_log :: "bytes list"
  xn_leads :: bool
  xn_ready :: "((u64 \<times> string), bytes, nat) Ready option"

definition example_yaraft :: "(example_node, u64 \<times> string, bytes, nat, bytes list) yaraft" where
  "example_yaraft =
     \<lparr>RawNode = (\<lambda>c. \<lparr>xn_log = conf_storage c, xn_leads = False, xn_ready = None\<rparr>),
      node_Id = (\<lambda>n. 1), IsLeader = xn_leads, LeaderHint = (\<lambda>n. if xn_leads n then 1 else 2),
      LastIndex = (\<lambda>n. word_of_nat (length (xn_log n))), CurrentTerm = (\<lambda>n. 7), Tick = (\<lambda>n. n),
      Step = (\<lambda>m n. if fst m = 1 then (YaraftOK, n) else (StepPeerNotFound, n)),
      Propose = (\<lambda>b n. (YaraftOK, n\<lparr>xn_log := xn_log n @ [b]\<rparr>)),
      node_GetReady = (\<lambda>n. (xn_ready n, n\<lparr>xn_ready := None\<rparr>)),
      Advance = (\<lambda>rd m. m @ rd_entries rd), msg_to = fst, has_commit = (\<lambda>h. 0 < h), hs_commit = word_of_nat\<rparr>"

lemma raft_service_example:
  "RaftService_Step example_yaraft (5, ''x'') \<lparr>xn_log = [], xn_leads = True, xn_ready = None\<rparr> =
     Ret (PbStepPeerNotFound, \<lparr>xn_log = [], xn_leads = True, xn_ready = None\<rparr>)"
  using raft_service [of example_yaraft "(5, ''x'')" "\<lparr>xn_log = [], xn_leads = True, xn_ready = None\<rparr>" StepPeerNotFound
      "\<lparr>xn_log = [], xn_leads = True, xn_ready = None\<rparr>"]
  by (simp add: example_yaraft_def)

end
