(* ===== verification/ReplicatedLog.thy ===== *)
theory ReplicatedLog
  imports Rpc "HOL-Library.Product_Lexorder"
begin

section \<open>The replicated log\<close>

text \<open>
  src/wal_commit_observer.cc, src/ready_flusher.cc, src/replicated_log_impl.h and
  src/replicated_log.cc.

  Two threads work on a replicated log: the worker of the executor runs the tasks of clients, of
  the timer and of the raft service; the flusher takes what the node has ready and writes it to
  the log, tells the observer, and sends the messages.  Both are steps of one relation.
\<close>

subsection \<open>WalCommitObserver\<close>

text \<open>
  The ranges wait in the order of a \<^verbatim>\<open>std::map\<close> of pairs, each with the address of the channel
  of its writer.  Channels live in a store of their own.
\<close>

type_synonym WalWritesMap = "((u64 \<times> u64) \<times> nat) list"
type_synonym channels = "nat \<Rightarrow> ErrorCodes SimpleChannel"

definition observer_Register :: "u64 \<times> u64 \<Rightarrow> nat \<Rightarrow> WalWritesMap \<Rightarrow> WalWritesMap" where
  "observer_Register rng channel writes =
     (case map_of writes rng of
        Some _ \<Rightarrow> writes
      | None \<Rightarrow> map_assign rng channel writes)"

definition send_to :: "nat \<Rightarrow> ErrorCodes \<Rightarrow> channels \<Rightarrow> channels outcome" where
  "send_to c s chans = bind_outcome (chan_send s (chans c)) (\<lambda>ch. Ret (chans(c := ch)))"

text \<open>
  The body of the loop answers the writer if its range is committed.  The loop then erases the
  element the iterator stands on and increments that iterator, which the erasure has made invalid.
\<close>

definition Notify_body :: "u64 \<Rightarrow> (u64 \<times> u64) \<times> nat \<Rightarrow> channels \<Rightarrow> channels outcome" where
  "Notify_body commitIndex it chans =
     (case it of ((lo, hi), c) \<Rightarrow> if hi \<le> commitIndex then send_to c OK chans else Ret chans)"

definition observer_Notify :: "u64 \<Rightarrow> WalWritesMap \<Rightarrow> channels \<Rightarrow> (WalWritesMap \<times> channels) outcome" where
  "observer_Notify commitIndex writes chans =
     (case writes of
        [] \<Rightarrow> Ret (writes, chans)
      | it # rest \<Rightarrow> bind_outcome (Notify_body commitIndex it chans) (\<lambda>chans. Undef InvalidIterator))"

lemma observer_Register_lookup:
  "map_of (observer_Register r c writes) =
     (if map_of writes r = None then (map_of writes)(r \<mapsto> c) else map_of writes)"
  by (simp add: observer_Register_def split: option.split)

lemma observer_Register_ok: "map_ok writes \<Longrightarrow> map_ok (observer_Register r c writes)"
  by (simp add: observer_Register_def map_assign_ok split: option.split)

lemma observer_Register_nonempty: "observer_Register r c writes \<noteq> []"
proof -
  have "map_of (observer_Register r c writes) r \<noteq> None" by (simp add: observer_Register_lookup)
  then show ?thesis by (metis map_of.simps(1))
qed

lemma observer_Notify_Ret: "observer_Notify n writes chans = Ret x \<longleftrightarrow> writes = [] \<and> x = ([], chans)"
  by (auto simp: observer_Notify_def split: list.splits prod.splits)

lemma observer_Notify_nonempty: "writes \<noteq> [] \<Longrightarrow> \<exists>u. observer_Notify n writes chans \<in> {Fatal, Undef u}"
  by (auto simp: observer_Notify_def Notify_body_def chan_send_def send_to_def split: list.splits prod.splits)

subsection \<open>ReadyFlusher\<close>

text \<open>
  What the flusher calls of the write-ahead log: \<open>None\<close> when the call does not return.
\<close>

record ('e, 'h, 'w) WriteAheadLog =
  wal_Write :: "'e list \<Rightarrow> 'h option \<Rightarrow> 'w \<Rightarrow> (ErrorCodes \<times> 'w) outcome option"

text \<open>The parts of \<^verbatim>\<open>ReplicatedLogImpl\<close> that change after it has been built.\<close>

record ('n, 'msg, 'w, 'm) ReplicatedLogImpl =
  rl_node :: 'n
  rl_observer :: WalWritesMap
  rl_channels :: channels
  rl_cluster :: PeerManager
  rl_network :: "'msg network"
  rl_memstore :: 'm
  rl_wal :: 'w

text \<open>
  The calls \<^verbatim>\<open>flushReady\<close> makes.  Which ones it makes depends on the Ready and on the id only, so
  they are a list, which is run until a call fails.
\<close>

datatype ('msg, 'e, 'h) flush_call =
    Pass "'msg list"
  | WalWrite "'e list" "'h option"
  | Notify u64
  | AdvanceReady "('msg, 'e, 'h) Ready"

definition flush_calls :: "('n, 'msg, 'e, 'h, 'm) yaraft \<Rightarrow> u64 \<Rightarrow> ('msg, 'e, 'h) Ready \<Rightarrow> ('msg, 'e, 'h) flush_call list" where
  "flush_calls Y ident rd =
     (let leads = (currentLeader rd = ident);
          first_messages = (if leads \<and> messages rd \<noteq> [] then [Pass (messages rd)] else []);
          rd = (if leads then rd\<lparr>messages := []\<rparr> else rd)
      in first_messages
         @ [if rd_entries rd \<noteq> [] then WalWrite (rd_entries rd) (hardState rd) else WalWrite [] (hardState rd)]
         @ (case hardState rd of None \<Rightarrow> [] | Some hs \<Rightarrow> if has_commit Y hs then [Notify (hs_commit Y hs)] else [])
         @ [AdvanceReady rd]
         @ (if \<not> leads \<and> messages rd \<noteq> [] then [Pass (messages rd)] else []))"

fun run_call :: "('n, 'msg, 'e, 'h, 'm) yaraft \<Rightarrow> ('e, 'h, 'w) WriteAheadLog \<Rightarrow> ('msg, 'e, 'h) flush_call
    \<Rightarrow> ('n, 'msg, 'w, 'm) ReplicatedLogImpl \<Rightarrow> ('n, 'msg, 'w, 'm) ReplicatedLogImpl outcome option" where
  "run_call Y W (Pass mails) rl =
     Some (bind_outcome (PeerManager_Pass (msg_to Y) (rl_cluster rl) mails (rl_network rl)) (\<lambda>(_, net).
       Ret (rl\<lparr>rl_network := net\<rparr>)))"
| "run_call Y W (WalWrite entries hs) rl =
     (case wal_Write W entries hs (rl_wal rl) of
        None \<Rightarrow> None
      | Some r \<Rightarrow> Some (bind_outcome r (\<lambda>(s, wal). if s = OK then Ret (rl\<lparr>rl_wal := wal\<rparr>) else Fatal)))"
| "run_call Y W (Notify commitIndex) rl =
     Some (bind_outcome (observer_Notify commitIndex (rl_observer rl) (rl_channels rl)) (\<lambda>(writes, chans).
       Ret (rl\<lparr>rl_observer := writes, rl_channels := chans\<rparr>)))"
| "run_call Y W (AdvanceReady rd) rl = Some (Ret (rl\<lparr>rl_memstore := Advance Y rd (rl_memstore rl)\<rparr>))"

text \<open>
  Running the calls one after the other: the calls that were made, the last of which may be the
  one that failed, and the result.
\<close>

fun run_calls :: "('n, 'msg, 'e, 'h, 'm) yaraft \<Rightarrow> ('e, 'h, 'w) WriteAheadLog \<Rightarrow> ('msg, 'e, 'h) flush_call list
    \<Rightarrow> ('n, 'msg, 'w, 'm) ReplicatedLogImpl
    \<Rightarrow> ('msg, 'e, 'h) flush_call list \<times> ('n, 'msg, 'w, 'm) ReplicatedLogImpl outcome option" where
  "run_calls Y W [] rl = ([], Some (Ret rl))"
| "run_calls Y W (c # cs) rl =
     (case run_call Y W c rl of
        Some (Ret rl) \<Rightarrow> (case run_calls Y W cs rl of (made, r) \<Rightarrow> (c # made, r))
      | r \<Rightarrow> ([c], r))"

definition flushReady :: "('n, 'msg, 'e, 'h, 'm) yaraft \<Rightarrow> ('e, 'h, 'w) WriteAheadLog \<Rightarrow> ('msg, 'e, 'h) Ready
    \<Rightarrow> ('n, 'msg, 'w, 'm) ReplicatedLogImpl
    \<Rightarrow> ('msg, 'e, 'h) flush_call list \<times> ('n, 'msg, 'w, 'm) ReplicatedLogImpl outcome option" where
  "flushReady Y W rd rl = run_calls Y W (flush_calls Y (node_Id Y (rl_node rl)) rd) rl"

text \<open>
  One round over the registered logs.  \<^verbatim>\<open>std::async\<close> returns a future whose destructor waits, so
  every flush ends before the next log is looked at.
\<close>

fun flushRound :: "('n, 'msg, 'e, 'h, 'm) yaraft \<Rightarrow> ('e, 'h, 'w) WriteAheadLog \<Rightarrow> ('n, 'msg, 'w, 'm) ReplicatedLogImpl list
    \<Rightarrow> ('n, 'msg, 'w, 'm) ReplicatedLogImpl list outcome option" where
  "flushRound Y W [] = Some (Ret [])"
| "flushRound Y W (rl # logs) =
     (case node_GetReady Y (rl_node rl) of (rd, node) \<Rightarrow>
        let rl = rl\<lparr>rl_node := node\<rparr> in
        case (case rd of None \<Rightarrow> Some (Ret rl) | Some rd \<Rightarrow> snd (flushReady Y W rd rl)) of
          Some (Ret rl) \<Rightarrow>
            map_option (\<lambda>r. bind_outcome r (\<lambda>logs. Ret (rl # logs))) (flushRound Y W logs)
        | Some (Undef u) \<Rightarrow> Some (Undef u)
        | Some Fatal \<Rightarrow> Some Fatal
        | None \<Rightarrow> None)"

lemma run_calls_cases:
  assumes "run_calls Y W (c # cs) rl = (made, r)"
  obtains (ok) rl1 made1 where "run_call Y W c rl = Some (Ret rl1)" "run_calls Y W cs rl1 = (made1, r)" "made = c # made1"
  | (failed) "made = [c]" "r = run_call Y W c rl" "\<forall>rl1. r \<noteq> Some (Ret rl1)"
  using assms by (auto split: option.splits outcome.splits prod.splits)

lemma run_calls_prefix: "run_calls Y W cs rl = (made, r) \<Longrightarrow> prefix made cs"
proof (induction cs arbitrary: rl made)
  case (Cons c cs)
  from Cons.prems show ?case
  proof (cases rule: run_calls_cases)
    case (ok rl1 made1)
    with Cons.IH [OF ok(2)] show ?thesis by simp
  qed simp
qed simp

lemma run_calls_append:
  "run_calls Y W (cs @ ds) rl =
     (case run_calls Y W cs rl of
        (made, Some (Ret rl1)) \<Rightarrow> (case run_calls Y W ds rl1 of (made', r) \<Rightarrow> (made @ made', r))
      | (made, r) \<Rightarrow> (made, r))"
  by (induction cs arbitrary: rl) (auto split: option.splits outcome.splits prod.splits)

lemma flush_calls_follower:
  "currentLeader rd \<noteq> ident \<Longrightarrow> \<exists>cs. flush_calls Y ident rd = WalWrite (rd_entries rd) (hardState rd) # cs"
  by (simp add: flush_calls_def Let_def)

lemma flush_calls_leader:
  "currentLeader rd = ident \<Longrightarrow> messages rd \<noteq> [] \<Longrightarrow>
   \<exists>cs. flush_calls Y ident rd = Pass (messages rd) # WalWrite (rd_entries rd) (hardState rd) # cs \<and> (\<forall>ms. Pass ms \<notin> set cs)"
  by (auto simp: flush_calls_def Let_def split: option.split)

text \<open>
  C5. The order of a flush.  A follower sends its messages only after the write-ahead log has
  answered OK to the write of this Ready's entries and hard state; if the log fails, the process
  ends before any message is sent and before the memory store advances.  A leader sends its messages
  first, in parallel with its own write, and does not send them a second time.
\<close>

theorem flush_order:
  assumes "flushReady Y W rd rl = (made, r)"
  shows "(currentLeader rd \<noteq> node_Id Y (rl_node rl) \<and> Pass ms \<in> set made \<longrightarrow>
      ms = messages rd \<and> (\<exists>w. wal_Write W (rd_entries rd) (hardState rd) (rl_wal rl) = Some (Ret (OK, w)))) \<and>
    (currentLeader rd \<noteq> node_Id Y (rl_node rl) \<and> wal_Write W (rd_entries rd) (hardState rd) (rl_wal rl) = Some (Ret (s, w)) \<and> s \<noteq> OK \<longrightarrow>
      made = [WalWrite (rd_entries rd) (hardState rd)] \<and> r = Some Fatal) \<and>
    (currentLeader rd = node_Id Y (rl_node rl) \<and> messages rd \<noteq> [] \<longrightarrow>
      (\<exists>more. made = Pass (messages rd) # more \<and> (\<forall>ms. Pass ms \<notin> set more)))"
proof (cases "currentLeader rd = node_Id Y (rl_node rl)")
  case True
  have "\<exists>more. made = Pass (messages rd) # more \<and> (\<forall>ms. Pass ms \<notin> set more)" if m: "messages rd \<noteq> []"
  proof -
    from flush_calls_leader [OF True m, of Y] obtain cs where
      cs: "flush_calls Y (node_Id Y (rl_node rl)) rd = Pass (messages rd) # cs" "\<forall>ms. Pass ms \<notin> set cs" by auto
    from assms have "run_calls Y W (Pass (messages rd) # cs) rl = (made, r)" by (simp only: flushReady_def cs)
    then show ?thesis
    proof (cases rule: run_calls_cases)
      case (ok rl1 made1)
      with run_calls_prefix [OF ok(2)] cs(2) show ?thesis by (auto dest: set_mono_prefix)
    qed simp
  qed
  with True show ?thesis by simp
next
  case False
  from flush_calls_follower [OF False, of Y] obtain cs where
    cs: "flush_calls Y (node_Id Y (rl_node rl)) rd = WalWrite (rd_entries rd) (hardState rd) # cs" by blast
  from assms have R: "run_calls Y W (WalWrite (rd_entries rd) (hardState rd) # cs) rl = (made, r)" by (simp only: flushReady_def cs)
  have "ms = messages rd" if "Pass ms \<in> set made"
    using set_mono_prefix [OF run_calls_prefix [OF R]] that unfolding cs [symmetric]
    by (auto simp: flush_calls_def Let_def split: if_splits option.splits)
  moreover from R have "(Pass ms \<in> set made \<longrightarrow> (\<exists>w. wal_Write W (rd_entries rd) (hardState rd) (rl_wal rl) = Some (Ret (OK, w)))) \<and>
    (wal_Write W (rd_entries rd) (hardState rd) (rl_wal rl) = Some (Ret (s, w)) \<and> s \<noteq> OK \<longrightarrow>
      made = [WalWrite (rd_entries rd) (hardState rd)] \<and> r = Some Fatal)"
    by (cases rule: run_calls_cases) (auto split: option.splits if_splits)
  ultimately show ?thesis using False by simp
qed

text \<open>An example: a log that keeps its entries in a list and refuses entries longer than three bytes.\<close>

definition example_log :: "(bytes, nat, bytes list) WriteAheadLog" where
  "example_log = \<lparr>wal_Write = (\<lambda>es hs w. if \<forall>e \<in> set es. length e \<le> 3 then Some (Ret (OK, w @ es)) else Some (Ret (IOError, w)))\<rparr>"

definition example_impl :: "(example_node, u64 \<times> string, bytes list, bytes list) ReplicatedLogImpl" where
  "example_impl =
     \<lparr>rl_node = \<lparr>xn_log = [], xn_leads = False, xn_ready = None\<rparr>, rl_observer = [],
      rl_channels = (\<lambda>_. new_SimpleChannel), rl_cluster = Cluster_Default example_cluster,
      rl_network = new_network, rl_memstore = [], rl_wal = []\<rparr>"

definition example_ready :: "bytes \<Rightarrow> (u64 \<times> string, bytes, nat) Ready" where
  "example_ready e = \<lparr>currentLeader = 2, messages = [(2, ''ack'')], hardState = None, rd_entries = [e]\<rparr>"

lemma example_flush: "fst (flushReady example_yaraft example_log (example_ready [7]) example_impl) =
    [WalWrite [[7]] None, AdvanceReady (example_ready [7]), Pass [(2, ''ack'')]]"
  by (simp add: flushReady_def flush_calls_def example_yaraft_def example_log_def example_ready_def example_impl_def
      Cluster_Default_def example_cluster_def)

theorem flush_order_witness:
  "Pass [(2, ''ack'')] \<in> set (fst (flushReady example_yaraft example_log (example_ready [7]) example_impl)) \<and>
   (\<exists>w. wal_Write example_log [[7]] None [] = Some (Ret (OK, w))) \<and>
   snd (flushReady example_yaraft example_log (example_ready [1, 2, 3, 4]) example_impl) = Some Fatal"
proof -
  let ?f = "\<lambda>e. flushReady example_yaraft example_log (example_ready e) example_impl"
  have n: "node_Id example_yaraft (rl_node example_impl) = 1" by (simp add: example_yaraft_def)
  have l: "currentLeader (example_ready e) = 2" "rd_entries (example_ready e) = [e]" "hardState (example_ready e) = None"
    "rl_wal example_impl = []" for e by (simp_all add: example_ready_def example_impl_def)
  from flush_order [OF prod.collapse [of "?f [7]", symmetric], unfolded n l, of "[(2, ''ack'')]"]
  have "\<exists>w. wal_Write example_log [[7]] None [] = Some (Ret (OK, w))"
    by (simp add: example_flush)
  moreover have "wal_Write example_log [[1, 2, 3, 4]] None [] = Some (Ret (IOError, []))" by (simp add: example_log_def)
  with flush_order [OF prod.collapse [of "?f [1, 2, 3, 4]", symmetric], unfolded n l, of _ IOError "[]"]
  have "snd (?f [1, 2, 3, 4]) = Some Fatal" by simp
  ultimately show ?thesis by (simp add: example_flush)
qed

subsection \<open>ReplicatedLog::AsyncWrite\<close>

text \<open>
  The closure refers to the channel of the caller, here by its address \<open>c\<close>: the local variable of
  \<^verbatim>\<open>AsyncWrite\<close> and the object that \<^verbatim>\<open>Write\<close> waits on are one object because the copy is elided.
\<close>

definition send_on :: "nat \<Rightarrow> ErrorCodes \<Rightarrow> ('n, 'msg, 'w, 'm) ReplicatedLogImpl \<Rightarrow> ('n, 'msg, 'w, 'm) ReplicatedLogImpl outcome" where
  "send_on c s rl = bind_outcome (send_to c s (rl_channels rl)) (\<lambda>chans. Ret (rl\<lparr>rl_channels := chans\<rparr>))"

definition write_task :: "('n, 'msg, 'e, 'h, 'm) yaraft \<Rightarrow> bytes \<Rightarrow> nat \<Rightarrow> ('n, 'msg, 'w, 'm) ReplicatedLogImpl RaftTask" where
  "write_task Y log c =
     [Work (\<lambda>rl.
       if \<not> IsLeader Y (rl_node rl) then send_on c WalWriteToNonLeader rl
       else case Propose Y log (rl_node rl) of (s, node) \<Rightarrow>
         let rl = rl\<lparr>rl_node := node\<rparr> in
         if s \<noteq> YaraftOK then send_on c YARaftError rl
         else
           let newIndex = LastIndex Y node in
           Ret (rl\<lparr>rl_observer := observer_Register (newIndex, newIndex) c (rl_observer rl)\<rparr>))]"

definition AsyncWrite :: "('q, ('n, 'msg, 'w, 'm) ReplicatedLogImpl RaftTask) task_queue_lib \<Rightarrow> ('n, 'msg, 'e, 'h, 'm) yaraft
    \<Rightarrow> nat \<Rightarrow> bytes \<Rightarrow> nat \<Rightarrow> ('q, ('n, 'msg, 'w, 'm) ReplicatedLogImpl RaftTask) TaskQueue
    \<Rightarrow> ('q, ('n, 'msg, 'w, 'm) ReplicatedLogImpl RaftTask) TaskQueue" where
  "AsyncWrite Q Y producer log c q = Submit Q producer (write_task Y log c) q"

text \<open>\<^verbatim>\<open>Write\<close> waits for the channel: \<open>None\<close> until it has a value.\<close>

definition Write_result :: "nat \<Rightarrow> ('n, 'msg, 'w, 'm) ReplicatedLogImpl \<Rightarrow> (ErrorCodes \<times> ErrorCodes SimpleChannel) outcome option" where
  "Write_result c rl = chan_recv (rl_channels rl c)"

text \<open>
  C34. What a write answers.  On a node that is not the leader it is refused at once with
  WalWriteToNonLeader and the node does not see it.  When the node refuses the proposal the answer
  is YARaftError.  Otherwise the node has the proposal, the writer gets no answer yet, and it waits
  for the index of its entry, unless somebody waits for that index already: then its channel is
  in nobody's hands and the writer waits forever.
\<close>

theorem write_answers:
  assumes "rl_channels rl c = new_SimpleChannel"
  shows "\<exists>rl'. task_effect (write_task Y log c) rl = Ret rl' \<and>
    (\<not> IsLeader Y (rl_node rl) \<longrightarrow>
      rl_node rl' = rl_node rl \<and> rl_observer rl' = rl_observer rl \<and> (\<exists>ch. Write_result c rl' = Some (Ret (WalWriteToNonLeader, ch)))) \<and>
    (IsLeader Y (rl_node rl) \<and> Propose Y log (rl_node rl) = (s, n) \<and> s \<noteq> YaraftOK \<longrightarrow>
      rl_node rl' = n \<and> rl_observer rl' = rl_observer rl \<and> (\<exists>ch. Write_result c rl' = Some (Ret (YARaftError, ch)))) \<and>
    (IsLeader Y (rl_node rl) \<and> Propose Y log (rl_node rl) = (YaraftOK, n) \<longrightarrow>
      rl_node rl' = n \<and> Write_result c rl' = None \<and>
      map_of (rl_observer rl') (LastIndex Y n, LastIndex Y n) =
        (case map_of (rl_observer rl) (LastIndex Y n, LastIndex Y n) of None \<Rightarrow> Some c | Some c' \<Rightarrow> Some c'))"
proof (cases "Propose Y log (rl_node rl)")
  case (Pair s' n')
  note defs = write_task_def send_on_def send_to_def chan_send_def Write_result_def chan_recv_def new_SimpleChannel_def
  show ?thesis using assms Pair
    by (auto simp: defs Let_def observer_Register_lookup split: option.split)
qed

theorem write_answers_witness:
  "\<exists>rl' ch. task_effect (write_task example_yaraft [1, 2] 0) example_impl = Ret rl' \<and>
     Write_result 0 rl' = Some (Ret (WalWriteToNonLeader, ch))"
proof -
  have "\<not> IsLeader example_yaraft (rl_node example_impl)" "rl_channels example_impl 0 = new_SimpleChannel"
    by (simp_all add: example_yaraft_def example_impl_def)
  with write_answers [of example_impl 0 example_yaraft "[1, 2]"] show ?thesis by blast
qed

subsection \<open>The two threads together\<close>

text \<open>
  The log, the calls the flusher still has to make, the next free channel address, and, when the
  flusher is inside \<^verbatim>\<open>Notify\<close> with an iterator it can no longer use, the commit index and the
  element that was erased.  Tasks of clients and all other tasks (ticks, steps, status requests) of
  the worker come between any two calls of the flusher, and between the erasure and the
  increment too, so a client can receive what the body of the loop sent.  The mutex of the observer
  is left out: it only forbids some of these steps.
\<close>

record ('n, 'msg, 'e, 'h, 'w, 'm) running =
  run_impl :: "('n, 'msg, 'w, 'm) ReplicatedLogImpl"
  run_flush :: "('msg, 'e, 'h) flush_call list"
  run_next :: nat
  run_notify :: "(u64 \<times> (u64 \<times> u64) \<times> nat) option"

definition flusher_step :: "('n, 'msg, 'e, 'h, 'm) yaraft \<Rightarrow> ('e, 'h, 'w) WriteAheadLog \<Rightarrow> ('n, 'msg, 'e, 'h, 'w, 'm) running
    \<Rightarrow> ('n, 'msg, 'e, 'h, 'w, 'm) running outcome option" where
  "flusher_step Y W s =
     (case (run_notify s, run_flush s, rl_observer (run_impl s)) of
        (Some _, _, _) \<Rightarrow> Some (Undef InvalidIterator)
      | (None, [], _) \<Rightarrow> Some (Ret s)
      | (None, Notify commitIndex # _, it # rest) \<Rightarrow>
          Some (bind_outcome (Notify_body commitIndex it (rl_channels (run_impl s))) (\<lambda>chans.
            Ret (s\<lparr>run_impl := (run_impl s)\<lparr>rl_observer := rest, rl_channels := chans\<rparr>, run_notify := Some (commitIndex, it)\<rparr>)))
      | (None, c # cs, _) \<Rightarrow>
          map_option (\<lambda>r. bind_outcome r (\<lambda>rl. Ret (s\<lparr>run_impl := rl, run_flush := cs\<rparr>))) (run_call Y W c (run_impl s)))"

inductive rl_step :: "('n, 'msg, 'e, 'h, 'm) yaraft \<Rightarrow> ('e, 'h, 'w) WriteAheadLog \<Rightarrow> ('n, 'msg, 'e, 'h, 'w, 'm) running
    \<Rightarrow> ('n, 'msg, 'e, 'h, 'w, 'm) running \<Rightarrow> bool" for Y W where
  client_write: "task_effect (write_task Y log (run_next s)) (run_impl s) = Ret rl \<Longrightarrow>
    rl_step Y W s (s\<lparr>run_impl := rl, run_next := Suc (run_next s)\<rparr>)"
| other_task: "rl_step Y W s (s\<lparr>run_impl := (run_impl s)\<lparr>rl_node := node\<rparr>\<rparr>)"
| get_ready: "run_flush s = [] \<Longrightarrow> node_GetReady Y (rl_node (run_impl s)) = (Some rd, node) \<Longrightarrow>
    rl_step Y W s (s\<lparr>run_impl := (run_impl s)\<lparr>rl_node := node\<rparr>, run_flush := flush_calls Y (node_Id Y node) rd\<rparr>)"
| flush_call: "flusher_step Y W s = Some (Ret s') \<Longrightarrow> rl_step Y W s s'"
| client_recv: "Write_result c (run_impl s) = Some (Ret (st, ch)) \<Longrightarrow>
    rl_step Y W s (s\<lparr>run_impl := (run_impl s)\<lparr>rl_channels := (rl_channels (run_impl s))(c := ch)\<rparr>\<rparr>)"

abbreviation rl_steps :: "('n, 'msg, 'e, 'h, 'm) yaraft \<Rightarrow> ('e, 'h, 'w) WriteAheadLog \<Rightarrow> ('n, 'msg, 'e, 'h, 'w, 'm) running
    \<Rightarrow> ('n, 'msg, 'e, 'h, 'w, 'm) running \<Rightarrow> bool" where
  "rl_steps Y W \<equiv> (rl_step Y W)\<^sup>*\<^sup>*"

definition fresh_impl :: "('n, 'msg, 'w, 'm) ReplicatedLogImpl \<Rightarrow> bool" where
  "fresh_impl rl = (rl_observer rl = [] \<and> rl_channels rl = (\<lambda>_. new_SimpleChannel))"

definition rl_start :: "('n, 'msg, 'e, 'h, 'w, 'm) running \<Rightarrow> bool" where
  "rl_start s = (fresh_impl (run_impl s) \<and> run_flush s = [] \<and> run_notify s = None)"

text \<open>
  The invariant: the only channel that may hold OK is that of the element the flusher has just
  erased, and only if its range is committed; unused channels are empty; a range is one index;
  and as long as the flusher is not inside the loop those who wait have no answer.
\<close>

definition answered_OK :: "('n, 'msg, 'e, 'h, 'w, 'm) running \<Rightarrow> nat \<Rightarrow> bool" where
  "answered_OK s c \<longleftrightarrow> (\<exists>n i. run_notify s = Some (n, (i, i), c) \<and> i \<le> n)"

definition rl_inv :: "('n, 'msg, 'e, 'h, 'w, 'm) running \<Rightarrow> bool" where
  "rl_inv s =
     ((\<forall>c. ch_value (rl_channels (run_impl s) c) = Some OK \<longrightarrow> answered_OK s c) \<and>
      (\<forall>c \<ge> run_next s. rl_channels (run_impl s) c = new_SimpleChannel) \<and>
      (\<forall>n it. run_notify s = Some (n, it) \<longrightarrow> snd it < run_next s) \<and>
      (\<forall>((lo, hi), c) \<in> set (rl_observer (run_impl s)). lo = hi \<and> c < run_next s \<and>
        (run_notify s = None \<longrightarrow> rl_channels (run_impl s) c = new_SimpleChannel)))"

lemma rl_inv_start: "rl_start s \<Longrightarrow> rl_inv s"
  by (simp add: rl_start_def fresh_impl_def rl_inv_def new_SimpleChannel_def)

lemma run_call_channels:
  "run_call Y W c rl = Some (Ret rl') \<Longrightarrow> rl_channels rl' = rl_channels rl \<and> rl_observer rl' = rl_observer rl"
  by (cases c) (auto simp: observer_Notify_Ret split: option.splits if_splits)

lemma map_assign_pairs: "set (map_assign k v m) \<subseteq> insert (k, v) (set m)"
  by (induction k v m rule: map_assign.induct) auto

lemma observer_Register_set: "set (observer_Register r c m) \<subseteq> insert (r, c) (set m)"
  using map_assign_pairs [of r c m] by (auto simp: observer_Register_def split: option.split)

lemma write_task_Ret:
  assumes "task_effect (write_task Y log c) rl = Ret rl'"
  shows "(\<exists>s. s \<noteq> OK \<and> rl_observer rl' = rl_observer rl \<and>
      rl_channels rl' = (rl_channels rl)(c := (rl_channels rl c)\<lparr>ch_value := Some s\<rparr>)) \<or>
    (\<exists>i. rl_channels rl' = rl_channels rl \<and> rl_observer rl' = observer_Register (i, i) c (rl_observer rl))"
proof -
  have send: "\<exists>s. s \<noteq> OK \<and> rl_observer rl' = rl_observer v \<and>
      rl_channels rl' = (rl_channels v)(c := (rl_channels v c)\<lparr>ch_value := Some s\<rparr>)"
    if "send_on c st v = Ret rl'" "st \<noteq> OK" for st v
    using that by (intro exI [of _ st]) (auto simp: send_on_def send_to_def chan_send_def split: if_splits)
  show ?thesis
  proof (cases "IsLeader Y (rl_node rl) \<and> fst (Propose Y log (rl_node rl)) = YaraftOK")
    case True
    then obtain n where "IsLeader Y (rl_node rl)" "Propose Y log (rl_node rl) = (YaraftOK, n)" by (metis prod.collapse)
    with assms show ?thesis
      by (intro disjI2 exI [of _ "LastIndex Y n"]) (auto simp: write_task_def Let_def)
  next
    case False
    with assms consider "send_on c WalWriteToNonLeader rl = Ret rl'"
      | n where "send_on c YARaftError (rl\<lparr>rl_node := n\<rparr>) = Ret rl'"
      by (auto simp: write_task_def Let_def split: prod.splits if_splits)
    then show ?thesis by cases (use send in force)+
  qed
qed

text \<open>A call of the flusher: any but the notification of waiting writers, or the body of the loop.\<close>

lemma flusher_step_cases:
  assumes "flusher_step Y W s = Some (Ret s')"
  obtains (call) "run_next s' = run_next s" "run_notify s = None" "run_notify s' = None"
      "rl_channels (run_impl s') = rl_channels (run_impl s)" "rl_observer (run_impl s') = rl_observer (run_impl s)"
  | (body) n it rest chans where "run_notify s = None" "rl_observer (run_impl s) = it # rest"
      "Notify_body n it (rl_channels (run_impl s)) = Ret chans"
      "s' = s\<lparr>run_impl := (run_impl s)\<lparr>rl_observer := rest, rl_channels := chans\<rparr>, run_notify := Some (n, it)\<rparr>"
proof -
  have None: "run_notify s = None" using assms by (cases "run_notify s") (simp_all add: flusher_step_def)
  have run: thesis if "run_call Y W c (run_impl s) = Some (Ret rl)" "s' = s\<lparr>run_impl := rl, run_flush := cs\<rparr>" for c rl cs
    using call run_call_channels [OF that(1)] that(2) None by simp
  show thesis
  proof (cases "run_flush s")
    case Nil
    with assms None show thesis by (intro call) (simp_all add: flusher_step_def)
  next
    case (Cons c cs)
    show thesis
    proof (cases "\<exists>n it rest. c = Notify n \<and> rl_observer (run_impl s) = it # rest")
      case True
      then obtain n it rest where "c = Notify n" "rl_observer (run_impl s) = it # rest" by blast
      moreover from this assms None Cons obtain chans where
        "Notify_body n it (rl_channels (run_impl s)) = Ret chans"
        "s' = s\<lparr>run_impl := (run_impl s)\<lparr>rl_observer := rest, rl_channels := chans\<rparr>, run_notify := Some (n, it)\<rparr>"
        by (auto simp: flusher_step_def)
      ultimately show thesis using body None by blast
    next
      case False
      with assms None Cons obtain rl where "run_call Y W c (run_impl s) = Some (Ret rl)" "s' = s\<lparr>run_impl := rl, run_flush := cs\<rparr>"
        by (cases c; cases "rl_observer (run_impl s)") (auto simp: flusher_step_def)
      then show thesis by (rule run)
    qed
  qed
qed

lemma flusher_step_inv:
  assumes "flusher_step Y W s = Some (Ret s')" "rl_inv s"
  shows "rl_inv s'"
  using assms(1)
proof (cases rule: flusher_step_cases)
  case call
  with assms(2) show ?thesis by (simp add: rl_inv_def answered_OK_def)
next
  case (body n it rest chans)
  obtain i c where it: "it = ((i, i), c)" "c < run_next s" "rl_channels (run_impl s) c = new_SimpleChannel"
    using assms(2) body(1,2) by (cases it) (auto simp: rl_inv_def)
  with body(3) have "chans = (if i \<le> n then (rl_channels (run_impl s))(c := new_SimpleChannel\<lparr>ch_value := Some OK\<rparr>) else rl_channels (run_impl s))"
    by (auto simp: Notify_body_def send_to_def chan_send_def new_SimpleChannel_def split: if_splits)
  with assms(2) body it show ?thesis by (auto simp: rl_inv_def answered_OK_def)
qed

lemma rl_step_inv:
  assumes "rl_step Y W s s'" "rl_inv s"
  shows "rl_inv s'"
  using assms
proof cases
  case (client_write log rl)
  from write_task_Ret [OF client_write(2)] show ?thesis
  proof (elim disjE exE conjE)
    fix st
    assume "st \<noteq> OK" "rl_observer rl = rl_observer (run_impl s)"
      "rl_channels rl = (rl_channels (run_impl s))(run_next s := (rl_channels (run_impl s) (run_next s))\<lparr>ch_value := Some st\<rparr>)"
    with assms(2) show ?thesis by (auto simp: rl_inv_def answered_OK_def client_write(1))
  next
    fix i
    assume "rl_channels rl = rl_channels (run_impl s)" "rl_observer rl = observer_Register (i, i) (run_next s) (rl_observer (run_impl s))"
    moreover from this(2) have "set (rl_observer rl) \<subseteq> insert ((i, i), run_next s) (set (rl_observer (run_impl s)))"
      by (simp only: observer_Register_set)
    ultimately show ?thesis using assms(2)
      by (auto simp: rl_inv_def answered_OK_def client_write(1) less_Suc_eq)
  qed
next
  case flush_call
  with assms(2) show ?thesis by (simp add: flusher_step_inv)
next
  case (client_recv c st ch)
  then have "ch_value ch = Some st" "ch_value (rl_channels (run_impl s) c) = Some st"
    by (auto simp: Write_result_def chan_recv_def split: if_splits option.splits)
  with assms(2) show ?thesis by (auto simp: rl_inv_def answered_OK_def client_recv(1) new_SimpleChannel_def)
qed (simp_all add: rl_inv_def answered_OK_def)

lemma rl_steps_inv: "rl_steps Y W s s' \<Longrightarrow> rl_inv s \<Longrightarrow> rl_inv s'"
  by (induction rule: rtranclp_induct) (auto intro: rl_step_inv)



lemma rl_step_next: "rl_step Y W s s' \<Longrightarrow> run_next s \<le> run_next s'"
  by (induction rule: rl_step.induct) (auto elim: flusher_step_cases)

lemma rl_steps_next: "rl_steps Y W s s' \<Longrightarrow> run_next s \<le> run_next s'"
  by (induction rule: rtranclp_induct) (auto dest: rl_step_next)



lemma Write_result_OK: "rl_inv s \<Longrightarrow> Write_result c (run_impl s) = Some (Ret (OK, ch)) \<Longrightarrow> answered_OK s c"
  by (auto simp: rl_inv_def Write_result_def chan_recv_def split: if_splits option.splits)


text \<open>
  Also without an acknowledgement: when a write waits and a Ready with a commit index is flushed,
  the notification of the observer is undefined behaviour.
\<close>

lemma commit_notification_undefined:
  assumes "rl_start s" "rl_steps Y W s s'" "rl_observer (run_impl s') \<noteq> []" "run_notify s' = None"
  shows "run_call Y W (Notify commitIndex) (run_impl s') = Some (Undef InvalidIterator)"
proof (cases "rl_observer (run_impl s')")
  case (Cons x rest)
  obtain lo hi c where x: "x = ((lo, hi), c)" by (metis prod.collapse)
  from rl_steps_inv [OF assms(2) rl_inv_start [OF assms(1)]] Cons x assms(4)
  have "rl_channels (run_impl s') c = new_SimpleChannel" by (auto simp: rl_inv_def)
  then show ?thesis by (simp add: Cons x observer_Notify_def Notify_body_def send_to_def chan_send_def new_SimpleChannel_def)
qed (use assms(3) in simp)

text \<open>
  \<^verbatim>\<open>ReplicatedLog::Write\<close> as its caller sees it: its task runs, then the other steps happen until
  the answer is there.  Which ones is \<open>others\<close>, a function whose results are reachable; \<open>None\<close> when
  there is no answer.
\<close>

definition ReplicatedLog_Write :: "('n, 'msg, 'e, 'h, 'm) yaraft
    \<Rightarrow> (('n, 'msg, 'e, 'h, 'w, 'm) running \<Rightarrow> ('n, 'msg, 'e, 'h, 'w, 'm) running) \<Rightarrow> bytes
    \<Rightarrow> ('n, 'msg, 'e, 'h, 'w, 'm) running \<Rightarrow> (ErrorCodes \<times> ('n, 'msg, 'e, 'h, 'w, 'm) running) outcome option" where
  "ReplicatedLog_Write Y others log s =
     (let chan = run_next s in
      case task_effect (write_task Y log chan) (run_impl s) of
        Undef u \<Rightarrow> Some (Undef u)
      | Fatal \<Rightarrow> Some Fatal
      | Ret rl \<Rightarrow>
          let s = others (s\<lparr>run_impl := rl, run_next := Suc chan\<rparr>) in
          map_option (\<lambda>r. bind_outcome r (\<lambda>(st, ch).
              Ret (st, s\<lparr>run_impl := (run_impl s)\<lparr>rl_channels := (rl_channels (run_impl s))(chan := ch)\<rparr>\<rparr>)))
            (Write_result chan (run_impl s)))"

lemma ReplicatedLog_Write_steps:
  assumes "ReplicatedLog_Write Y others log s = Some (Ret (st, s'))" "\<And>s. rl_steps Y W s (others s)"
  shows "rl_steps Y W s s' \<and> run_next s < run_next s' \<and> (rl_inv s \<and> st = OK \<longrightarrow> answered_OK s' (run_next s))"
proof -
  let ?c = "run_next s"
  from assms(1) obtain rl where t: "task_effect (write_task Y log ?c) (run_impl s) = Ret rl"
    by (auto simp: ReplicatedLog_Write_def Let_def split: outcome.splits)
  let ?s1 = "s\<lparr>run_impl := rl, run_next := Suc ?c\<rparr>"
  from assms(1) t obtain ch where w: "Write_result ?c (run_impl (others ?s1)) = Some (Ret (st, ch))"
    and s': "s' = (others ?s1)\<lparr>run_impl := (run_impl (others ?s1))\<lparr>rl_channels := (rl_channels (run_impl (others ?s1)))(?c := ch)\<rparr>\<rparr>"
    by (auto simp: ReplicatedLog_Write_def Let_def)
  have "rl_steps Y W s (others ?s1)"
    using client_write [OF t, of W] assms(2) [of ?s1] by (rule converse_rtranclp_into_rtranclp)
  moreover from this client_recv [OF w, of Y W] have "rl_steps Y W s s'" unfolding s' by (rule rtranclp.rtrancl_into_rtrancl)
  moreover have "answered_OK s' ?c" if "rl_inv s" "st = OK"
    using Write_result_OK [OF rl_steps_inv [OF calculation(1) that(1)]] w that(2) unfolding s' by (simp add: answered_OK_def)
  moreover have "run_next s < run_next s'" using rl_steps_next [OF assms(2) [of ?s1]] unfolding s' by simp
  ultimately show ?thesis by blast
qed

text \<open>A run of the example: the node leads, a client writes, and the commit is flushed.\<close>

definition example_leader :: "(example_node, u64 \<times> string, bytes, nat, bytes list, bytes list) running" where
  "example_leader =
     \<lparr>run_impl = example_impl\<lparr>rl_node := \<lparr>xn_log = [], xn_leads = True, xn_ready = None\<rparr>\<rparr>, run_flush = [], run_next = 0,
      run_notify = None\<rparr>"

definition example_accepted :: "bytes \<Rightarrow> (example_node, u64 \<times> string, bytes, nat, bytes list, bytes list) running" where
  "example_accepted b =
     example_leader\<lparr>run_impl := (run_impl example_leader)\<lparr>rl_node := \<lparr>xn_log = [b], xn_leads = True, xn_ready = None\<rparr>,
       rl_observer := [((1, 1), 0)]\<rparr>, run_next := 1\<rparr>"

lemma example_leader_start: "rl_start example_leader"
  by (simp add: example_leader_def rl_start_def fresh_impl_def example_impl_def)

lemma example_accepted_steps: "rl_steps example_yaraft example_log example_leader (example_accepted b)"
proof -
  have "task_effect (write_task example_yaraft b (run_next example_leader)) (run_impl example_leader) =
      Ret (run_impl (example_accepted b))"
    by (simp add: write_task_def example_yaraft_def example_leader_def example_accepted_def example_impl_def
        observer_Register_def Let_def)
  from client_write [OF this] have "rl_step example_yaraft example_log example_leader (example_accepted b)"
    by (simp add: example_accepted_def example_leader_def)
  then show ?thesis by (rule r_into_rtranclp)
qed





lemma commit_notification_undefined_witness:
  "run_call example_yaraft example_log (Notify 1) (run_impl (example_accepted [9])) = Some (Undef InvalidIterator)"
  using commit_notification_undefined [OF example_leader_start example_accepted_steps [of "[9]"]]
  by (simp add: example_accepted_def example_leader_def)

subsection \<open>What a flush leaves in the log\<close>

text \<open>
  The contract of a write-ahead log towards the flusher: an answered write has added exactly its
  entries to what the log holds.
\<close>

locale write_ahead_log =
  fixes W :: "('e, 'h, 'w) WriteAheadLog"
    and holds :: "'w \<Rightarrow> 'e list \<Rightarrow> bool"
    and valid :: "'e list \<Rightarrow> 'h option \<Rightarrow> bool"
  assumes Write_OK: "holds w es \<Longrightarrow> valid vec hs \<Longrightarrow> wal_Write W vec hs w = Some (Ret (OK, w')) \<Longrightarrow> holds w' (es @ vec)"

lemma run_call_wal:
  "run_call Y W c rl = Some (Ret rl') \<Longrightarrow>
     (case c of WalWrite vec hs \<Rightarrow> wal_Write W vec hs (rl_wal rl) = Some (Ret (OK, rl_wal rl')) | _ \<Rightarrow> rl_wal rl' = rl_wal rl)"
  by (cases c) (auto split: option.splits if_splits)

definition written_by :: "('msg, 'e, 'h) flush_call \<Rightarrow> 'e list" where
  "written_by c = (case c of WalWrite vec hs \<Rightarrow> vec | _ \<Rightarrow> [])"

lemma written_by_simps [simp]:
  "written_by (WalWrite vec hs) = vec" "written_by (Pass ms) = []" "written_by (Notify i) = []" "written_by (AdvanceReady rd) = []"
  by (simp_all add: written_by_def)

lemma flush_calls_writes:
  "concat (map written_by (flush_calls Y ident rd)) = rd_entries rd"
  "WalWrite vec hs \<in> set (flush_calls Y ident rd) \<Longrightarrow> vec = rd_entries rd \<and> hs = hardState rd"
  by (auto simp: flush_calls_def Let_def split: option.splits if_splits)

context write_ahead_log
begin

lemma run_calls_hold:
  assumes "run_calls Y W cs rl = (made, Some (Ret rl'))" "holds (rl_wal rl) es"
    and "\<forall>vec hs. WalWrite vec hs \<in> set cs \<longrightarrow> valid vec hs"
  shows "holds (rl_wal rl') (es @ concat (map written_by cs))"
  using assms
proof (induction cs arbitrary: rl made es)
  case (Cons c cs)
  from Cons.prems(1) show ?case
  proof (cases rule: run_calls_cases)
    case (ok rl1 made1)
    have "holds (rl_wal rl1) (es @ written_by c)"
    proof (cases c)
      case (WalWrite vec hs)
      with Cons.prems(3) have "valid vec hs" by auto
      with run_call_wal [OF ok(1)] Cons.prems(2) Write_OK WalWrite show ?thesis by simp
    qed (use run_call_wal [OF ok(1)] Cons.prems(2) in simp_all)
    from Cons.IH [OF ok(2) this] Cons.prems(3) show ?thesis by auto
  next
    case failed
    then show ?thesis by metis
  qed
qed simp

lemma flush_holds:
  assumes "flushReady Y W rd rl = (made, Some (Ret rl'))" "holds (rl_wal rl) es" "valid (rd_entries rd) (hardState rd)"
  shows "holds (rl_wal rl') (es @ rd_entries rd)"
  using run_calls_hold [OF assms(1) [unfolded flushReady_def] assms(2)] assms(3)
  by (simp add: flush_calls_writes(1)) (metis flush_calls_writes(2))

end

text \<open>Flushing one Ready after the other, as the rounds of the flusher do.\<close>

fun flush_all :: "('n, 'msg, 'e, 'h, 'm) yaraft \<Rightarrow> ('e, 'h, 'w) WriteAheadLog \<Rightarrow> ('msg, 'e, 'h) Ready list
    \<Rightarrow> ('n, 'msg, 'w, 'm) ReplicatedLogImpl \<Rightarrow> ('n, 'msg, 'w, 'm) ReplicatedLogImpl outcome option" where
  "flush_all Y W [] rl = Some (Ret rl)"
| "flush_all Y W (rd # rds) rl =
     (case snd (flushReady Y W rd rl) of Some (Ret rl) \<Rightarrow> flush_all Y W rds rl | r \<Rightarrow> r)"

context write_ahead_log
begin

lemma flush_all_holds:
  assumes "flush_all Y W rds rl = Some (Ret rl')" "holds (rl_wal rl) es"
    and "\<forall>rd \<in> set rds. valid (rd_entries rd) (hardState rd)"
  shows "holds (rl_wal rl') (es @ concat (map rd_entries rds))"
  using assms
proof (induction rds arbitrary: rl es)
  case (Cons rd rds)
  then obtain rl1 where r: "flushReady Y W rd rl = (fst (flushReady Y W rd rl), Some (Ret rl1))" "flush_all Y W rds rl1 = Some (Ret rl')"
    by (cases "flushReady Y W rd rl") (auto split: option.splits outcome.splits)
  from Cons.IH [OF r(2) flush_holds [OF r(1) Cons.prems(2)]] Cons.prems(3) show ?case by simp
qed simp

end

subsection \<open>ReplicatedLogOptions and ReplicatedLog::New\<close>

text \<open>
  The shared components are heap objects with addresses: \<open>heap\<close> has the addresses that are alive and,
  for a timer or flusher, the logs registered with it.  A null pointer is \<^const>\<open>None\<close>.
\<close>

record heap =
  hp_next :: nat
  hp_live :: "nat set"
  hp_registered :: "nat \<Rightarrow> nat list"

definition alloc :: "heap \<Rightarrow> nat \<times> heap" where
  "alloc h = (hp_next h, h\<lparr>hp_next := hp_next h + 1, hp_live := insert (hp_next h) (hp_live h)\<rparr>)"

definition free :: "nat \<Rightarrow> heap \<Rightarrow> heap outcome" where
  "free p h = (if p \<in> hp_live h then Ret (h\<lparr>hp_live := hp_live h - {p}\<rparr>) else Undef UseAfterFree)"

definition register_with :: "nat \<Rightarrow> nat \<Rightarrow> heap \<Rightarrow> heap" where
  "register_with component log h = h\<lparr>hp_registered := (hp_registered h)(component := hp_registered h component @ [log])\<rparr>"

record ('w, 'm) ReplicatedLogOptions =
  initial_cluster :: "(u64 \<times> string) list"
  opt_id :: u64
  heartbeat_interval :: u32
  election_timeout :: u32
  opt_taskQueue :: "nat option"
  opt_timer :: "nat option"
  opt_flusher :: "nat option"
  opt_wal :: "'w option"
  opt_memstore :: "'m option"

text \<open>The constructor leaves the id uninitialised, so it is an argument here.\<close>

definition new_ReplicatedLogOptions :: "u64 \<Rightarrow> ('w, 'm) ReplicatedLogOptions" where
  "new_ReplicatedLogOptions indeterminate_id =
     \<lparr>initial_cluster = [], opt_id = indeterminate_id, heartbeat_interval = 100, election_timeout = 10 * 1000,
      opt_taskQueue = None, opt_timer = None, opt_flusher = None, opt_wal = None, opt_memstore = None\<rparr>"

definition Validate :: "('w, 'm) ReplicatedLogOptions \<Rightarrow> ErrorCodes" where
  "Validate opts = (if opt_wal opts = None then BadConfig else OK)"

record ('n, 'msg, 'w, 'm) ReplicatedLog =
  log_address :: nat
  log_impl :: "('n, 'msg, 'w, 'm) ReplicatedLogImpl"
  log_queue :: nat
  log_timer :: nat
  log_flusher :: nat

definition or_new :: "nat option \<Rightarrow> heap \<Rightarrow> nat \<times> heap" where
  "or_new p h = (case p of Some p \<Rightarrow> (p, h) | None \<Rightarrow> alloc h)"

text \<open>
  The components a log is built from, its own address first: each is taken from the options or
  made, and the log is registered with the timer and the flusher.
\<close>

definition New_components :: "('w, 'm) ReplicatedLogOptions \<Rightarrow> heap \<Rightarrow> nat \<times> nat \<times> nat \<times> nat \<times> heap" where
  "New_components opts h =
     (let (impl, h) = alloc h;
          (taskQueue, h) = or_new (opt_taskQueue opts) h;
          (timer, h) = or_new (opt_timer opts) h;
          h = register_with timer impl h;
          (flusher, h) = or_new (opt_flusher opts) h;
          h = register_with flusher impl h
      in (impl, taskQueue, timer, flusher, h))"

definition ReplicatedLog_New :: "('n, 'msg, 'e, 'h, 'm) yaraft \<Rightarrow> 'm \<Rightarrow> ('w, 'm) ReplicatedLogOptions \<Rightarrow> heap
    \<Rightarrow> (ErrorCodes + ('n, 'msg, 'w, 'm) ReplicatedLog) \<times> heap" where
  "ReplicatedLog_New Y MemoryStorage opts h =
     (if Validate opts \<noteq> OK then (Inl (Validate opts), h)
      else
        let memstore = (case opt_memstore opts of None \<Rightarrow> MemoryStorage | Some m \<Rightarrow> m);
            conf = \<lparr>conf_electionTick = election_timeout opts, conf_heartbeatTick = heartbeat_interval opts,
                    conf_id = opt_id opts, conf_storage = memstore, conf_peers = map fst (initial_cluster opts)\<rparr>;
            node = RawNode Y conf;
            cluster = Cluster_Default (initial_cluster opts);
            (impl, taskQueue, timer, flusher, h) = New_components opts h
        in (Inr \<lparr>log_address = impl,
                 log_impl = \<lparr>rl_node = node, rl_observer = [], rl_channels = (\<lambda>_. new_SimpleChannel), rl_cluster = cluster,
                             rl_network = new_network, rl_memstore = memstore, rl_wal = the (opt_wal opts)\<rparr>,
                 log_queue = taskQueue, log_timer = timer, log_flusher = flusher\<rparr>, h))"

text \<open>
  The destructor: the members in the reverse order of their declaration.  Flusher and timer are in
  shared pointers made from the raw pointer of the options, the queue in one of the executor.
\<close>

definition delete_ReplicatedLog :: "('n, 'msg, 'w, 'm) ReplicatedLog \<Rightarrow> heap \<Rightarrow> heap outcome" where
  "delete_ReplicatedLog rl h =
     bind_outcome (free (log_flusher rl) h) (\<lambda>h.
     bind_outcome (free (log_timer rl) h) (\<lambda>h.
     bind_outcome (free (log_queue rl) h) (\<lambda>h.
     free (log_address rl) h)))"

lemma Cluster_Default_keys: "fst ` set (Cluster_Default cs) = fst ` set cs"
proof -
  have "fst ` set (fold (\<lambda>(i, url) peerMap. map_assign i (new_AsyncRaftClient url) peerMap) cs acc) =
      fst ` set acc \<union> fst ` set cs" for acc
  proof (induction cs arbitrary: acc)
    case (Cons x cs)
    have "fst ` set (map_assign (fst x) v acc) = insert (fst x) (fst ` set acc)" for v
      using map_assign_keys [of "fst x" v acc] by simp
    with Cons [of "map_assign (fst x) (new_AsyncRaftClient (snd x)) acc"] show ?case by (cases x) auto
  qed simp
  then show ?thesis by (simp add: Cluster_Default_def)
qed

lemma New_components_spec:
  assumes "New_components opts h = (i, q, t, f, h')"
  shows "(\<forall>p. opt_taskQueue opts = Some p \<longrightarrow> q = p) \<and> (\<forall>p. opt_timer opts = Some p \<longrightarrow> t = p) \<and>
    (\<forall>p. opt_flusher opts = Some p \<longrightarrow> f = p) \<and>
    (t \<noteq> f \<longrightarrow> hp_registered h' t = hp_registered h t @ [i] \<and> hp_registered h' f = hp_registered h f @ [i])"
  using assms
  by (cases "opt_taskQueue opts"; cases "opt_timer opts"; cases "opt_flusher opts")
    (auto simp: New_components_def or_new_def alloc_def register_with_def Let_def)

lemma ReplicatedLog_New_Inr:
  assumes "ReplicatedLog_New Y mem0 opts h = (Inr rl, h')"
  shows "New_components opts h = (log_address rl, log_queue rl, log_timer rl, log_flusher rl, h')"
  using assms by (cases "New_components opts h") (auto simp: ReplicatedLog_New_def Let_def split: if_splits)

lemmas ReplicatedLog_New_owns = New_components_spec [OF ReplicatedLog_New_Inr]

lemma delete_ReplicatedLog_spec:
  "delete_ReplicatedLog rl h =
     (let ps = [log_flusher rl, log_timer rl, log_queue rl, log_address rl] in
      if distinct ps \<and> set ps \<subseteq> hp_live h
      then Ret (h\<lparr>hp_live := hp_live h - {log_flusher rl} - {log_timer rl} - {log_queue rl} - {log_address rl}\<rparr>)
      else Undef UseAfterFree)"
  by (auto simp: delete_ReplicatedLog_def free_def Let_def)

text \<open>
  Building a replicated log.  Without a write-ahead log the options are refused with BadConfig
  and nothing is built.  Otherwise the raft node gets the id, the two timeouts, the members of the
  cluster in the order of their ids and the recovered storage, or an empty one; the log starts
  with no waiting writes, with a peer for every member, and it is registered once with its timer
  and once with its flusher, which are those of the options where they are given.
\<close>

lemma replicated_log_new:
  "(opt_wal opts = None \<longrightarrow> ReplicatedLog_New Y mem0 opts h = (Inl BadConfig, h)) \<and>
   (opt_wal opts = Some w \<longrightarrow>
     (\<exists>rl h'. ReplicatedLog_New Y mem0 opts h = (Inr rl, h') \<and>
       rl_node (log_impl rl) =
         RawNode Y \<lparr>conf_electionTick = election_timeout opts, conf_heartbeatTick = heartbeat_interval opts, conf_id = opt_id opts,
           conf_storage = (case opt_memstore opts of None \<Rightarrow> mem0 | Some m \<Rightarrow> m), conf_peers = map fst (initial_cluster opts)\<rparr> \<and>
       rl_memstore (log_impl rl) = (case opt_memstore opts of None \<Rightarrow> mem0 | Some m \<Rightarrow> m) \<and>
       rl_wal (log_impl rl) = w \<and>
       fresh_impl (log_impl rl) \<and>
       fst ` set (rl_cluster (log_impl rl)) = fst ` set (initial_cluster opts) \<and>
       (\<forall>p. opt_timer opts = Some p \<longrightarrow> log_timer rl = p) \<and> (\<forall>p. opt_flusher opts = Some p \<longrightarrow> log_flusher rl = p) \<and>
       (\<forall>p. opt_taskQueue opts = Some p \<longrightarrow> log_queue rl = p) \<and>
       (log_timer rl \<noteq> log_flusher rl \<longrightarrow>
         hp_registered h' (log_timer rl) = hp_registered h (log_timer rl) @ [log_address rl] \<and>
         hp_registered h' (log_flusher rl) = hp_registered h (log_flusher rl) @ [log_address rl])))"
proof (cases "opt_wal opts")
  case None
  then show ?thesis by (simp add: ReplicatedLog_New_def Validate_def)
next
  case (Some w')
  obtain i q t f h' where "New_components opts h = (i, q, t, f, h')" by (cases "New_components opts h")
  with New_components_spec [OF this] Some show ?thesis
    by (simp add: ReplicatedLog_New_def Validate_def Let_def fresh_impl_def Cluster_Default_keys)
qed

lemma replicated_log_new_example:
  "\<exists>rl h'. ReplicatedLog_New example_yaraft [] ((new_ReplicatedLogOptions 0)\<lparr>opt_id := 1, initial_cluster := example_cluster,
       opt_wal := Some ([] :: bytes list), opt_memstore := Some [[5]]\<rparr>) \<lparr>hp_next = 0, hp_live = {}, hp_registered = \<lambda>_. []\<rparr> = (Inr rl, h') \<and>
     xn_log (rl_node (log_impl rl)) = [[5]] \<and> fresh_impl (log_impl rl)"
proof -
  let ?o = "(new_ReplicatedLogOptions 0)\<lparr>opt_id := 1, initial_cluster := example_cluster, opt_wal := Some [], opt_memstore := Some [[5]]\<rparr>
    :: (bytes list, bytes list) ReplicatedLogOptions"
  let ?h = "\<lparr>hp_next = 0, hp_live = {}, hp_registered = \<lambda>_. []\<rparr>"
  from replicated_log_new [of ?o example_yaraft "[]" ?h "[]"] obtain rl h' where
    "ReplicatedLog_New example_yaraft [] ?o ?h = (Inr rl, h')" "fresh_impl (log_impl rl)"
    "xn_log (rl_node (log_impl rl)) = [[5]]"
    by (auto simp: example_yaraft_def)
  then show ?thesis by blast
qed

text \<open>
  C40. Shared components are destroyed twice.  Although the options say that several logs may share
  a task queue, a timer or a flusher, every log takes ownership of what it is given: when two logs
  are built with the same queue, timer or flusher, destroying the one and then the other deletes it
  a second time.
\<close>

theorem shared_component_double_delete:
  assumes "ReplicatedLog_New Y mem0 opts1 h0 = (Inr rl1, h1)" "ReplicatedLog_New Y mem0 opts2 h1 = (Inr rl2, h2)"
    and "opt_taskQueue opts1 = Some p \<and> opt_taskQueue opts2 = Some p \<or> opt_timer opts1 = Some p \<and> opt_timer opts2 = Some p \<or>
      opt_flusher opts1 = Some p \<and> opt_flusher opts2 = Some p"
    and "delete_ReplicatedLog rl1 h2 = Ret h3"
  shows "delete_ReplicatedLog rl2 h3 = Undef UseAfterFree"
proof -
  from assms(3) ReplicatedLog_New_owns [OF assms(1)] ReplicatedLog_New_owns [OF assms(2)]
  have "p \<in> {log_flusher rl1, log_timer rl1, log_queue rl1}" "p \<in> {log_flusher rl2, log_timer rl2, log_queue rl2}" by auto
  moreover from this(1) assms(4) have "p \<notin> hp_live h3"
    by (auto simp: delete_ReplicatedLog_spec Let_def split: if_splits)
  ultimately show ?thesis by (auto simp: delete_ReplicatedLog_spec Let_def)
qed

definition example_shared :: "(bytes list, bytes list) ReplicatedLogOptions" where
  "example_shared = (new_ReplicatedLogOptions 1)\<lparr>opt_taskQueue := Some 0, opt_wal := Some []\<rparr>"

theorem shared_component_double_delete_witness:
  "\<exists>rl1 h1 rl2 h2 h3. ReplicatedLog_New example_yaraft [] example_shared \<lparr>hp_next = 1, hp_live = {0}, hp_registered = \<lambda>_. []\<rparr> = (Inr rl1, h1) \<and>
     ReplicatedLog_New example_yaraft [] example_shared h1 = (Inr rl2, h2) \<and>
     delete_ReplicatedLog rl1 h2 = Ret h3 \<and> delete_ReplicatedLog rl2 h3 = Undef UseAfterFree"
proof -
  let ?h = "\<lparr>hp_next = 1, hp_live = {0}, hp_registered = \<lambda>_. []\<rparr>"
  let ?n = "ReplicatedLog_New example_yaraft [] example_shared"
  note defs = ReplicatedLog_New_def New_components_def Validate_def example_shared_def new_ReplicatedLogOptions_def Let_def or_new_def alloc_def register_with_def
  obtain rl1 h1 where 1: "?n ?h = (Inr rl1, h1)" "log_flusher rl1 = 3" "log_timer rl1 = 2" "log_queue rl1 = 0" "log_address rl1 = 1"
    "{0, 1, 2, 3} \<subseteq> hp_live h1"
    by (auto simp: defs numeral_eq_Suc)
  obtain rl2 h2 where 2: "?n h1 = (Inr rl2, h2)" "{0, 1, 2, 3} \<subseteq> hp_live h2"
    using 1(6) by (auto simp: defs)
  from 1 2(2) obtain h3 where 3: "delete_ReplicatedLog rl1 h2 = Ret h3" by (simp add: delete_ReplicatedLog_spec)
  have "opt_taskQueue example_shared = Some 0" by (simp add: example_shared_def)
  with shared_component_double_delete [OF 1(1) 2(1) _ 3, of 0] have "delete_ReplicatedLog rl2 h3 = Undef UseAfterFree" by simp
  with 1(1) 2(1) 3 show ?thesis by blast
qed

subsection \<open>Flushes and rounds as steps\<close>

text \<open>A flush that comes to its end is a sequence of steps of the flusher thread.\<close>

lemma flusher_step_call:
  assumes "run_notify s = None" "run_flush s = c # cs" "run_call Y W c (run_impl s) = Some (Ret rl)"
  shows "flusher_step Y W s = Some (Ret (s\<lparr>run_impl := rl, run_flush := cs\<rparr>))"
  using assms by (cases c; cases "rl_observer (run_impl s)") (auto simp: flusher_step_def observer_Notify_Ret)

lemma run_calls_steps:
  "run_calls Y W cs (run_impl s) = (made, Some (Ret rl)) \<Longrightarrow> run_flush s = cs \<Longrightarrow> run_notify s = None \<Longrightarrow>
   rl_steps Y W s (s\<lparr>run_impl := rl, run_flush := []\<rparr>)"
proof (induction cs arbitrary: s made)
  case (Cons c cs)
  from Cons.prems(1) show ?case
  proof (cases rule: run_calls_cases)
    case (ok rl1 made1)
    from flush_call [OF flusher_step_call [OF Cons.prems(3,2) ok(1)]]
      Cons.IH [of "s\<lparr>run_impl := rl1, run_flush := cs\<rparr>" made1] ok(2) Cons.prems(3)
    show ?thesis by (simp add: converse_rtranclp_into_rtranclp)
  next
    case failed
    then show ?thesis by metis
  qed
next
  case Nil
  then have "s\<lparr>run_impl := rl, run_flush := []\<rparr> = s" by (cases s) simp
  then show ?case by simp
qed

lemma flush_steps:
  assumes "run_flush s = []" "node_GetReady Y (rl_node (run_impl s)) = (Some rd, node)" and idle: "run_notify s = None"
    and "flushReady Y W rd ((run_impl s)\<lparr>rl_node := node\<rparr>) = (made, Some (Ret rl))"
  shows "rl_steps Y W s (s\<lparr>run_impl := rl\<rparr>)"
proof -
  let ?s = "s\<lparr>run_impl := (run_impl s)\<lparr>rl_node := node\<rparr>, run_flush := flush_calls Y (node_Id Y node) rd\<rparr>"
  have "rl_steps Y W ?s (?s\<lparr>run_impl := rl, run_flush := []\<rparr>)"
    using assms(4) idle by (intro run_calls_steps) (simp_all add: flushReady_def)
  moreover have "?s\<lparr>run_impl := rl, run_flush := []\<rparr> = s\<lparr>run_impl := rl\<rparr>" using assms(1) by simp
  ultimately have "rl_steps Y W ?s (s\<lparr>run_impl := rl\<rparr>)" by (simp only:)
  with get_ready [OF assms(1,2), of W] show ?thesis by (rule converse_rtranclp_into_rtranclp)
qed

text \<open>A round that comes to its end has flushed what every log had ready, each on its own.\<close>

definition flushed :: "('n, 'msg, 'e, 'h, 'm) yaraft \<Rightarrow> ('e, 'h, 'w) WriteAheadLog \<Rightarrow> ('n, 'msg, 'w, 'm) ReplicatedLogImpl
    \<Rightarrow> ('n, 'msg, 'w, 'm) ReplicatedLogImpl \<Rightarrow> bool" where
  "flushed Y W rl rl' =
     (case node_GetReady Y (rl_node rl) of
        (None, node) \<Rightarrow> rl' = rl\<lparr>rl_node := node\<rparr>
      | (Some rd, node) \<Rightarrow> snd (flushReady Y W rd (rl\<lparr>rl_node := node\<rparr>)) = Some (Ret rl'))"

lemma flushRound_each: "flushRound Y W logs = Some (Ret logs') \<longleftrightarrow> list_all2 (flushed Y W) logs logs'"
proof (induction logs arbitrary: logs')
  case (Cons rl logs)
  have "flushRound Y W (rl # logs) = Some (Ret logs') \<longleftrightarrow>
      (\<exists>rl1 logs1. logs' = rl1 # logs1 \<and> flushed Y W rl rl1 \<and> flushRound Y W logs = Some (Ret logs1))"
    by (auto simp: flushed_def Let_def split: option.splits outcome.splits prod.splits)
  then show ?case unfolding Cons.IH by (simp add: list_all2_Cons1)
qed auto

end
