(* ===== verification/Env.thy ===== *)
theory Env
  imports Status "HOL-Library.Sublist"
begin

section \<open>The file interfaces: base/env.h, base/mock_env.h, base/env_util.cc\<close>

text \<open>
  The abstract classes \<^verbatim>\<open>WritableFile\<close>, \<^verbatim>\<open>RandomAccessFile\<close> and \<^verbatim>\<open>Env\<close> are records of
  their virtual functions: a client that calls through a base-class pointer is modelled by a
  definition that takes such a record.  \<open>'f\<close> is the type of a file object and \<open>'k\<close> the state
  of the operating system behind it.  What a client may rely on is a locale; the POSIX
  implementation and the in-memory one of the tests are interpretations.
\<close>

datatype FlushMode = FLUSH_SYNC | FLUSH_ASYNC

datatype CreateMode = CREATE_IF_NON_EXISTING_TRUNCATE | CREATE_NON_EXISTING | OPEN_EXISTING

record ('f, 'k) WritableFile =
  wf_Append :: "'f \<Rightarrow> bytes \<Rightarrow> 'k \<Rightarrow> ErrorCodes \<times> 'f \<times> 'k"
  wf_PositionedAppend :: "'f \<Rightarrow> bytes \<Rightarrow> u64 \<Rightarrow> 'k \<Rightarrow> ErrorCodes \<times> 'f \<times> 'k"
  wf_PreAllocate :: "'f \<Rightarrow> u64 \<Rightarrow> 'k \<Rightarrow> ErrorCodes \<times> 'f \<times> 'k"
  wf_Close :: "'f \<Rightarrow> 'k \<Rightarrow> ErrorCodes \<times> 'f \<times> 'k"
  wf_Flush :: "'f \<Rightarrow> FlushMode \<Rightarrow> 'k \<Rightarrow> ErrorCodes \<times> 'f \<times> 'k"
  wf_Sync :: "'f \<Rightarrow> 'k \<Rightarrow> ErrorCodes \<times> 'f \<times> 'k"
  wf_Size :: "'f \<Rightarrow> u64"
  wf_Truncate :: "'f \<Rightarrow> u64 \<Rightarrow> 'k \<Rightarrow> ErrorCodes \<times> 'f \<times> 'k"
  wf_filename :: "'f \<Rightarrow> string"

text \<open>The base class answers the optional operations itself.\<close>

definition default_PositionedAppend :: "'f \<Rightarrow> bytes \<Rightarrow> u64 \<Rightarrow> 'k \<Rightarrow> ErrorCodes \<times> 'f \<times> 'k" where
  "default_PositionedAppend f data offset k = (NotSupported, f, k)"

definition default_PreAllocate :: "'f \<Rightarrow> u64 \<Rightarrow> 'k \<Rightarrow> ErrorCodes \<times> 'f \<times> 'k" where
  "default_PreAllocate f sz k = (NotSupported, f, k)"

definition default_Truncate :: "'f \<Rightarrow> u64 \<Rightarrow> 'k \<Rightarrow> ErrorCodes \<times> 'f \<times> 'k" where
  "default_Truncate f sz k = (NotSupported, f, k)"

text \<open>
  A read returns the status and the bytes of the result slice.  Some implementations set the
  slice on an error too; its contents are then not meaningful.
\<close>

record ('r, 'k) RandomAccessFile =
  raf_Read :: "'r \<Rightarrow> u64 \<Rightarrow> nat \<Rightarrow> 'k \<Rightarrow> (ErrorCodes \<times> bytes) \<times> 'k"
  raf_Size :: "'r \<Rightarrow> 'k \<Rightarrow> u64 StatusWith"
  raf_filename :: "'r \<Rightarrow> string"

record ('f, 'r, 'k) Env =
  env_NewWritableFile :: "string \<Rightarrow> CreateMode \<Rightarrow> bool \<Rightarrow> 'k \<Rightarrow> 'f StatusWith \<times> 'k"
  env_NewRandomAccessFile :: "string \<Rightarrow> 'k \<Rightarrow> 'r StatusWith \<times> 'k"
  env_GetFileSize :: "string \<Rightarrow> 'k \<Rightarrow> u64 StatusWith"
  env_CreateDir :: "string \<Rightarrow> 'k \<Rightarrow> ErrorCodes \<times> 'k"
  env_CreateDirIfMissing :: "string \<Rightarrow> 'k \<Rightarrow> ErrorCodes \<times> 'k"
  env_DeleteRecursively :: "string \<Rightarrow> 'k \<Rightarrow> ErrorCodes \<times> 'k"
  env_DeleteFile :: "string \<Rightarrow> 'k \<Rightarrow> ErrorCodes \<times> 'k"
  env_GetChildren :: "string \<Rightarrow> string list \<Rightarrow> 'k \<Rightarrow> (ErrorCodes \<times> string list) outcome"

subsection \<open>The contracts\<close>

text \<open>
  \<open>is_open f k\<close>: the object \<open>f\<close> is a file that can be appended to in state \<open>k\<close>.
  \<open>content f k\<close>: the bytes of that file.
\<close>

locale writable_file =
  fixes ops :: "('f, 'k) WritableFile"
    and is_open :: "'f \<Rightarrow> 'k \<Rightarrow> bool"
    and content :: "'f \<Rightarrow> 'k \<Rightarrow> bytes"
  assumes Size_content: "is_open f k \<Longrightarrow> wf_Size ops f = of_nat (length (content f k))"
    and Append_OK: "is_open f k \<Longrightarrow> wf_Append ops f d k = (OK, f', k') \<Longrightarrow>
          is_open f' k' \<and> content f' k' = content f k @ d"
    and Sync_OK: "is_open f k \<Longrightarrow> wf_Sync ops f k = (s, f', k') \<Longrightarrow>
          is_open f' k' \<and> content f' k' = content f k"

text \<open>
  A file system: \<open>view k\<close> gives the contents of every file, \<open>name f\<close> the path an open file
  was created under.  Creating a file that must not exist adds an empty one; appending changes
  that file only; syncing and closing change none.
\<close>

locale file_system = writable_file ops is_open content
  for ops :: "('f, 'k) WritableFile"
    and is_open :: "'f \<Rightarrow> 'k \<Rightarrow> bool"
    and content :: "'f \<Rightarrow> 'k \<Rightarrow> bytes" +
  fixes env :: "('f, 'r, 'k) Env"
    and name :: "'f \<Rightarrow> string"
    and view :: "'k \<Rightarrow> string \<rightharpoonup> bytes"
  assumes content_view: "is_open f k \<Longrightarrow> view k (name f) = Some (content f k)"
    and New_OK: "env_NewWritableFile env p CREATE_NON_EXISTING False k = (Inr f, k') \<Longrightarrow>
          is_open f k' \<and> content f k' = [] \<and> name f = p \<and> view k p = None \<and>
          view k' = (view k)(p \<mapsto> [])"
    and New_error: "env_NewWritableFile env p md sync k = (Inl e, k') \<Longrightarrow> e \<noteq> OK"
    and Append_view: "is_open f k \<Longrightarrow> wf_Append ops f d k = (OK, f', k') \<Longrightarrow>
          name f' = name f \<and> view k' = (view k)(name f \<mapsto> content f k @ d)"
    and Sync_view: "is_open f k \<Longrightarrow> wf_Sync ops f k = (s, f', k') \<Longrightarrow>
          name f' = name f \<and> view k' = view k"
    and Close_view: "is_open f k \<Longrightarrow> wf_Close ops f k = (s, f', k') \<Longrightarrow> view k' = view k"

text \<open>
  A file system whose failures are torn writes: an append that reports an error has added a
  proper prefix of the bytes to the file, and a file that could not be created is not there.
\<close>

locale torn_file_system = file_system ops is_open content env name view
  for ops :: "('f, 'k) WritableFile"
    and is_open :: "'f \<Rightarrow> 'k \<Rightarrow> bool"
    and content :: "'f \<Rightarrow> 'k \<Rightarrow> bytes"
    and env :: "('f, 'r, 'k) Env"
    and name :: "'f \<Rightarrow> string"
    and view :: "'k \<Rightarrow> string \<rightharpoonup> bytes" +
  assumes Append_torn: "is_open f k \<Longrightarrow> wf_Append ops f d k = (s, f', k') \<Longrightarrow> s \<noteq> OK \<Longrightarrow>
          \<exists>p. strict_prefix p d \<and> view k' = (view k)(name f \<mapsto> content f k @ p)"
    and New_torn: "env_NewWritableFile env p CREATE_NON_EXISTING False k = (Inl e, k') \<Longrightarrow> view k' = view k"

text \<open>
  A file system in a state in which no operation fails: as long as it is quiet, files that do
  not exist can be created, and appends, syncs and closes of open files succeed.
\<close>

locale reliable_file_system = file_system ops is_open content env name view
  for ops :: "('f, 'k) WritableFile"
    and is_open :: "'f \<Rightarrow> 'k \<Rightarrow> bool"
    and content :: "'f \<Rightarrow> 'k \<Rightarrow> bytes"
    and env :: "('f, 'r, 'k) Env"
    and name :: "'f \<Rightarrow> string"
    and view :: "'k \<Rightarrow> string \<rightharpoonup> bytes" +
  fixes quiet :: "'k \<Rightarrow> bool"
  assumes New_quiet: "quiet k \<Longrightarrow> view k p = None \<Longrightarrow>
          \<exists>f k'. env_NewWritableFile env p CREATE_NON_EXISTING False k = (Inr f, k') \<and> quiet k'"
    and Append_quiet: "quiet k \<Longrightarrow> is_open f k \<Longrightarrow> \<exists>f' k'. wf_Append ops f d k = (OK, f', k') \<and> quiet k'"
    and Sync_quiet: "quiet k \<Longrightarrow> is_open f k \<Longrightarrow> \<exists>f' k'. wf_Sync ops f k = (OK, f', k') \<and> quiet k'"
    and Close_quiet: "quiet k \<Longrightarrow> is_open f k \<Longrightarrow> \<exists>f' k'. wf_Close ops f k = (OK, f', k') \<and> quiet k'"

text \<open>
  A file that can be read at any offset: what a successful read returns is a part of it, and
  reading changes no file.
\<close>

locale readable_file =
  fixes ops :: "('r, 'k) RandomAccessFile"
    and is_open :: "'r \<Rightarrow> 'k \<Rightarrow> bool"
    and name :: "'r \<Rightarrow> string"
    and view :: "'k \<Rightarrow> string \<rightharpoonup> bytes"
  assumes Read_OK: "is_open f k \<Longrightarrow> view k (name f) = Some c \<Longrightarrow>
          raf_Read ops f off n k = ((OK, res), k') \<Longrightarrow> (\<exists>m \<le> n. res = take m (drop (unat off) c))"
    and Read_frame: "is_open f k \<Longrightarrow> raf_Read ops f off n k = (r, k') \<Longrightarrow>
          is_open f k' \<and> view k' = view k"

subsection \<open>The in-memory file of the tests: base/mock_env.h\<close>

record MockWritableFile =
  mock_buf :: bytes
  mock_fileName :: string

definition Mock_Append :: "MockWritableFile \<Rightarrow> bytes \<Rightarrow> unit \<Rightarrow> ErrorCodes \<times> MockWritableFile \<times> unit" where
  "Mock_Append f data k = (OK, f\<lparr>mock_buf := mock_buf f @ data\<rparr>, k)"

text \<open>\<^verbatim>\<open>std::string::resize\<close> cuts the string or fills it with NUL bytes.\<close>

definition Mock_Truncate :: "MockWritableFile \<Rightarrow> u64 \<Rightarrow> unit \<Rightarrow> ErrorCodes \<times> MockWritableFile \<times> unit" where
  "Mock_Truncate f sz k =
     (OK, f\<lparr>mock_buf := take (unat sz) (mock_buf f) @ replicate (unat sz - length (mock_buf f)) 0\<rparr>, k)"

definition MockWritableFile_ops :: "(MockWritableFile, unit) WritableFile" where
  "MockWritableFile_ops =
     \<lparr>wf_Append = Mock_Append,
      wf_PositionedAppend = default_PositionedAppend,
      wf_PreAllocate = (\<lambda>f sz k. (NotSupported, f, k)),
      wf_Close = (\<lambda>f k. (OK, f, k)),
      wf_Flush = (\<lambda>f mode k. (OK, f, k)),
      wf_Sync = (\<lambda>f k. (OK, f, k)),
      wf_Size = (\<lambda>f. of_nat (length (mock_buf f))),
      wf_Truncate = Mock_Truncate,
      wf_filename = mock_fileName\<rparr>"

interpretation mock: writable_file MockWritableFile_ops "\<lambda>_ _. True" "\<lambda>f _. mock_buf f"
  by unfold_locales (auto simp: MockWritableFile_ops_def Mock_Append_def)

subsection \<open>Reading a whole file: base/env_util.cc\<close>

text \<open>
  \<open>ReadFully\<close> fills \<open>scratch\<close> from \<open>offset\<close>; \<open>acc\<close> is the part of the buffer that is filled.
  A read that returned more than was asked for would write past the buffer; the check for it
  exists in debug builds only.  An empty read ends the loop with an error, so each round makes
  progress and the loop ends.
\<close>

function ReadFully :: "('r, 'k) RandomAccessFile \<Rightarrow> 'r \<Rightarrow> u64 \<Rightarrow> nat \<Rightarrow> bytes \<Rightarrow> 'k
    \<Rightarrow> (bytes StatusWith \<times> 'k) outcome" where
  "ReadFully ops file offset remain acc k =
     (if remain > 0 then
        case raf_Read ops file offset remain k of
          ((s, this_result), k') \<Rightarrow>
            if s \<noteq> OK then Ret (Inl s, k')
            else if length this_result > remain then Undef OutOfBounds
            else if length this_result = 0 then Ret (Inl IOError, k')
            else ReadFully ops file (offset + of_nat (length this_result))
                   (remain - length this_result) (acc @ this_result) k'
      else Ret (Inr acc, k))"
  by pat_completeness auto
termination
  by (relation "measure (\<lambda>(ops, file, offset, remain, acc, k). remain)")
    (auto simp: neq_Nil_conv)

declare ReadFully.simps [simp del]

definition ReadFullyToBuffer :: "('f, 'r, 'k) Env \<Rightarrow> ('r, 'k) RandomAccessFile \<Rightarrow> string \<Rightarrow> 'k
    \<Rightarrow> (bytes StatusWith \<times> 'k) outcome" where
  "ReadFullyToBuffer env ops fname k =
     (case env_NewRandomAccessFile env fname k of
        (Inl e, k') \<Rightarrow> Ret (Inl e, k')
      | (Inr raf, k') \<Rightarrow>
          (case raf_Size ops raf k' of
             Inl e \<Rightarrow> Ret (Inl e, k')
           | Inr n \<Rightarrow> ReadFully ops raf 0 (unat n) [] k'))"

context readable_file
begin

text \<open>Reading never leaves the buffer, and the bytes it returns are those of the file.\<close>

lemma ReadFully_part:
  assumes "is_open f k" "view k (name f) = Some c" "unat off + remain \<le> length c" "length c < 2 ^ 64"
  shows "\<exists>r k'. ReadFully ops f off remain acc k = Ret (r, k') \<and> is_open f k' \<and> view k' = view k \<and>
    (\<forall>bs. r = Inr bs \<longrightarrow> bs = acc @ take remain (drop (unat off) c))"
  using assms
proof (induction remain arbitrary: off acc k rule: less_induct)
  case (less remain)
  obtain s res k1 where rd: "raf_Read ops f off remain k = ((s, res), k1)"
    by (metis prod.exhaust)
  have frame: "is_open f k1" "view k1 = view k"
    using Read_frame [OF less.prems(1) rd] by simp_all
  show ?case
  proof (cases "remain > 0 \<and> s = OK \<and> res \<noteq> []")
    case True
    with Read_OK [OF less.prems(1,2)] rd obtain m where m: "m \<le> remain"
      "res = take m (drop (unat off) c)" by blast
    let ?n = "length res"
    from m(2) have res: "res = take ?n (drop (unat off) c)" by (simp add: min_def)
    have n: "?n \<le> remain" "0 < ?n" using m True by auto
    then have lt: "remain - ?n < remain" by linarith
    have off: "unat (off + of_nat ?n) = unat off + ?n"
      using n less.prems(3,4) by (simp add: unat_word_ariths unat_of_nat)
    have "\<exists>r k'. ReadFully ops f (off + of_nat ?n) (remain - ?n) (acc @ res) k1 = Ret (r, k') \<and>
        is_open f k' \<and> view k' = view k1 \<and>
        (\<forall>bs. r = Inr bs \<longrightarrow> bs = (acc @ res) @ take (remain - ?n) (drop (unat (off + of_nat ?n)) c))"
      using n less.prems frame by (intro less.IH) (auto simp: off lt)
    moreover have "res @ take (remain - ?n) (drop (unat off + ?n) c) = take remain (drop (unat off) c)"
      using n by (subst (1) res) (simp add: take_add [symmetric] add.commute flip: drop_drop)
    ultimately show ?thesis
      using True rd n frame by (subst ReadFully.simps) (auto simp: off)
  next
    case False
    with less.prems(1) rd frame show ?thesis
      by (subst ReadFully.simps) auto
  qed
qed

end

end
