(* ===== verification/EnvPosix.thy ===== *)
theory EnvPosix
  imports Env "HOL-Library.AList"
begin

section \<open>The POSIX file layer: base/env_posix.cc\<close>

text \<open>
  The system calls the code makes are modelled over an explicit kernel state: the files, the
  table of open descriptors with their offsets, and a list of answers with which the kernel
  departs from doing all that was asked (a short transfer, an error, \<^verbatim>\<open>EINTR\<close>).  Any finite
  list of such answers is possible; when it is used up every call does its full work.  The
  calls made are recorded in order.
\<close>

datatype errno = EINTR | EBADF | EEXIST | ENOENT | EOther nat

datatype sys_answer = Transfer nat | Fail errno

datatype syscall =
    SysOpen string
  | SysWrite int
  | SysPwrite int
  | SysPread int
  | SysFdatasync int
  | SysFtruncate int
  | SysSyncFileRange int
  | SysClose int

record kernel =
  k_files :: "(string \<times> bytes) list"
  k_fds :: "int \<rightharpoonup> string \<times> nat"
  k_next :: int
  k_answers :: "sys_answer list"
  k_calls :: "syscall list"

abbreviation file_map :: "kernel \<Rightarrow> string \<rightharpoonup> bytes" where
  "file_map k \<equiv> map_of (k_files k)"

definition sys_enter :: "syscall \<Rightarrow> kernel \<Rightarrow> sys_answer option \<times> kernel" where
  "sys_enter c k =
     (case k_answers k of
        [] \<Rightarrow> (None, k\<lparr>k_calls := k_calls k @ [c]\<rparr>)
      | a # as \<Rightarrow> (Some a, k\<lparr>k_calls := k_calls k @ [c], k_answers := as\<rparr>))"

definition splice :: "nat \<Rightarrow> bytes \<Rightarrow> bytes \<Rightarrow> bytes" where
  "splice off d c = take off (c @ replicate (off - length c) 0) @ d @ drop (off + length d) c"

definition transferred :: "sys_answer option \<Rightarrow> nat \<Rightarrow> nat" where
  "transferred a n = (case a of Some (Transfer m) \<Rightarrow> min m n | _ \<Rightarrow> n)"

definition sys_write :: "int \<Rightarrow> bytes \<Rightarrow> kernel \<Rightarrow> (errno + nat) \<times> kernel" where
  "sys_write fd d k =
     (case sys_enter (SysWrite fd) k of
        (Some (Fail e), k') \<Rightarrow> (Inl e, k')
      | (a, k') \<Rightarrow>
          (case k_fds k' fd of
             None \<Rightarrow> (Inl EBADF, k')
           | Some (p, off) \<Rightarrow>
               let n = transferred a (length d); c = the (file_map k' p) in
               (Inr n, k'\<lparr>k_files := AList.update p (splice off (take n d) c) (k_files k'),
                         k_fds := (k_fds k')(fd \<mapsto> (p, off + n))\<rparr>)))"

definition sys_pwrite :: "int \<Rightarrow> bytes \<Rightarrow> nat \<Rightarrow> kernel \<Rightarrow> (errno + nat) \<times> kernel" where
  "sys_pwrite fd d off k =
     (case sys_enter (SysPwrite fd) k of
        (Some (Fail e), k') \<Rightarrow> (Inl e, k')
      | (a, k') \<Rightarrow>
          (case k_fds k' fd of
             None \<Rightarrow> (Inl EBADF, k')
           | Some (p, _) \<Rightarrow>
               let n = transferred a (length d); c = the (file_map k' p) in
               (Inr n, k'\<lparr>k_files := AList.update p (splice off (take n d) c) (k_files k')\<rparr>)))"

definition sys_pread :: "int \<Rightarrow> nat \<Rightarrow> nat \<Rightarrow> kernel \<Rightarrow> (errno + bytes) \<times> kernel" where
  "sys_pread fd n off k =
     (case sys_enter (SysPread fd) k of
        (Some (Fail e), k') \<Rightarrow> (Inl e, k')
      | (a, k') \<Rightarrow>
          (case k_fds k' fd of
             None \<Rightarrow> (Inl EBADF, k')
           | Some (p, _) \<Rightarrow> (Inr (take (transferred a n) (drop off (the (file_map k' p)))), k')))"

definition sys_open :: "string \<Rightarrow> bool \<Rightarrow> bool \<Rightarrow> bool \<Rightarrow> kernel \<Rightarrow> (errno + int) \<times> kernel" where
  "sys_open p creat excl trunc k =
     (case sys_enter (SysOpen p) k of
        (Some (Fail e), k') \<Rightarrow> (Inl e, k')
      | (_, k') \<Rightarrow>
          let opened = k'\<lparr>k_fds := (k_fds k')(k_next k' \<mapsto> (p, 0)), k_next := k_next k' + 1\<rparr> in
          (case file_map k' p of
             Some c \<Rightarrow>
               if creat \<and> excl then (Inl EEXIST, k')
               else (Inr (k_next k'), if trunc then opened\<lparr>k_files := AList.update p [] (k_files k')\<rparr> else opened)
           | None \<Rightarrow>
               if creat then (Inr (k_next k'), opened\<lparr>k_files := AList.update p [] (k_files k')\<rparr>)
               else (Inl ENOENT, k')))"

text \<open>Calls that transfer no data: an error, or success with the given effect.\<close>

definition sys_simple :: "syscall \<Rightarrow> (kernel \<Rightarrow> kernel) \<Rightarrow> kernel \<Rightarrow> errno option \<times> kernel" where
  "sys_simple c effect k =
     (case sys_enter c k of (Some (Fail e), k') \<Rightarrow> (Some e, k') | (_, k') \<Rightarrow> (None, effect k'))"

definition sys_fdatasync :: "int \<Rightarrow> kernel \<Rightarrow> errno option \<times> kernel" where
  "sys_fdatasync fd = sys_simple (SysFdatasync fd) id"

definition sys_sync_file_range :: "int \<Rightarrow> kernel \<Rightarrow> errno option \<times> kernel" where
  "sys_sync_file_range fd = sys_simple (SysSyncFileRange fd) id"

definition sys_ftruncate :: "int \<Rightarrow> nat \<Rightarrow> kernel \<Rightarrow> errno option \<times> kernel" where
  "sys_ftruncate fd n = sys_simple (SysFtruncate fd) (\<lambda>k.
     case k_fds k fd of
       None \<Rightarrow> k
     | Some (p, _) \<Rightarrow>
         let c = the (file_map k p) in
         k\<lparr>k_files := AList.update p (take n c @ replicate (n - length c) 0) (k_files k)\<rparr>)"

definition sys_close :: "int \<Rightarrow> kernel \<Rightarrow> errno option \<times> kernel" where
  "sys_close fd k =
     (case sys_simple (SysClose fd) id k of (e, k') \<Rightarrow> (e, k'\<lparr>k_fds := (k_fds k')(fd := None)\<rparr>))"

subsection \<open>The filesystem library\<close>

text \<open>
  \<^verbatim>\<open>boost::filesystem\<close> is not part of the repository.  Each call reports through an error
  code (\<^const>\<open>True\<close>: an error); \<open>directory_iterator\<close> throws instead (\<^const>\<open>None\<close>).
\<close>

record fslib =
  fs_file_size :: "string \<Rightarrow> kernel \<Rightarrow> bool \<times> u64"
  fs_create_directory :: "string \<Rightarrow> kernel \<Rightarrow> bool \<times> kernel"
  fs_create_directories :: "string \<Rightarrow> kernel \<Rightarrow> bool \<times> kernel"
  fs_remove_all :: "string \<Rightarrow> kernel \<Rightarrow> bool \<times> kernel"
  fs_remove :: "string \<Rightarrow> kernel \<Rightarrow> bool \<times> kernel"
  fs_is_directory :: "string \<Rightarrow> kernel \<Rightarrow> bool \<times> bool"
  fs_directory_iterator :: "string \<Rightarrow> kernel \<Rightarrow> string list option"

subsection \<open>PosixWritableFile\<close>

record PosixWritableFile =
  pf_filename :: string
  pf_fd :: int
  pf_sync_on_close :: bool
  pf_filesize :: u64
  pf_pre_allocated_size :: u64
  pf_pending_sync :: bool

definition new_PosixWritableFile :: "string \<Rightarrow> int \<Rightarrow> u64 \<Rightarrow> bool \<Rightarrow> PosixWritableFile" where
  "new_PosixWritableFile fname fd file_size sync_on_close =
     \<lparr>pf_filename = fname, pf_fd = fd, pf_sync_on_close = sync_on_close, pf_filesize = file_size,
      pf_pre_allocated_size = 0, pf_pending_sync = False\<rparr>"

definition DoSync :: "int \<Rightarrow> kernel \<Rightarrow> ErrorCodes \<times> kernel" where
  "DoSync fd k = (case sys_fdatasync fd k of (Some e, k') \<Rightarrow> (IOError, k') | (None, k') \<Rightarrow> (OK, k'))"

definition DoOpen :: "string \<Rightarrow> CreateMode \<Rightarrow> kernel \<Rightarrow> int StatusWith \<times> kernel" where
  "DoOpen filename mode k =
     (case (case mode of
              CREATE_IF_NON_EXISTING_TRUNCATE \<Rightarrow> sys_open filename True False True k
            | CREATE_NON_EXISTING \<Rightarrow> sys_open filename True True False k
            | OPEN_EXISTING \<Rightarrow> sys_open filename False False False k) of
        (Inl e, k') \<Rightarrow> (Inl IOError, k')
      | (Inr f, k') \<Rightarrow> (Inr f, k'))"

definition DoGetFileSize :: "fslib \<Rightarrow> string \<Rightarrow> kernel \<Rightarrow> u64 StatusWith" where
  "DoGetFileSize B fname k =
     (case fs_file_size B fname k of (code, fsize) \<Rightarrow> if code then Inl IOError else Inr fsize)"

text \<open>The write loop repeats on \<^verbatim>\<open>EINTR\<close> and goes on behind what was written.\<close>

lemma sys_enter_answers:
  "sys_enter c k = (a, k') \<Longrightarrow>
   k_files k' = k_files k \<and> k_fds k' = k_fds k \<and> k_next k' = k_next k \<and>
   k_calls k' = k_calls k @ [c] \<and>
   (if a = None then k_answers k = [] \<and> k_answers k' = [] else k_answers k = the a # k_answers k')"
  by (auto simp: sys_enter_def split: list.splits)

lemma sys_write_EINTR:
  "sys_write fd d k = (Inl EINTR, k') \<Longrightarrow> length (k_answers k') < length (k_answers k)"
  by (auto simp: sys_write_def Let_def dest!: sys_enter_answers
      split: prod.splits option.splits sys_answer.splits if_splits)

lemma sys_write_done:
  "sys_write fd d k = (Inr n, k') \<Longrightarrow> d \<noteq> [] \<Longrightarrow>
   length (k_answers k') + length (drop n d) < length (k_answers k) + length d"
  by (auto simp: sys_write_def Let_def transferred_def dest!: sys_enter_answers
      split: prod.splits option.splits sys_answer.splits if_splits)

function Append_loop :: "int \<Rightarrow> bytes \<Rightarrow> kernel \<Rightarrow> errno option \<times> kernel" where
  "Append_loop fd src k =
     (if src \<noteq> [] then
        (case sys_write fd src k of
           (Inl e, k') \<Rightarrow> if e = EINTR then Append_loop fd src k' else (Some e, k')
         | (Inr n, k') \<Rightarrow> Append_loop fd (drop n src) k')
      else (None, k))"
  by pat_completeness auto
termination
  by (relation "measure (\<lambda>(fd, src, k). length (k_answers k) + length src)")
    (auto dest!: sys_write_EINTR [OF sym] sys_write_done [OF sym])

declare Append_loop.simps [simp del]

definition Posix_Append :: "PosixWritableFile \<Rightarrow> bytes \<Rightarrow> kernel \<Rightarrow> ErrorCodes \<times> PosixWritableFile \<times> kernel" where
  "Posix_Append f data k =
     (case Append_loop (pf_fd f) data k of
        (Some e, k') \<Rightarrow> (IOError, f, k')
      | (None, k') \<Rightarrow> (OK, f\<lparr>pf_filesize := pf_filesize f + of_nat (length data)\<rparr>, k'))"

lemma sys_pwrite_EINTR:
  "sys_pwrite fd d off k = (Inl EINTR, k') \<Longrightarrow> length (k_answers k') < length (k_answers k)"
  by (auto simp: sys_pwrite_def Let_def dest!: sys_enter_answers
      split: prod.splits option.splits sys_answer.splits if_splits)

lemma sys_pwrite_done:
  "sys_pwrite fd d off k = (Inr n, k') \<Longrightarrow> d \<noteq> [] \<Longrightarrow>
   length (k_answers k') + length (drop n d) < length (k_answers k) + length d"
  by (auto simp: sys_pwrite_def Let_def transferred_def dest!: sys_enter_answers
      split: prod.splits option.splits sys_answer.splits if_splits)

function PositionedAppend_loop :: "int \<Rightarrow> bytes \<Rightarrow> u64 \<Rightarrow> kernel \<Rightarrow> (errno + u64) \<times> kernel" where
  "PositionedAppend_loop fd src offset k =
     (if src \<noteq> [] then
        (case sys_pwrite fd src (unat offset) k of
           (Inl e, k') \<Rightarrow> if e = EINTR then PositionedAppend_loop fd src offset k' else (Inl e, k')
         | (Inr n, k') \<Rightarrow> PositionedAppend_loop fd (drop n src) (offset + of_nat n) k')
      else (Inr offset, k))"
  by pat_completeness auto
termination
  by (relation "measure (\<lambda>(fd, src, offset, k). length (k_answers k) + length src)")
    (auto dest!: sys_pwrite_EINTR [OF sym] sys_pwrite_done [OF sym])

declare PositionedAppend_loop.simps [simp del]

definition Posix_PositionedAppend ::
    "PosixWritableFile \<Rightarrow> bytes \<Rightarrow> u64 \<Rightarrow> kernel \<Rightarrow> ErrorCodes \<times> PosixWritableFile \<times> kernel" where
  "Posix_PositionedAppend f data offset k =
     (case PositionedAppend_loop (pf_fd f) data offset k of
        (Inl e, k') \<Rightarrow> (IOError, f, k')
      | (Inr offset', k') \<Rightarrow> (OK, f\<lparr>pf_filesize := offset'\<rparr>, k'))"

definition Posix_Sync :: "PosixWritableFile \<Rightarrow> kernel \<Rightarrow> ErrorCodes \<times> PosixWritableFile \<times> kernel" where
  "Posix_Sync f k =
     (if pf_pending_sync f then
        let f' = f\<lparr>pf_pending_sync := False\<rparr> in
        case DoSync (pf_fd f) k of (s, k') \<Rightarrow> (s, f', k')
      else (OK, f, k))"

definition Posix_Flush ::
    "PosixWritableFile \<Rightarrow> FlushMode \<Rightarrow> kernel \<Rightarrow> ErrorCodes \<times> PosixWritableFile \<times> kernel" where
  "Posix_Flush f mode k =
     (case sys_sync_file_range (pf_fd f) k of
        (Some e, k') \<Rightarrow> (IOError, f, k')
      | (None, k') \<Rightarrow> (OK, f, k'))"

text \<open>\<^verbatim>\<open>RETRY_ON_EINTR\<close> around \<^verbatim>\<open>ftruncate\<close>.\<close>

lemma sys_simple_EINTR:
  "sys_simple c eff k = (Some EINTR, k') \<Longrightarrow> length (k_answers k') < length (k_answers k)"
  by (auto simp: sys_simple_def dest!: sys_enter_answers
      split: prod.splits option.splits sys_answer.splits if_splits)

function ftruncate_retry :: "int \<Rightarrow> nat \<Rightarrow> kernel \<Rightarrow> errno option \<times> kernel" where
  "ftruncate_retry fd n k =
     (case sys_ftruncate fd n k of
        (Some e, k') \<Rightarrow> if e = EINTR then ftruncate_retry fd n k' else (Some e, k')
      | (None, k') \<Rightarrow> (None, k'))"
  by pat_completeness auto
termination
  by (relation "measure (\<lambda>(fd, n, k). length (k_answers k))")
    (auto simp: sys_ftruncate_def dest!: sys_simple_EINTR [OF sym])

declare ftruncate_retry.simps [simp del]

text \<open>
  \<^verbatim>\<open>Close\<close> tests \<^verbatim>\<open>s.OK()\<close> and \<^verbatim>\<open>sync_status.OK()\<close>.  \<^verbatim>\<open>OK\<close> is the static function that
  makes the success status (it is called as \<^verbatim>\<open>Status::OK()\<close> everywhere else), so both tests
  are the truth value \<open>ok_bool\<close> that the status library gives to the success status, whatever
  \<^verbatim>\<open>s\<close> and \<^verbatim>\<open>sync_status\<close> are.
\<close>

definition Posix_Close ::
    "bool \<Rightarrow> PosixWritableFile \<Rightarrow> kernel \<Rightarrow> ErrorCodes \<times> PosixWritableFile \<times> kernel" where
  "Posix_Close ok_bool f k =
     (let (s1, f1, k1) =
        (if pf_filesize f < pf_pre_allocated_size f then
           (case ftruncate_retry (pf_fd f) (unat (pf_filesize f)) k of
              (Some e, k') \<Rightarrow> (IOError, f\<lparr>pf_pending_sync := True\<rparr>, k')
            | (None, k') \<Rightarrow> (OK, f, k'))
         else (OK, f, k));
      (s2, f2, k2) =
        (if pf_sync_on_close f1 then
           (case Posix_Sync f1 k1 of
              (sync_status, f', k') \<Rightarrow>
                (if \<not> ok_bool then (if ok_bool then sync_status else s1) else s1, f', k'))
         else (s1, f1, k1));
      (s3, k3) =
        (case sys_close (pf_fd f2) k2 of
           (Some e, k') \<Rightarrow> (if ok_bool then IOError else s2, k')
         | (None, k') \<Rightarrow> (s2, k'))
      in (s3, f2\<lparr>pf_fd := -1\<rparr>, k3))"

text \<open>The destructor closes a file that is still open; a failure is only logged.\<close>

definition delete_PosixWritableFile :: "bool \<Rightarrow> PosixWritableFile \<Rightarrow> kernel \<Rightarrow> kernel" where
  "delete_PosixWritableFile ok_bool f k = (if 0 \<le> pf_fd f then snd (snd (Posix_Close ok_bool f k)) else k)"

definition PosixWritableFile_ops :: "bool \<Rightarrow> (PosixWritableFile, kernel) WritableFile" where
  "PosixWritableFile_ops ok_bool =
     \<lparr>wf_Append = Posix_Append,
      wf_PositionedAppend = Posix_PositionedAppend,
      wf_PreAllocate = default_PreAllocate,
      wf_Close = Posix_Close ok_bool,
      wf_Flush = Posix_Flush,
      wf_Sync = Posix_Sync,
      wf_Size = pf_filesize,
      wf_Truncate = default_Truncate,
      wf_filename = pf_filename\<rparr>"

subsection \<open>PosixRandomAccessFile\<close>

record PosixRandomAccessFile =
  pr_filename :: string
  pr_fd :: int

lemma sys_pread_EINTR:
  "sys_pread fd n off k = (Inl EINTR, k') \<Longrightarrow> length (k_answers k') < length (k_answers k)"
  by (auto simp: sys_pread_def dest!: sys_enter_answers
      split: prod.splits option.splits sys_answer.splits if_splits)

function pread_retry :: "int \<Rightarrow> nat \<Rightarrow> nat \<Rightarrow> kernel \<Rightarrow> (errno + bytes) \<times> kernel" where
  "pread_retry fd n off k =
     (case sys_pread fd n off k of
        (Inl e, k') \<Rightarrow> if e = EINTR then pread_retry fd n off k' else (Inl e, k')
      | (Inr bs, k') \<Rightarrow> (Inr bs, k'))"
  by pat_completeness auto
termination
  by (relation "measure (\<lambda>(fd, n, off, k). length (k_answers k))")
    (auto dest!: sys_pread_EINTR [OF sym])

declare pread_retry.simps [simp del]

text \<open>
  On an error the result slice is given the length \<open>-1\<close> converted to \<^verbatim>\<open>size_t\<close>; no caller
  looks at it, and the model returns no bytes there.
\<close>

definition Posix_Read ::
    "PosixRandomAccessFile \<Rightarrow> u64 \<Rightarrow> nat \<Rightarrow> kernel \<Rightarrow> (ErrorCodes \<times> bytes) \<times> kernel" where
  "Posix_Read f offset n k =
     (case pread_retry (pr_fd f) n (unat offset) k of
        (Inl e, k') \<Rightarrow> ((IOError, []), k')
      | (Inr bs, k') \<Rightarrow> ((OK, bs), k'))"

definition PosixRandomAccessFile_ops :: "fslib \<Rightarrow> (PosixRandomAccessFile, kernel) RandomAccessFile" where
  "PosixRandomAccessFile_ops B =
     \<lparr>raf_Read = Posix_Read,
      raf_Size = (\<lambda>f. DoGetFileSize B (pr_filename f)),
      raf_filename = pr_filename\<rparr>"

subsection \<open>PosixEnv\<close>

definition Posix_NewWritableFile ::
    "fslib \<Rightarrow> string \<Rightarrow> CreateMode \<Rightarrow> bool \<Rightarrow> kernel \<Rightarrow> PosixWritableFile StatusWith \<times> kernel" where
  "Posix_NewWritableFile B fname mode sync_on_close k =
     (case (if mode = OPEN_EXISTING then DoGetFileSize B fname k else Inr 0) of
        Inl e \<Rightarrow> (Inl e, k)
      | Inr file_size \<Rightarrow>
          (case DoOpen fname mode k of
             (Inl e, k') \<Rightarrow> (Inl e, k')
           | (Inr fd, k') \<Rightarrow> (Inr (new_PosixWritableFile fname fd file_size sync_on_close), k')))"

definition Posix_NewRandomAccessFile ::
    "string \<Rightarrow> kernel \<Rightarrow> PosixRandomAccessFile StatusWith \<times> kernel" where
  "Posix_NewRandomAccessFile fname k =
     (case sys_open fname False False False k of
        (Inl e, k') \<Rightarrow> (Inl IOError, k')
      | (Inr fd, k') \<Rightarrow> (Inr \<lparr>pr_filename = fname, pr_fd = fd\<rparr>, k'))"

definition boost_status :: "bool \<times> kernel \<Rightarrow> ErrorCodes \<times> kernel" where
  "boost_status r = (case r of (code, k) \<Rightarrow> (if code then IOError else OK, k))"

definition Posix_GetChildren ::
    "fslib \<Rightarrow> string \<Rightarrow> string list \<Rightarrow> kernel \<Rightarrow> (ErrorCodes \<times> string list) outcome" where
  "Posix_GetChildren B dir res k =
     (case fs_is_directory B dir k of
        (code, isDir) \<Rightarrow>
          if code then Ret (IOError, res)
          else if \<not> isDir then Fatal
          else (case fs_directory_iterator B dir k of
                  None \<Rightarrow> Fatal
                | Some es \<Rightarrow> Ret (OK, res @ es)))"

definition PosixEnv :: "fslib \<Rightarrow> (PosixWritableFile, PosixRandomAccessFile, kernel) Env" where
  "PosixEnv B =
     \<lparr>env_NewWritableFile = Posix_NewWritableFile B,
      env_NewRandomAccessFile = Posix_NewRandomAccessFile,
      env_GetFileSize = DoGetFileSize B,
      env_CreateDir = (\<lambda>d k. boost_status (fs_create_directory B d k)),
      env_CreateDirIfMissing = (\<lambda>d k. boost_status (fs_create_directories B d k)),
      env_DeleteRecursively = (\<lambda>d k. boost_status (fs_remove_all B d k)),
      env_DeleteFile = (\<lambda>d k. boost_status (fs_remove B d k)),
      env_GetChildren = Posix_GetChildren B\<rparr>"

subsection \<open>The contracts hold\<close>

definition posix_content :: "PosixWritableFile \<Rightarrow> kernel \<Rightarrow> bytes" where
  "posix_content f k = the (file_map k (pf_filename f))"

definition posix_open :: "PosixWritableFile \<Rightarrow> kernel \<Rightarrow> bool" where
  "posix_open f k \<longleftrightarrow>
     file_map k (pf_filename f) = Some (posix_content f k) \<and>
     k_fds k (pf_fd f) = Some (pf_filename f, length (posix_content f k)) \<and>
     pf_filesize f = of_nat (length (posix_content f k)) \<and>
     pf_pre_allocated_size f = 0 \<and> \<not> pf_pending_sync f"

lemma splice_end [simp]: "splice (length c) d c = c @ d"
  by (simp add: splice_def)

lemma sys_write_end:
  assumes "sys_write fd d k = (Inr n, k')" "k_fds k fd = Some (p, length c)" "file_map k p = Some c"
  shows "n \<le> length d \<and> k_fds k' fd = Some (p, length (c @ take n d)) \<and> 
    file_map k' = (file_map k)(p \<mapsto> c @ take n d)"
  using assms
  by (auto simp: sys_write_def Let_def transferred_def update_conv' dest!: sys_enter_answers
      split: prod.splits option.splits sys_answer.splits if_splits)

lemma sys_write_Inl: "sys_write fd d k = (Inl e, k') \<Longrightarrow> k_fds k' = k_fds k \<and> k_files k' = k_files k"
  by (auto simp: sys_write_def Let_def dest!: sys_enter_answers
      split: prod.splits option.splits sys_answer.splits if_splits)

lemma Append_loop_Nil [simp]: "Append_loop fd [] k = (None, k)"
  by (simp add: Append_loop.simps)

lemma Append_loop_end:
  "Append_loop fd src k = (None, k') \<Longrightarrow> k_fds k fd = Some (p, length c) \<Longrightarrow> file_map k p = Some c \<Longrightarrow>
   k_fds k' fd = Some (p, length (c @ src)) \<and> file_map k' = (file_map k)(p \<mapsto> c @ src)"
proof (induction fd src k arbitrary: c rule: Append_loop.induct)
  case (1 fd src k)
  show ?case
  proof (cases "src = []")
    case True
    with "1.prems" show ?thesis by (auto simp: fun_upd_idem)
  next
    case False
    obtain r k1 where w: "sys_write fd src k = (r, k1)" by (cases "sys_write fd src k")
    show ?thesis
    proof (cases r)
      case (Inl e)
      with w have fr: "k_fds k1 = k_fds k \<and> k_files k1 = k_files k" using sys_write_Inl by blast
      have "e = EINTR \<and> Append_loop fd src k1 = (None, k')"
        using "1.prems"(1) False w Inl by (subst (asm) Append_loop.simps) (auto split: if_splits)
      then show ?thesis using "1.IH"(1) [OF False w [symmetric] Inl] fr "1.prems" by simp
    next
      case (Inr n)
      from sys_write_end [OF _ "1.prems"(2,3)] w Inr have st:
        "n \<le> length src" "k_fds k1 fd = Some (p, length (c @ take n src))"
        "file_map k1 = (file_map k)(p \<mapsto> c @ take n src)" by auto
      have "Append_loop fd (drop n src) k1 = (None, k')"
        using "1.prems"(1) False w Inr by (subst (asm) Append_loop.simps) simp
      then have "k_fds k' fd = Some (p, length ((c @ take n src) @ drop n src)) \<and>
          file_map k' = (file_map k1)(p \<mapsto> (c @ take n src) @ drop n src)"
        by (rule "1.IH"(2) [OF False w [symmetric] Inr]) (simp_all add: st del: append_assoc)
      then show ?thesis using st by (auto simp: fun_eq_iff)
    qed
  qed
qed

lemma Posix_Append_OK:
  assumes "posix_open f k" "Posix_Append f d k = (OK, f', k')"
  shows "posix_open f' k' \<and> posix_content f' k' = posix_content f k @ d \<and> pf_filename f' = pf_filename f \<and>
    file_map k' = (file_map k)(pf_filename f \<mapsto> posix_content f k @ d)"
proof -
  from assms(2) have l: "Append_loop (pf_fd f) d k = (None, k')"
    and f': "f' = f\<lparr>pf_filesize := pf_filesize f + of_nat (length d)\<rparr>"
    by (auto simp: Posix_Append_def split: prod.splits option.splits)
  from Append_loop_end [OF l] assms(1) show ?thesis
    by (auto simp: f' posix_open_def posix_content_def)
qed

lemma Posix_Sync_open: "posix_open f k \<Longrightarrow> Posix_Sync f k = (s, f', k') \<Longrightarrow> s = OK \<and> f' = f \<and> k' = k"
  by (simp add: posix_open_def Posix_Sync_def)

lemma sys_simple_frame: "sys_simple c id k = (e, k') \<Longrightarrow> k_files k' = k_files k \<and> k_fds k' = k_fds k"
  by (auto simp: sys_simple_def dest!: sys_enter_answers
      split: prod.splits option.splits sys_answer.splits if_splits)

lemma sys_close_files: "sys_close fd k = (e, k') \<Longrightarrow> k_files k' = k_files k"
  by (auto simp: sys_close_def dest: sys_simple_frame split: prod.splits)

lemma Posix_Close_files:
  "posix_open f k \<Longrightarrow> Posix_Close b f k = (s, f', k') \<Longrightarrow> k_files k' = k_files k"
  by (auto simp: Posix_Close_def Let_def posix_open_def Posix_Sync_def dest: sys_close_files
      split: prod.splits option.splits if_splits)

lemma delete_PosixWritableFile_files:
  "posix_open f k \<Longrightarrow> k_files (delete_PosixWritableFile b f k) = k_files k"
  by (cases "Posix_Close b f k") (simp add: delete_PosixWritableFile_def Posix_Close_files)

lemma delete_closed: "Posix_Close b f k = (s, f', k') \<Longrightarrow> delete_PosixWritableFile b' f' k' = k'"
  by (auto simp: Posix_Close_def delete_PosixWritableFile_def Let_def split: prod.splits)

lemma Posix_New_OK:
  "Posix_NewWritableFile B p CREATE_NON_EXISTING sync k = (Inr f, k') \<Longrightarrow>
   posix_open f k' \<and> posix_content f k' = [] \<and> pf_filename f = p \<and> file_map k p = None \<and>
   file_map k' = (file_map k)(p \<mapsto> [])"
  by (auto simp: Posix_NewWritableFile_def DoOpen_def sys_open_def Let_def new_PosixWritableFile_def
      posix_open_def posix_content_def update_conv' dest!: sys_enter_answers
      split: prod.splits option.splits sum.splits sys_answer.splits if_splits)

lemma Posix_New_error: "Posix_NewWritableFile B p mode sync k = (Inl e, k') \<Longrightarrow> e = IOError"
  by (auto simp: Posix_NewWritableFile_def DoOpen_def DoGetFileSize_def split: prod.splits sum.splits if_splits)

interpretation posix: file_system "PosixWritableFile_ops ok_bool" posix_open posix_content "PosixEnv B" pf_filename file_map
proof (unfold_locales, goal_cases)
  case (1 f k)
  then show ?case by (simp add: posix_open_def PosixWritableFile_ops_def)
next
  case (2 f k d f' k')
  then show ?case by (auto simp: PosixWritableFile_ops_def dest: Posix_Append_OK)
next
  case (3 f k s f' k')
  then show ?case by (auto simp: PosixWritableFile_ops_def dest: Posix_Sync_open)
next
  case (4 f k)
  then show ?case by (simp add: posix_open_def)
next
  case (5 p k f k')
  then show ?case by (simp add: PosixEnv_def Posix_New_OK)
next
  case (6 p md sync k e k')
  then show ?case by (auto simp: PosixEnv_def dest: Posix_New_error)
next
  case (7 f k d f' k')
  then show ?case by (auto simp: PosixWritableFile_ops_def dest: Posix_Append_OK)
next
  case (8 f k s f' k')
  then show ?case by (auto simp: PosixWritableFile_ops_def dest: Posix_Sync_open)
next
  case (9 f k s f' k')
  then show ?case by (auto simp: PosixWritableFile_ops_def dest: Posix_Close_files)
qed

text \<open>Whatever the kernel answers, a failed append leaves a proper prefix of the bytes in the file.\<close>

lemma Append_loop_torn:
  "Append_loop fd src k = (Some e, k') \<Longrightarrow> k_fds k fd = Some (p, length c) \<Longrightarrow> file_map k p = Some c \<Longrightarrow>
   \<exists>d. strict_prefix d src \<and> file_map k' = (file_map k)(p \<mapsto> c @ d)"
proof (induction fd src k arbitrary: c rule: Append_loop.induct)
  case (1 fd src k)
  show ?case
  proof (cases "src = []")
    case True
    with "1.prems" show ?thesis by simp
  next
    case False
    obtain r k1 where w: "sys_write fd src k = (r, k1)" by (cases "sys_write fd src k")
    show ?thesis
    proof (cases r)
      case (Inl e1)
      with w have fr: "k_fds k1 = k_fds k \<and> k_files k1 = k_files k" using sys_write_Inl by blast
      show ?thesis
      proof (cases "e1 = EINTR")
        case True
        then have "Append_loop fd src k1 = (Some e, k')"
          using "1.prems"(1) False w Inl by (subst (asm) Append_loop.simps) auto
        then show ?thesis using "1.IH"(1) [OF False w [symmetric] Inl True] fr "1.prems" by simp
      next
        case ne: False
        then have "k' = k1" using "1.prems"(1) False w Inl by (subst (asm) Append_loop.simps) auto
        with fr "1.prems"(3) False show ?thesis by (intro exI [of _ "[]"]) (simp add: fun_upd_idem strict_prefix_def)
      qed
    next
      case (Inr n)
      from sys_write_end [OF _ "1.prems"(2,3)] w Inr have st:
        "n \<le> length src" "k_fds k1 fd = Some (p, length (c @ take n src))"
        "file_map k1 = (file_map k)(p \<mapsto> c @ take n src)" by auto
      have "Append_loop fd (drop n src) k1 = (Some e, k')"
        using "1.prems"(1) False w Inr by (subst (asm) Append_loop.simps) simp
      from "1.IH"(2) [OF False w [symmetric] Inr this st(2)] st(3) obtain d where
        d: "strict_prefix d (drop n src)" "file_map k' = (file_map k1)(p \<mapsto> (c @ take n src) @ d)" by fastforce
      from d(1) have "strict_prefix (take n src @ d) src"
        by (metis append_take_drop_id same_prefix_prefix same_append_eq strict_prefix_def)
      with d(2) st(3) show ?thesis by (intro exI [of _ "take n src @ d"]) (simp add: fun_eq_iff)
    qed
  qed
qed

interpretation posix_torn: torn_file_system "PosixWritableFile_ops ok_bool" posix_open posix_content "PosixEnv B" pf_filename file_map
proof (unfold_locales, goal_cases)
  case (1 f k d s f' k')
  then obtain e where "Append_loop (pf_fd f) d k = (Some e, k')"
    by (auto simp: PosixWritableFile_ops_def Posix_Append_def split: prod.splits option.splits)
  with 1(1) Append_loop_torn show ?case by (force simp: posix_open_def)
next
  case (2 p k e k')
  then show ?case
    by (auto simp: PosixEnv_def Posix_NewWritableFile_def DoOpen_def sys_open_def Let_def dest!: sys_enter_answers
        split: prod.splits option.splits sum.splits sys_answer.splits if_splits)
qed

lemma Append_loop_full:
  assumes "k_answers k = []" "k_fds k fd = Some (p, off)" "file_map k p = Some c" "off \<le> length c"
  shows "\<exists>k'. Append_loop fd d k = (None, k') \<and> file_map k' p = Some (splice off d c) \<and> k_answers k' = []"
proof (cases "d = []")
  case True
  with assms show ?thesis by (simp add: splice_def)
next
  case False
  with assms show ?thesis
    by (subst Append_loop.simps)
      (simp add: sys_write_def sys_enter_def transferred_def Let_def update_conv')
qed

interpretation posix_quiet: reliable_file_system "PosixWritableFile_ops ok_bool" posix_open posix_content "PosixEnv B"
  pf_filename file_map "\<lambda>k. k_answers k = []"
proof (unfold_locales, goal_cases)
  case (1 k p)
  then show ?case
    by (simp add: PosixEnv_def Posix_NewWritableFile_def DoOpen_def sys_open_def sys_enter_def Let_def)
next
  case (2 k f d)
  then show ?case
    using Append_loop_full [of k "pf_fd f" "pf_filename f" "length (posix_content f k)" "posix_content f k" d]
    by (auto simp: PosixWritableFile_ops_def Posix_Append_def posix_open_def)
next
  case (3 k f)
  then show ?case by (simp add: PosixWritableFile_ops_def Posix_Sync_def posix_open_def)
next
  case (4 k f)
  then show ?case
    by (simp add: PosixWritableFile_ops_def Posix_Close_def Let_def Posix_Sync_def posix_open_def sys_close_def
        sys_simple_def sys_enter_def)
qed

definition posix_readable :: "PosixRandomAccessFile \<Rightarrow> kernel \<Rightarrow> bool" where
  "posix_readable f k \<longleftrightarrow> (\<exists>off. k_fds k (pr_fd f) = Some (pr_filename f, off))"

lemma sys_pread_frame:
  "sys_pread fd n off k = (r, k') \<Longrightarrow> k_fds k' = k_fds k \<and> k_files k' = k_files k"
  by (auto simp: sys_pread_def dest!: sys_enter_answers
      split: prod.splits option.splits sys_answer.splits if_splits)

lemma sys_pread_part:
  "sys_pread fd n off k = (Inr bs, k') \<Longrightarrow> k_fds k fd = Some (p, o') \<Longrightarrow>
   \<exists>m \<le> n. bs = take m (drop off (the (file_map k p)))"
  by (auto simp: sys_pread_def transferred_def dest!: sys_enter_answers
      split: prod.splits option.splits sys_answer.splits if_splits intro: min.cobounded2)

lemma pread_retry_part:
  "pread_retry fd n off k = (r, k') \<Longrightarrow> k_fds k fd = Some (p, o') \<Longrightarrow>
   k_fds k' = k_fds k \<and> k_files k' = k_files k \<and>
   (\<forall>bs. r = Inr bs \<longrightarrow> (\<exists>m \<le> n. bs = take m (drop off (the (file_map k p)))))"
proof (induction fd n off k rule: pread_retry.induct)
  case (1 fd n off k)
  obtain r1 k1 where rd: "sys_pread fd n off k = (r1, k1)" by (cases "sys_pread fd n off k")
  note fr = sys_pread_frame [OF rd]
  show ?case
  proof (cases "r1 = Inl EINTR")
    case True
    with "1.prems"(1) rd have "pread_retry fd n off k1 = (r, k')"
      by (subst (asm) pread_retry.simps) simp
    with "1.IH" [OF rd [symmetric] True refl] fr "1.prems"(2) show ?thesis by simp
  next
    case False
    with "1.prems"(1) rd have "r = r1 \<and> k' = k1"
      by (subst (asm) pread_retry.simps) (auto split: sum.splits if_splits)
    with fr rd "1.prems"(2) sys_pread_part show ?thesis by blast
  qed
qed

interpretation posix_raf: readable_file "PosixRandomAccessFile_ops B" posix_readable pr_filename file_map
proof (unfold_locales, goal_cases)
  case (1 f k c off n res k')
  then show ?case
    by (fastforce simp: PosixRandomAccessFile_ops_def Posix_Read_def posix_readable_def
        dest!: pread_retry_part split: prod.splits sum.splits)
next
  case (2 f k off n r k')
  then show ?case
    by (auto simp: PosixRandomAccessFile_ops_def Posix_Read_def posix_readable_def
        dest!: pread_retry_part split: prod.splits sum.splits)
qed

text \<open>What is relied on of the filesystem library: the size of an existing file is its length.\<close>

definition fs_size_law :: "fslib \<Rightarrow> bool" where
  "fs_size_law B \<longleftrightarrow> (\<forall>p k c. file_map k p = Some c \<longrightarrow> fs_file_size B p k = (False, of_nat (length c)))"

lemma Posix_NewRandomAccessFile_OK:
  "Posix_NewRandomAccessFile p k = (Inr f, k') \<Longrightarrow>
   posix_readable f k' \<and> k_files k' = k_files k \<and> pr_filename f = p"
  by (auto simp: Posix_NewRandomAccessFile_def sys_open_def Let_def posix_readable_def dest!: sys_enter_answers
      split: prod.splits option.splits sum.splits sys_answer.splits if_splits)

lemma ReadFullyToBuffer_posix:
  assumes "fs_size_law B" "file_map k p = Some c" "length c < 2 ^ 64"
  shows "\<exists>r k'. ReadFullyToBuffer (PosixEnv B) (PosixRandomAccessFile_ops B) p k = Ret (r, k') \<and>
    file_map k' = file_map k \<and> (\<forall>bs. r = Inr bs \<longrightarrow> bs = c)"
proof (cases "Posix_NewRandomAccessFile p k")
  case (Pair r k1)
  show ?thesis
  proof (cases r)
    case (Inl e)
    have "k_files k1 = k_files k"
      using Pair by (auto simp: Posix_NewRandomAccessFile_def sys_open_def Let_def dest!: sys_enter_answers
          split: prod.splits option.splits sum.splits sys_answer.splits if_splits)
    with Pair Inl show ?thesis by (simp add: ReadFullyToBuffer_def PosixEnv_def)
  next
    case (Inr f)
    with Pair have f: "posix_readable f k1" "k_files k1 = k_files k" "pr_filename f = p"
      using Posix_NewRandomAccessFile_OK by simp_all
    then have sz: "raf_Size (PosixRandomAccessFile_ops B) f k1 = Inr (of_nat (length c))"
      using assms(1,2) by (simp add: PosixRandomAccessFile_ops_def DoGetFileSize_def fs_size_law_def)
    have "unat (of_nat (length c) :: u64) = length c" using assms(3) by (simp add: unat_of_nat)
    with posix_raf.ReadFully_part [OF f(1), of c 0 "length c" B "[]"] assms f sz Pair Inr show ?thesis
      by (auto simp: ReadFullyToBuffer_def PosixEnv_def)
  qed
qed

subsection \<open>Properties\<close>

text \<open>Answers that only delay a call: a short transfer, or an interruption.\<close>

fun delaying :: "sys_answer \<Rightarrow> bool" where
  "delaying (Transfer n) = (n > 0)"
| "delaying (Fail e) = (e = EINTR)"

definition only_delays :: "kernel \<Rightarrow> bool" where
  "only_delays k \<longleftrightarrow> list_all delaying (k_answers k)"

lemma sys_enter_delays: "sys_enter c k = (a, k') \<Longrightarrow> only_delays k \<Longrightarrow>
   only_delays k' \<and> (\<forall>e. a = Some (Fail e) \<longrightarrow> e = EINTR) \<and> a \<noteq> Some (Transfer 0)"
  by (auto simp: sys_enter_def only_delays_def split: list.splits)

lemma sys_write_delays:
  assumes "sys_write fd d k = (r, k')" "only_delays k" "k_fds k fd = Some (p, off)"
  shows "only_delays k' \<and> (\<exists>off'. k_fds k' fd = Some (p, off')) \<and> (\<forall>e. r = Inl e \<longrightarrow> e = EINTR)"
proof -
  obtain a k1 where en: "sys_enter (SysWrite fd) k = (a, k1)" by (cases "sys_enter (SysWrite fd) k")
  from sys_enter_answers [OF en] sys_enter_delays [OF en assms(2)] show ?thesis
    using assms en by (auto simp: sys_write_def Let_def only_delays_def 
        split: option.splits sys_answer.splits if_splits)
qed

lemma Append_loop_delays:
  "Append_loop fd src k = (r, k') \<Longrightarrow> only_delays k \<Longrightarrow> k_fds k fd = Some (p, off) \<Longrightarrow> r = None"
proof (induction fd src k arbitrary: off rule: Append_loop.induct)
  case (1 fd src k)
  show ?case
  proof (cases "src = []")
    case False
    obtain w k1 where w: "sys_write fd src k = (w, k1)" by (cases "sys_write fd src k")
    from sys_write_delays [OF w "1.prems"(2,3)] obtain off' where
      d: "only_delays k1" "k_fds k1 fd = Some (p, off')" and e: "\<And>e. w = Inl e \<Longrightarrow> e = EINTR" by blast
    show ?thesis
    proof (cases w)
      case (Inl e')
      with e have "Append_loop fd src k1 = (r, k')"
        using "1.prems"(1) False w by (subst (asm) Append_loop.simps) auto
      with "1.IH"(1) [OF False w [symmetric] Inl] e Inl d show ?thesis by blast
    next
      case (Inr n)
      then have "Append_loop fd (drop n src) k1 = (r, k')"
        using "1.prems"(1) False w by (subst (asm) Append_loop.simps) auto
      with "1.IH"(2) [OF False w [symmetric] Inr] d show ?thesis by blast
    qed
  qed (use "1.prems" in simp)
qed

text \<open>
  C29. Appending to an open file.  Whatever the kernel answers, the call returns; when it
  returns success the file holds its old bytes followed by all of the new ones, the recorded
  size is that of the file, and no other file changed.  Short writes and interruptions alone
  never make it fail.
\<close>

theorem posix_append_exact:
  assumes "posix_open f k" "Posix_Append f d k = (s, f', k')"
  shows "(s = OK \<longrightarrow> posix_open f' k' \<and> file_map k' = (file_map k)(pf_filename f \<mapsto> posix_content f k @ d)
            \<and> pf_filesize f' = of_nat (length (posix_content f k @ d))) \<and>
         (only_delays k \<longrightarrow> s = OK) \<and> (s = OK \<or> s = IOError)"
proof -
  have ok: "posix_open f' k' \<and> posix_content f' k' = posix_content f k @ d \<and>
      file_map k' = (file_map k)(pf_filename f \<mapsto> posix_content f k @ d)" if "s = OK"
    using Posix_Append_OK [OF assms(1)] assms(2) that by blast
  moreover have "pf_filesize f' = of_nat (length (posix_content f k @ d))" if "s = OK"
    using ok [OF that] by (simp add: posix_open_def)
  moreover have "s = OK" if "only_delays k"
    using assms(2) Append_loop_delays [OF _ that, of "pf_fd f"] assms(1)
    by (auto simp: Posix_Append_def posix_open_def split: prod.splits option.splits)
  moreover have "s = OK \<or> s = IOError"
    using assms(2) by (auto simp: Posix_Append_def split: prod.splits option.splits)
  ultimately show ?thesis by blast
qed

definition map_fslib :: fslib where
  "map_fslib =
     \<lparr>fs_file_size = (\<lambda>p k. case file_map k p of None \<Rightarrow> (True, 0) | Some c \<Rightarrow> (False, of_nat (length c))),
      fs_create_directory = (\<lambda>d k. (False, k)),
      fs_create_directories = (\<lambda>d k. (False, k)),
      fs_remove_all = (\<lambda>d k. (False, k)),
      fs_remove = (\<lambda>d k. (False, k\<lparr>k_files := AList.delete d (k_files k)\<rparr>)),
      fs_is_directory = (\<lambda>d k. (False, True)),
      fs_directory_iterator = (\<lambda>d k. Some (map (drop (length d + 1))
         (filter (\<lambda>p. take (length d + 1) p = d @ ''/'') (remdups (map fst (k_files k))))))\<rparr>"

lemma map_fslib_size: "fs_size_law map_fslib"
  by (simp add: fs_size_law_def map_fslib_def)

definition example_kernel :: "sys_answer list \<Rightarrow> kernel" where
  "example_kernel as = \<lparr>k_files = [(''f'', [1, 2])], k_fds = [3 \<mapsto> (''f'', 2)], k_next = 4,
     k_answers = as, k_calls = []\<rparr>"

definition example_file :: PosixWritableFile where
  "example_file = \<lparr>pf_filename = ''f'', pf_fd = 3, pf_sync_on_close = False, pf_filesize = 2,
     pf_pre_allocated_size = 0, pf_pending_sync = False\<rparr>"

lemma example_open: "posix_open example_file (example_kernel as)"
  by (simp add: posix_open_def posix_content_def example_file_def example_kernel_def)

theorem posix_append_exact_witness:
  "\<exists>f' k'. Posix_Append example_file [7, 8, 9] (example_kernel [Fail EINTR, Transfer 1]) = (OK, f', k') \<and>
     file_map k' = [''f'' \<mapsto> [1, 2, 7, 8, 9]]"
proof -
  let ?k = "example_kernel [Fail EINTR, Transfer 1]"
  obtain s f' k' where r: "Posix_Append example_file [7, 8, 9] ?k = (s, f', k')"
    by (metis prod.exhaust)
  have "only_delays ?k" by (simp add: only_delays_def example_kernel_def)
  then have "s = OK" "file_map k' = (file_map ?k)(''f'' \<mapsto> posix_content example_file ?k @ [7, 8, 9])"
    using posix_append_exact [OF example_open r] by (auto simp: example_file_def)
  with r show ?thesis
    by (auto simp: example_kernel_def example_file_def posix_content_def fun_eq_iff)
qed

subsubsection \<open>Durability\<close>

datatype file_op =
    DoAppend bytes
  | DoPositionedAppend bytes u64
  | DoFlush FlushMode
  | DoSyncFile
  | DoClose

fun file_step :: "bool \<Rightarrow> file_op \<Rightarrow> PosixWritableFile \<times> kernel \<Rightarrow> PosixWritableFile \<times> kernel" where
  "file_step b (DoAppend d) (f, k) = snd (wf_Append (PosixWritableFile_ops b) f d k)"
| "file_step b (DoPositionedAppend d off) (f, k) = snd (wf_PositionedAppend (PosixWritableFile_ops b) f d off k)"
| "file_step b (DoFlush m) (f, k) = snd (wf_Flush (PosixWritableFile_ops b) f m k)"
| "file_step b DoSyncFile (f, k) = snd (wf_Sync (PosixWritableFile_ops b) f k)"
| "file_step b DoClose (f, k) = snd (wf_Close (PosixWritableFile_ops b) f k)"

definition never_syncs :: "PosixWritableFile \<Rightarrow> bool" where
  "never_syncs f \<longleftrightarrow> pf_pre_allocated_size f = 0 \<and> \<not> pf_pending_sync f"

definition fdatasyncs :: "kernel \<Rightarrow> syscall list" where
  "fdatasyncs k = filter (\<lambda>c. \<exists>fd. c = SysFdatasync fd) (k_calls k)"

lemma sys_enter_fdatasyncs:
  "sys_enter c k = (a, k') \<Longrightarrow> (\<And>fd. c \<noteq> SysFdatasync fd) \<Longrightarrow> fdatasyncs k' = fdatasyncs k"
  by (auto simp: fdatasyncs_def dest!: sys_enter_answers)

lemma fdatasyncs_update [simp]:
  "fdatasyncs (k\<lparr>k_files := fs\<rparr>) = fdatasyncs k"
  "fdatasyncs (k\<lparr>k_fds := fds\<rparr>) = fdatasyncs k"
  by (simp_all add: fdatasyncs_def)

lemma sys_write_fdatasyncs: "sys_write fd d k = (r, k') \<Longrightarrow> fdatasyncs k' = fdatasyncs k"
  by (auto simp: sys_write_def Let_def dest!: sys_enter_fdatasyncs
      split: prod.splits option.splits sys_answer.splits)

lemma sys_pwrite_fdatasyncs: "sys_pwrite fd d off k = (r, k') \<Longrightarrow> fdatasyncs k' = fdatasyncs k"
  by (auto simp: sys_pwrite_def Let_def dest!: sys_enter_fdatasyncs
      split: prod.splits option.splits sys_answer.splits)

lemma Append_loop_fdatasyncs: "Append_loop fd src k = (r, k') \<Longrightarrow> fdatasyncs k' = fdatasyncs k"
proof (induction fd src k rule: Append_loop.induct)
  case (1 fd src k)
  then show ?case
    by (subst (asm) (3) Append_loop.simps)
      (auto split: if_splits prod.splits sum.splits dest: sys_write_fdatasyncs)
qed

lemma PositionedAppend_loop_fdatasyncs:
  "PositionedAppend_loop fd src off k = (r, k') \<Longrightarrow> fdatasyncs k' = fdatasyncs k"
proof (induction fd src off k rule: PositionedAppend_loop.induct)
  case (1 fd src off k)
  then show ?case
    by (subst (asm) (3) PositionedAppend_loop.simps)
      (auto split: if_splits prod.splits sum.splits dest: sys_pwrite_fdatasyncs)
qed

lemma sys_simple_fdatasyncs:
  "sys_simple c id k = (e, k') \<Longrightarrow> (\<And>fd. c \<noteq> SysFdatasync fd) \<Longrightarrow> fdatasyncs k' = fdatasyncs k"
  by (auto simp: sys_simple_def dest!: sys_enter_fdatasyncs
      split: prod.splits option.splits sys_answer.splits)

lemma sys_close_fdatasyncs: "sys_close fd k = (e, k') \<Longrightarrow> fdatasyncs k' = fdatasyncs k"
  by (auto simp: sys_close_def dest!: sys_simple_fdatasyncs split: prod.splits)

lemma file_step_never_syncs:
  assumes "never_syncs f" "file_step b op (f, k) = (f', k')"
  shows "never_syncs f' \<and> fdatasyncs k' = fdatasyncs k"
proof (cases op)
  case (DoAppend d)
  with assms show ?thesis
    by (auto simp: never_syncs_def PosixWritableFile_ops_def Posix_Append_def
        dest: Append_loop_fdatasyncs split: prod.splits option.splits)
next
  case (DoPositionedAppend d off)
  with assms show ?thesis
    by (auto simp: never_syncs_def PosixWritableFile_ops_def Posix_PositionedAppend_def
        dest: PositionedAppend_loop_fdatasyncs split: prod.splits sum.splits)
next
  case (DoFlush m)
  with assms show ?thesis
    by (auto simp: never_syncs_def PosixWritableFile_ops_def Posix_Flush_def sys_sync_file_range_def
        dest: sys_simple_fdatasyncs split: prod.splits option.splits)
next
  case DoSyncFile
  with assms show ?thesis
    by (auto simp: never_syncs_def PosixWritableFile_ops_def Posix_Sync_def)
next
  case DoClose
  with assms show ?thesis
    by (auto simp: never_syncs_def PosixWritableFile_ops_def Posix_Close_def Posix_Sync_def Let_def
        dest: sys_close_fdatasyncs split: prod.splits option.splits if_splits)
qed

lemma file_steps_never_syncs:
  "never_syncs f \<Longrightarrow> fold (file_step b) os (f, k) = (f', k') \<Longrightarrow> never_syncs f' \<and> fdatasyncs k' = fdatasyncs k"
proof (induction os arbitrary: f k)
  case (Cons op os)
  obtain f1 k1 where st: "file_step b op (f, k) = (f1, k1)" by (cases "file_step b op (f, k)")
  with Cons.prems file_step_never_syncs have "never_syncs f1" "fdatasyncs k1 = fdatasyncs k" by blast+
  with Cons.IH [of f1 k1] Cons.prems(2) st show ?case by simp
qed simp

text \<open>
  C31. Syncing never happens.  A file that \<^verbatim>\<open>NewWritableFile\<close> returned, in any mode and with
  \<^verbatim>\<open>sync_on_close\<close> set or not, never has \<^verbatim>\<open>fdatasync\<close> called on it: not by any sequence of
  appends, flushes, syncs and closes, and whatever the kernel answers.  The flag that says data
  is waiting to be synced is set nowhere but on a failed \<^verbatim>\<open>ftruncate\<close>, which itself needs a
  preallocated size that nothing sets; yet \<^verbatim>\<open>Sync\<close> reports success.
\<close>

theorem posix_sync_never_reaches_disk:
  assumes "Posix_NewWritableFile B p mode sync_on_close k = (Inr f, k0)"
    and "fold (file_step ok_bool) os (f, k0) = (f', k')"
  shows "fdatasyncs k' = fdatasyncs k0 \<and> Posix_Sync f' k' = (OK, f', k')"
proof -
  from assms(1) have "never_syncs f"
    by (auto simp: Posix_NewWritableFile_def never_syncs_def new_PosixWritableFile_def
        split: sum.splits prod.splits if_splits)
  with file_steps_never_syncs assms(2) have "never_syncs f'" "fdatasyncs k' = fdatasyncs k0" by blast+
  then show ?thesis by (simp add: Posix_Sync_def never_syncs_def)
qed

theorem posix_sync_never_reaches_disk_witness:
  "\<exists>f k0 f' k'. Posix_NewWritableFile map_fslib ''g'' CREATE_NON_EXISTING True (example_kernel []) = (Inr f, k0) \<and>
     fold (file_step True) [DoAppend [1, 2], DoSyncFile, DoClose] (f, k0) = (f', k') \<and> fdatasyncs k' = []"
proof -
  obtain f k0 where n: "Posix_NewWritableFile map_fslib ''g'' CREATE_NON_EXISTING True (example_kernel []) = (Inr f, k0)"
    and k0: "fdatasyncs k0 = []"
    by (auto simp: Posix_NewWritableFile_def DoOpen_def sys_open_def sys_enter_def Let_def example_kernel_def
        fdatasyncs_def)
  obtain f' k' where r: "fold (file_step True) [DoAppend [1, 2], DoSyncFile, DoClose] (f, k0) = (f', k')"
    by (metis prod.exhaust)
  have "fdatasyncs k' = []" using posix_sync_never_reaches_disk [OF n r] k0 by simp
  with n r show ?thesis by blast
qed

text \<open>
  A file opened with \<^verbatim>\<open>OPEN_EXISTING\<close> starts at offset zero: the first append overwrites
  the beginning of the file, while the recorded size grows as if the bytes had been added at
  the end.
\<close>

lemma posix_open_existing_overwrites:
  assumes "fs_size_law B" "file_map k p = Some c" "k_answers k = []"
  shows "\<exists>f k1 f' k'. Posix_NewWritableFile B p OPEN_EXISTING sync k = (Inr f, k1) \<and>
    Posix_Append f d k1 = (OK, f', k') \<and>
    file_map k' p = Some (d @ drop (length d) c) \<and> pf_filesize f' = of_nat (length c) + of_nat (length d)"
proof -
  let ?k1 = "k\<lparr>k_calls := k_calls k @ [SysOpen p], k_fds := (k_fds k)(k_next k \<mapsto> (p, 0)), k_next := k_next k + 1\<rparr>"
  let ?f = "new_PosixWritableFile p (k_next k) (of_nat (length c)) sync"
  have "Posix_NewWritableFile B p OPEN_EXISTING sync k = (Inr ?f, ?k1)"
    using assms by (simp add: Posix_NewWritableFile_def DoGetFileSize_def fs_size_law_def DoOpen_def
        sys_open_def sys_enter_def Let_def)
  moreover obtain k' where "Append_loop (k_next k) d ?k1 = (None, k')" "file_map k' p = Some (splice 0 d c)"
    using Append_loop_full [of ?k1 "k_next k" p 0 c d] assms by auto
  ultimately show ?thesis
    by (auto simp: Posix_Append_def new_PosixWritableFile_def splice_def)
qed

lemma posix_open_existing_overwrites_example:
  "\<exists>f k1 f' k'. Posix_NewWritableFile map_fslib ''f'' OPEN_EXISTING False (example_kernel []) = (Inr f, k1) \<and>
    Posix_Append f [9] k1 = (OK, f', k') \<and> file_map k' ''f'' = Some [9, 2] \<and> pf_filesize f' = 3"
  using posix_open_existing_overwrites [OF map_fslib_size, of "example_kernel []" "''f''" "[1, 2]" False "[9]"]
  by (simp add: example_kernel_def)

subsubsection \<open>Reading\<close>

lemma sys_pread_delays:
  assumes "sys_pread fd n off k = (r, k')" "only_delays k" "k_fds k fd = Some (p, o')"
  shows "only_delays k' \<and> (\<forall>e. r = Inl e \<longrightarrow> e = EINTR) \<and>
    (\<forall>bs. r = Inr bs \<longrightarrow> n > 0 \<longrightarrow> off < length (the (file_map k p)) \<longrightarrow> bs \<noteq> [])"
proof -
  obtain a k1 where en: "sys_enter (SysPread fd) k = (a, k1)" by (cases "sys_enter (SysPread fd) k")
  from sys_enter_answers [OF en] sys_enter_delays [OF en assms(2)] show ?thesis
    using assms en by (auto simp: sys_pread_def only_delays_def transferred_def min_def
        split: option.splits sys_answer.splits if_splits)
qed

lemma pread_retry_delays:
  "pread_retry fd n off k = (r, k') \<Longrightarrow> only_delays k \<Longrightarrow> k_fds k fd = Some (p, o') \<Longrightarrow>
   only_delays k' \<and> (\<exists>bs. r = Inr bs \<and> (n > 0 \<longrightarrow> off < length (the (file_map k p)) \<longrightarrow> bs \<noteq> []))"
proof (induction fd n off k rule: pread_retry.induct)
  case (1 fd n off k)
  obtain r1 k1 where rd: "sys_pread fd n off k = (r1, k1)" by (cases "sys_pread fd n off k")
  note fr = sys_pread_frame [OF rd] and dl = sys_pread_delays [OF rd "1.prems"(2,3)]
  show ?case
  proof (cases r1)
    case (Inl e)
    with dl have e: "e = EINTR" by simp
    with "1.prems"(1) rd Inl have "pread_retry fd n off k1 = (r, k')"
      by (subst (asm) pread_retry.simps) simp
    with "1.IH" [OF rd [symmetric] Inl e] fr dl "1.prems"(3) show ?thesis by simp
  next
    case (Inr bs)
    with "1.prems"(1) rd have "r = Inr bs \<and> k' = k1"
      by (subst (asm) pread_retry.simps) auto
    with dl Inr show ?thesis by simp
  qed
qed


lemma NewRandomAccessFile_delays:
  assumes "only_delays k" "\<forall>as. k_answers k \<noteq> Fail EINTR # as" "file_map k p = Some c"
  shows "\<exists>f k1. Posix_NewRandomAccessFile p k = (Inr f, k1) \<and> only_delays k1"
proof (cases "k_answers k")
  case Nil
  with assms show ?thesis
    by (simp add: Posix_NewRandomAccessFile_def sys_open_def sys_enter_def Let_def only_delays_def)
next
  case (Cons a as)
  with assms obtain n where "a = Transfer n" by (cases a) (auto simp: only_delays_def)
  with Cons assms show ?thesis
    by (simp add: Posix_NewRandomAccessFile_def sys_open_def sys_enter_def Let_def only_delays_def)
qed

lemma ReadFully_delays:
  assumes "posix_readable f k" "file_map k (pr_filename f) = Some c" "only_delays k"
    "unat off + remain \<le> length c" "length c < 2 ^ 64"
  shows "\<exists>bs k'. ReadFully (PosixRandomAccessFile_ops B) f off remain acc k = Ret (Inr bs, k')"
  using assms
proof (induction remain arbitrary: off acc k rule: less_induct)
  case (less remain)
  show ?case
  proof (cases "remain = 0")
    case True
    then show ?thesis by (simp add: ReadFully.simps)
  next
    case False
    from less.prems(1) obtain o' where fd: "k_fds k (pr_fd f) = Some (pr_filename f, o')"
      by (auto simp: posix_readable_def)
    obtain r k1 where rd: "pread_retry (pr_fd f) remain (unat off) k = (r, k1)"
      by (cases "pread_retry (pr_fd f) remain (unat off) k")
    from pread_retry_delays [OF rd less.prems(3) fd] pread_retry_part [OF rd fd] less.prems(2,4) False
    obtain bs m where bs: "r = Inr bs" "bs \<noteq> []" "only_delays k1" "m \<le> remain" "bs = take m (drop (unat off) c)"
      and fr: "k_fds k1 = k_fds k" "k_files k1 = k_files k" by auto
    let ?n = "length bs"
    have n: "?n \<le> remain" "0 < ?n" using bs by auto
    then have lt: "remain - ?n < remain" by linarith
    have off: "unat (off + of_nat ?n) = unat off + ?n"
      using n less.prems(4,5) by (simp add: unat_word_ariths unat_of_nat)
    have "\<exists>bs' k'. ReadFully (PosixRandomAccessFile_ops B) f (off + of_nat ?n) (remain - ?n) (acc @ bs) k1 = Ret (Inr bs', k')"
    proof (rule less.IH [OF lt])
      show "posix_readable f k1" using less.prems(1) fr by (simp add: posix_readable_def)
      show "unat (off + of_nat ?n) + (remain - ?n) \<le> length c" using n less.prems(4) off by linarith
    qed (use less.prems fr bs in simp_all)
    with bs n rd False show ?thesis
      by (subst ReadFully.simps) (auto simp: PosixRandomAccessFile_ops_def Posix_Read_def)
  qed
qed

text \<open>
  C30. Reading a whole file.  For any kernel answers the call returns without leaving its
  buffer and changes no file; the bytes it returns on success are exactly those of the file;
  and short reads and interruptions of the reads alone never make it fail (an interrupted
  \<^verbatim>\<open>open\<close> does: it is not repeated).
\<close>

theorem posix_read_exact:
  assumes "fs_size_law B" "file_map k p = Some c" "length c < 2 ^ 64"
  shows "\<exists>r k'. ReadFullyToBuffer (PosixEnv B) (PosixRandomAccessFile_ops B) p k = Ret (r, k') \<and>
    file_map k' = file_map k \<and> (\<forall>bs. r = Inr bs \<longrightarrow> bs = c) \<and>
    (only_delays k \<and> (\<forall>as. k_answers k \<noteq> Fail EINTR # as) \<longrightarrow> r = Inr c)"
proof -
  obtain r k' where rf: "ReadFullyToBuffer (PosixEnv B) (PosixRandomAccessFile_ops B) p k = Ret (r, k')"
    "file_map k' = file_map k" "\<forall>bs. r = Inr bs \<longrightarrow> bs = c"
    using ReadFullyToBuffer_posix [OF assms] by blast
  have "r = Inr c" if d: "only_delays k" and a: "\<forall>as. k_answers k \<noteq> Fail EINTR # as"
  proof -
    from NewRandomAccessFile_delays [OF d a assms(2)] obtain f k1 where
      f: "Posix_NewRandomAccessFile p k = (Inr f, k1)" "only_delays k1" by blast
    note g = Posix_NewRandomAccessFile_OK [OF f(1)]
    have n: "unat (of_nat (length c) :: u64) = length c" using assms(3) by (simp add: unat_of_nat)
    have "raf_Size (PosixRandomAccessFile_ops B) f k1 = Inr (of_nat (length c))"
      using assms(1,2) g by (simp add: PosixRandomAccessFile_ops_def DoGetFileSize_def fs_size_law_def)
    then have "\<exists>bs k'. ReadFullyToBuffer (PosixEnv B) (PosixRandomAccessFile_ops B) p k = Ret (Inr bs, k')"
      using ReadFully_delays [of f k1 c 0 "length c" B "[]"] g f n assms
      by (simp add: ReadFullyToBuffer_def PosixEnv_def)
    with rf show ?thesis by auto
  qed
  with rf show ?thesis by blast
qed

theorem posix_read_exact_witness:
  "\<exists>k'. ReadFullyToBuffer (PosixEnv map_fslib) (PosixRandomAccessFile_ops map_fslib) ''f''
      (example_kernel [Transfer 1, Fail EINTR, Transfer 1]) = Ret (Inr [1, 2], k')"
  using posix_read_exact [OF map_fslib_size, of "example_kernel [Transfer 1, Fail EINTR, Transfer 1]" "''f''" "[1, 2]"]
  by (auto simp: example_kernel_def only_delays_def)

text \<open>
  \<^verbatim>\<open>GetChildren\<close> adds the entries of the directory to the vector it is given; env.h
  documents that the original contents are dropped.  A path that exists and is not a
  directory aborts the process.
\<close>

lemma posix_get_children:
  "fs_is_directory B dir k = (False, True) \<Longrightarrow> fs_directory_iterator B dir k = Some es \<Longrightarrow>
     env_GetChildren (PosixEnv B) dir old k = Ret (OK, old @ es) \<and>
   (fs_is_directory B file k = (False, False) \<longrightarrow> env_GetChildren (PosixEnv B) file old k = Fatal)"
  by (simp add: PosixEnv_def Posix_GetChildren_def)


lemma posix_get_children_example:
  "env_GetChildren (PosixEnv map_fslib) ''d'' [''old''] ((example_kernel [])\<lparr>k_files := [(''d/x'', [])]\<rparr>)
     = Ret (OK, [''old'', ''x''])"
proof -
  let ?k = "(example_kernel [])\<lparr>k_files := [(''d/x'', [])]\<rparr>"
  have "fs_is_directory map_fslib ''d'' ?k = (False, True)"
    "fs_directory_iterator map_fslib ''d'' ?k = Some [''x'']"
    by (simp_all add: map_fslib_def)
  from posix_get_children [OF this, of "[''old'']"] show ?thesis by simp
qed

end
