(* ===== verification/LogWriter.thy ===== *)
theory LogWriter
  imports EnvPosix Coding
begin

section \<open>Writing log segments: wal/format.h, wal/segment_meta.h, wal/log_writer.h, wal/log_writer.cc\<close>

text \<open>
  A segment file is a magic string followed by batches; a batch is a checksum, a length and a
  sequence of records; a record is a type byte and a length-prefixed protobuf message.

  Third-party code is a record of parameters: the protobuf messages of yaraft with their
  accessors, serialisation and parsing, yaraft's \<^verbatim>\<open>MemoryStorage\<close>, the CRC of boost and the
  integer formatting of fmt.  \<^verbatim>\<open>ByteSize()\<close> of a message is the length of its serialisation.
  \<^verbatim>\<open>ParseFromArray\<close> reports failure through a result the code ignores, so it is a total
  function to the message that is left in the object.  \<^verbatim>\<open>TEST_Entries()\<close> gives a
  reference to the entries of a \<^verbatim>\<open>MemoryStorage\<close>: a read and an update.
\<close>

record ('e, 'h, 'm) deps =
  plat :: platform
  fmt_u64 :: "u64 \<Rightarrow> string"
  crc32 :: "bytes \<Rightarrow> u32"
  entry_index :: "'e \<Rightarrow> u64"
  entry_term :: "'e \<Rightarrow> u64"
  entry_bytes :: "'e \<Rightarrow> bytes"
  entry_parse :: "bytes \<Rightarrow> 'e"
  hs_bytes :: "'h \<Rightarrow> bytes"
  hs_parse :: "bytes \<Rightarrow> 'h"
  mem_new :: 'm
  mem_Append :: "'e \<Rightarrow> 'm \<Rightarrow> 'm"
  mem_SetHardState :: "'h \<Rightarrow> 'm \<Rightarrow> 'm"
  mem_TEST_Entries :: "'m \<Rightarrow> 'e list"
  mem_with_Entries :: "'e list \<Rightarrow> 'm \<Rightarrow> 'm"

subsection \<open>The format\<close>

definition kLogBatchHeaderSize :: nat where
  "kLogBatchHeaderSize = 4 + 4"

definition kRecordHeaderSize :: nat where
  "kRecordHeaderSize = 1"

definition kHardStateType :: byte where
  "kHardStateType = 1"

definition kLogEntryType :: byte where
  "kLogEntryType = 2"

definition kLogSegmentHeaderMagic :: bytes where
  "kLogSegmentHeaderMagic = map of_char ''yaraft_log''"

record SegmentMetaData =
  fileName :: string
  numEntries :: nat

definition new_SegmentMetaData :: SegmentMetaData where
  "new_SegmentMetaData = \<lparr>fileName = [], numEntries = 0\<rparr>"

definition SegmentFileName :: "('e, 'h, 'm) deps \<Rightarrow> u64 \<Rightarrow> u64 \<Rightarrow> string" where
  "SegmentFileName D segmentId firstIdx =
     fmt_u64 D segmentId @ ''-'' @ fmt_u64 D firstIdx @ ''.wal''"

subsection \<open>LogWriter\<close>

record 'f LogWriter =
  lw_file :: 'f
  lw_meta :: SegmentMetaData
  lw_logSegmentSize :: u64
  lw_empty :: bool

definition new_LogWriter :: "'f \<Rightarrow> string \<Rightarrow> u64 \<Rightarrow> 'f LogWriter" where
  "new_LogWriter file fname logSegmentSize =
     \<lparr>lw_file = file, lw_meta = new_SegmentMetaData\<lparr>fileName := fname\<rparr>,
      lw_logSegmentSize = logSegmentSize, lw_empty = True\<rparr>"

text \<open>
  The body shared by \<^verbatim>\<open>saveHardState\<close> and the loop of \<^verbatim>\<open>saveEntries\<close>: type byte, varint
  length, serialised message, each written at the running pointer.
\<close>

definition save_record :: "byte \<Rightarrow> bytes \<Rightarrow> nat \<Rightarrow> bytes \<Rightarrow> (bytes \<times> nat) outcome" where
  "save_record type msg p buf =
     bind_outcome (buf_write p [type] buf) (\<lambda>buf.
     let len = EncodeVarint32 (of_nat (length msg)) in
     bind_outcome (buf_write (p + 1) len buf) (\<lambda>buf.
     let p = p + 1 + length len in
     bind_outcome (buf_write p msg buf) (\<lambda>buf.
       Ret (buf, p + length msg))))"

definition saveHardState :: "('e, 'h, 'm) deps \<Rightarrow> 'h \<Rightarrow> nat \<Rightarrow> bytes \<Rightarrow> (bytes \<times> nat) outcome" where
  "saveHardState D hs offset buf = save_record kHardStateType (hs_bytes D hs) offset buf"

fun saveEntries :: "('e, 'h, 'm) deps \<Rightarrow> 'e list \<Rightarrow> nat \<Rightarrow> bytes \<Rightarrow> (bytes \<times> nat) outcome" where
  "saveEntries D [] offset buf = Ret (buf, offset)"
| "saveEntries D (e # es) offset buf =
     bind_outcome (save_record kLogEntryType (entry_bytes D e) offset buf) (\<lambda>(buf, offset).
       saveEntries D es offset buf)"

text \<open>
  The loop that decides how many entries go into the segment.  \<^verbatim>\<open>remains\<close> is declared
  \<^verbatim>\<open>ssize_t\<close> and compared with a \<^verbatim>\<open>size_t\<close>: the comparison converts it to unsigned, so it is
  the 64-bit difference with its wrap-around.
\<close>

fun fit_entries :: "('e, 'h, 'm) deps \<Rightarrow> u64 \<Rightarrow> 'e list \<Rightarrow> nat \<Rightarrow> nat \<times> nat" where
  "fit_entries D remains [] totalSize = (0, totalSize)"
| "fit_entries D remains (e # es) totalSize =
     (if totalSize < unat remains then
        let sz = length (entry_bytes D e);
            (n, t) = fit_entries D remains es
                       (totalSize + (kRecordHeaderSize + VarintLength (of_nat sz) + sz))
        in (Suc n, t)
      else (0, totalSize))"

definition Append_batch :: "('e, 'h, 'm) deps \<Rightarrow> ('f, 'k) WritableFile \<Rightarrow> 'f LogWriter \<Rightarrow> 'e list \<Rightarrow> nat \<Rightarrow> nat
    \<Rightarrow> 'h option \<Rightarrow> 'k \<Rightarrow> (nat StatusWith \<times> 'f LogWriter \<times> 'k) outcome" where
  "Append_batch D ops w vec lo hi hs k =
     (let remains = lw_logSegmentSize w - wf_Size ops (lw_file w);
          totalSize = kLogBatchHeaderSize +
            (case hs of None \<Rightarrow> 0 | Some h \<Rightarrow> kRecordHeaderSize + length (hs_bytes D h));
          writeEntries = (totalSize < unat remains \<and> lo \<noteq> hi);
          (n, totalSize) =
            (if writeEntries then fit_entries D remains (take (hi - lo) (drop lo vec)) totalSize
             else (0, totalSize));
          newBegin = lo + n;
          scratch = replicate totalSize 0;
          offset = kLogBatchHeaderSize
      in
      bind_outcome (case hs of None \<Rightarrow> Ret (scratch, offset) | Some h \<Rightarrow> saveHardState D h offset scratch)
        (\<lambda>(scratch, offset).
      bind_outcome (if writeEntries then saveEntries D (take n (drop lo vec)) offset scratch
                    else Ret (scratch, offset))
        (\<lambda>(scratch, offset).
      let dataLen = totalSize - kLogBatchHeaderSize in
      bind_outcome (buf_write 4 (EncodeFixed32 (plat D) (of_nat dataLen)) scratch) (\<lambda>scratch.
      let crc = crc32 D (take dataLen (drop kLogBatchHeaderSize scratch)) in
      bind_outcome (buf_write 0 (EncodeFixed32 (plat D) crc) scratch) (\<lambda>scratch.
      case wf_Append ops (lw_file w) scratch k of
        (s, f', k') \<Rightarrow>
          if s \<noteq> OK then Ret (Inl s, w\<lparr>lw_file := f'\<rparr>, k')
          else Ret (Inr newBegin,
                    w\<lparr>lw_file := f', lw_meta := (lw_meta w)\<lparr>numEntries := numEntries (lw_meta w) + n\<rparr>\<rparr>,
                    k'))))))"

definition LogWriter_Append :: "('e, 'h, 'm) deps \<Rightarrow> ('f, 'k) WritableFile \<Rightarrow> 'f LogWriter \<Rightarrow> 'e list \<Rightarrow> nat \<Rightarrow> nat
    \<Rightarrow> 'h option \<Rightarrow> 'k \<Rightarrow> (nat StatusWith \<times> 'f LogWriter \<times> 'k) outcome" where
  "LogWriter_Append D ops w vec lo hi hs k =
     (if lw_empty w then
        case wf_Append ops (lw_file w) kLogSegmentHeaderMagic k of
          (s, f', k') \<Rightarrow>
            if s \<noteq> OK then Ret (Inl s, w\<lparr>lw_file := f'\<rparr>, k')
            else Append_batch D ops (w\<lparr>lw_file := f', lw_empty := False\<rparr>) vec lo hi hs k'
      else Append_batch D ops w vec lo hi hs k)"

definition LogWriter_Sync :: "('f, 'k) WritableFile \<Rightarrow> 'f LogWriter \<Rightarrow> 'k \<Rightarrow> ErrorCodes \<times> 'f LogWriter \<times> 'k" where
  "LogWriter_Sync ops w k =
     (case wf_Sync ops (lw_file w) k of (s, f', k') \<Rightarrow> (s, w\<lparr>lw_file := f'\<rparr>, k'))"

definition LogWriter_Finish :: "('f, 'k) WritableFile \<Rightarrow> 'f LogWriter \<Rightarrow> 'k
    \<Rightarrow> SegmentMetaData StatusWith \<times> 'f LogWriter \<times> 'k" where
  "LogWriter_Finish ops w k =
     (case wf_Sync ops (lw_file w) k of
        (s, f', k') \<Rightarrow>
          if s \<noteq> OK then (Inl s, w\<lparr>lw_file := f'\<rparr>, k')
          else (case wf_Close ops f' k' of
                  (s', f'', k'') \<Rightarrow>
                    if s' \<noteq> OK then (Inl s', w\<lparr>lw_file := f''\<rparr>, k'')
                    else (Inr (lw_meta w), w\<lparr>lw_file := f''\<rparr>, k'')))"

subsection \<open>The bytes of a batch\<close>

definition record_bytes :: "byte \<Rightarrow> bytes \<Rightarrow> bytes" where
  "record_bytes type msg = type # PutLengthPrefixedSlice [] msg"

definition entry_record :: "('e, 'h, 'm) deps \<Rightarrow> 'e \<Rightarrow> bytes" where
  "entry_record D e = record_bytes kLogEntryType (entry_bytes D e)"

definition batch_bytes :: "('e, 'h, 'm) deps \<Rightarrow> bytes \<Rightarrow> bytes" where
  "batch_bytes D data =
     EncodeFixed32 (plat D) (crc32 D data) @ EncodeFixed32 (plat D) (of_nat (length data)) @ data"

definition entries_data :: "('e, 'h, 'm) deps \<Rightarrow> 'e list \<Rightarrow> bytes" where
  "entries_data D es = concat (map (entry_record D) es)"

lemmas format_defs = kLogBatchHeaderSize_def kRecordHeaderSize_def kHardStateType_def kLogEntryType_def

lemma save_record_fits:
  assumes "length old = length (record_bytes ty msg)"
  shows "save_record ty msg (length pre) (pre @ old @ post) =
    Ret (pre @ record_bytes ty msg @ post, length pre + length (record_bytes ty msg))"
proof -
  define len where "len = EncodeVarint32 (of_nat (length msg))"
  have rb: "record_bytes ty msg = [ty] @ len @ msg"
    by (simp add: record_bytes_def PutLengthPrefixedSlice_def PutVarint32_def len_def)
  from assms have l: "length old = 1 + length len + length msg" by (simp add: rb)
  define o1 o2 o3 where "o1 = take 1 old" and "o2 = take (length len) (drop 1 old)"
    and "o3 = drop (length len) (drop 1 old)"
  have old: "old = o1 @ o2 @ o3" and lens: "length o1 = 1" "length o2 = length len" "length o3 = length msg"
    using l by (simp_all only: o1_def o2_def o3_def append_take_drop_id) simp_all
  have 1: "buf_write (length pre) [ty] (pre @ old @ post) = Ret (pre @ [ty] @ o2 @ o3 @ post)"
    using buf_write_middle [of "length pre" pre o1 "[ty]" "o2 @ o3 @ post"] lens by (simp add: old)
  have 2: "buf_write (length pre + 1) len (pre @ [ty] @ o2 @ o3 @ post) = Ret (pre @ [ty] @ len @ o3 @ post)"
    using buf_write_middle [of "length pre + 1" "pre @ [ty]" o2 len "o3 @ post"] lens by simp
  have 3: "buf_write (length pre + 1 + length len) msg (pre @ [ty] @ len @ o3 @ post) =
      Ret (pre @ [ty] @ len @ msg @ post)"
    using buf_write_middle [of "length pre + 1 + length len" "pre @ [ty] @ len" o3 msg post] lens by simp
  show ?thesis
    by (simp only: save_record_def 1 2 3 bind_outcome.simps Let_def len_def [symmetric] rb) simp
qed

lemma save_record_overflow:
  assumes "length buf < p + length (record_bytes ty msg)"
  shows "save_record ty msg p buf = Undef OutOfBounds"
proof -
  define len where "len = EncodeVarint32 (of_nat (length msg))"
  have "length buf < p + 1 + length len + length msg"
    using assms by (simp add: record_bytes_def PutLengthPrefixedSlice_def PutVarint32_def len_def)
  then show ?thesis
    by (auto simp: save_record_def Let_def buf_write_def len_def [symmetric])
qed

lemma saveEntries_fits:
  "length old = length (entries_data D es) \<Longrightarrow>
   saveEntries D es (length pre) (pre @ old @ post) =
     Ret (pre @ entries_data D es @ post, length pre + length (entries_data D es))"
proof (induction es arbitrary: pre old)
  case (Cons e es)
  let ?r = "entry_record D e"
  define o1 o2 where "o1 = take (length ?r) old" and "o2 = drop (length ?r) old"
  have o: "old = o1 @ o2" "length o1 = length ?r" "length o2 = length (entries_data D es)"
    using Cons.prems by (simp_all add: o1_def o2_def entries_data_def)
  have "save_record kLogEntryType (entry_bytes D e) (length pre) (pre @ o1 @ (o2 @ post)) =
      Ret (pre @ ?r @ (o2 @ post), length pre + length ?r)"
    using save_record_fits [of o1 kLogEntryType "entry_bytes D e" pre "o2 @ post"] o
    by (simp add: entry_record_def)
  moreover have "saveEntries D es (length (pre @ ?r)) ((pre @ ?r) @ o2 @ post) =
      Ret ((pre @ ?r) @ entries_data D es @ post, length (pre @ ?r) + length (entries_data D es))"
    by (rule Cons.IH) (rule o)
  ultimately show ?case by (simp add: o(1) entries_data_def)
qed (simp add: entries_data_def)

definition small_entry :: "('e, 'h, 'm) deps \<Rightarrow> 'e \<Rightarrow> bool" where
  "small_entry D e = (length (entry_bytes D e) < 2 ^ 31)"

lemma length_record_bytes:
  assumes "length msg < 2 ^ 32"
  shows "length (record_bytes ty msg) = kRecordHeaderSize + VarintLength (of_nat (length msg)) + length msg"
proof -
  have "(ucast (of_nat (length msg) :: u32) :: u64) = of_nat (length msg)"
    using assms by (simp add: word_unat_eq_iff unsigned_ucast_eq unat_of_nat take_bit_eq_mod)
  then show ?thesis
    by (simp add: record_bytes_def PutLengthPrefixedSlice_def PutVarint32_def VarintLength_eq
        EncodeVarint32_eq_64 kRecordHeaderSize_def)
qed

lemma fit_entries_spec:
  assumes "fit_entries D r es t = (n, t')" "\<forall>e \<in> set es. small_entry D e"
  shows "n \<le> length es \<and> t' = t + length (entries_data D (take n es)) \<and>
    (n < length es \<longrightarrow> unat r \<le> t') \<and> (0 < n \<longrightarrow> t + length (entries_data D (take (n - 1) es)) < unat r)"
  using assms
proof (induction es arbitrary: t n)
  case (Cons e es)
  show ?case
  proof (cases "t < unat r")
    case True
    define t1 where "t1 = t + length (entry_record D e)"
    have t1: "t1 = t + (kRecordHeaderSize + VarintLength (of_nat (length (entry_bytes D e))) + length (entry_bytes D e))"
      using Cons.prems(2) length_record_bytes [of "entry_bytes D e" kLogEntryType]
      by (simp add: t1_def entry_record_def small_entry_def)
    obtain m where m: "fit_entries D r es t1 = (m, t')" "n = Suc m"
      using Cons.prems(1) True by (auto simp: Let_def t1 split: prod.splits)
    show ?thesis
      using Cons.IH [OF m(1)] Cons.prems(2) m(2) True
      by (cases m) (auto simp: entries_data_def t1_def)
  qed (use Cons.prems in \<open>auto simp: entries_data_def\<close>)
qed (simp add: entries_data_def)

lemma fit_entries_guard:
  "(if t < unat r \<and> es \<noteq> [] then fit_entries D r es t else (0, t)) = fit_entries D r es t"
  by (cases es) auto

definition fit_count :: "('e, 'h, 'm) deps \<Rightarrow> u64 \<Rightarrow> 'e list \<Rightarrow> nat" where
  "fit_count D r es = fst (fit_entries D r es kLogBatchHeaderSize)"

lemma batch_scratch:
  assumes "length data = m" "b = replicate 8 0 @ data"
  shows "bind_outcome (buf_write 4 (EncodeFixed32 P (of_nat m)) b) (\<lambda>b.
     bind_outcome (buf_write 0 (EncodeFixed32 P (crc (take m (drop 8 b)))) b) f) =
     f (EncodeFixed32 P (crc data) @ EncodeFixed32 P (of_nat m) @ data)"
proof -
  have b: "b = replicate 4 0 @ replicate 4 0 @ data"
    using assms(2) by (simp flip: replicate_add append_assoc)
  have 1: "buf_write 4 (EncodeFixed32 P (of_nat m)) b =
      Ret (replicate 4 0 @ EncodeFixed32 P (of_nat m) @ data)"
    unfolding b by (rule buf_write_middle) (simp_all add: codec_simps)
  have 2: "buf_write 0 (EncodeFixed32 P c) (replicate 4 0 @ EncodeFixed32 P (of_nat m) @ data) =
      Ret (EncodeFixed32 P c @ EncodeFixed32 P (of_nat m) @ data)" for c
    using buf_write_middle [of 0 "[]" "replicate 4 0" "EncodeFixed32 P c"] by (simp add: codec_simps)
  show ?thesis using assms(1) by (simp add: 1 2 codec_simps)
qed

lemma Append_batch_None:
  assumes "\<forall>e \<in> set vec. small_entry D e" "lo \<le> hi" "hi \<le> length vec"
    and n: "n = fit_count D (lw_logSegmentSize w - wf_Size ops (lw_file w)) (take (hi - lo) (drop lo vec))"
  shows "Append_batch D ops w vec lo hi None k =
    (case wf_Append ops (lw_file w) (batch_bytes D (entries_data D (take n (drop lo vec)))) k of
       (s, f', k') \<Rightarrow>
         if s \<noteq> OK then Ret (Inl s, w\<lparr>lw_file := f'\<rparr>, k')
         else Ret (Inr (lo + n),
                   w\<lparr>lw_file := f', lw_meta := (lw_meta w)\<lparr>numEntries := numEntries (lw_meta w) + n\<rparr>\<rparr>, k'))"
proof -
  let ?r = "lw_logSegmentSize w - wf_Size ops (lw_file w)"
  let ?es = "take (hi - lo) (drop lo vec)"
  let ?data = "entries_data D (take n (drop lo vec))"
  obtain t where fit: "fit_entries D ?r ?es kLogBatchHeaderSize = (n, t)"
    using n by (cases "fit_entries D ?r ?es kLogBatchHeaderSize") (simp add: fit_count_def)
  have "\<forall>e \<in> set ?es. small_entry D e"
    using assms(1) by (meson in_set_takeD in_set_dropD)
  from fit_entries_spec [OF fit this] have spec: "n \<le> hi - lo" "t = 8 + length (entries_data D (take n ?es))"
    by (auto simp: kLogBatchHeaderSize_def)
  have t: "t = 8 + length ?data" using spec by (simp add: min_absorb1)
  have guard: "(if kLogBatchHeaderSize < unat ?r \<and> lo \<noteq> hi then fit_entries D ?r ?es kLogBatchHeaderSize
      else (0, kLogBatchHeaderSize)) = (n, t)"
    using fit_entries_guard [of kLogBatchHeaderSize ?r ?es D] fit assms(2,3) by auto
  have save: "(if c then saveEntries D (take n (drop lo vec)) 8 (replicate t 0)
      else Ret (replicate t 0, 8)) = Ret (replicate 8 0 @ ?data, t)"
    if "\<not> c \<longrightarrow> n = 0" for c
    using saveEntries_fits [of "replicate (length ?data) 0" D "take n (drop lo vec)" "replicate 8 0" "[]"] that t
    by (auto simp: replicate_add entries_data_def)
  have zero: "\<not> (kLogBatchHeaderSize < unat ?r \<and> lo \<noteq> hi) \<longrightarrow> n = 0"
    using guard by auto
  have t8: "t - kLogBatchHeaderSize = length ?data" by (simp add: t kLogBatchHeaderSize_def)
  have h8: "kLogBatchHeaderSize = 8" by (simp add: kLogBatchHeaderSize_def)
  show ?thesis
    by (simp only: Append_batch_def Let_def option.case add_0_right guard prod.case bind_outcome.simps
        save [OF zero, folded h8] t8) (simp only: h8 batch_scratch [OF refl refl] batch_bytes_def)
qed

lemma save_record_cases:
  "save_record ty msg p buf =
     (if p + length (record_bytes ty msg) \<le> length buf
      then Ret (take p buf @ record_bytes ty msg @ drop (p + length (record_bytes ty msg)) buf,
                p + length (record_bytes ty msg))
      else Undef OutOfBounds)"
proof (cases "p + length (record_bytes ty msg) \<le> length buf")
  case True
  let ?n = "length (record_bytes ty msg)"
  have "buf = take p buf @ take ?n (drop p buf) @ drop (p + ?n) buf"
    by (metis append_take_drop_id drop_drop add.commute)
  with True save_record_fits [of "take ?n (drop p buf)" ty msg "take p buf" "drop (p + ?n) buf"]
  show ?thesis by simp
qed (simp add: save_record_overflow)

lemma saveEntries_overflow:
  "p \<le> length buf \<Longrightarrow> length buf < p + length (entries_data D es) \<Longrightarrow>
   saveEntries D es p buf = Undef OutOfBounds"
proof (induction es arbitrary: p buf)
  case (Cons e es)
  then show ?case
    by (auto simp: save_record_cases entries_data_def entry_record_def)
qed (simp add: entries_data_def)

lemma Append_batch_Some:
  assumes "\<forall>e \<in> set vec. small_entry D e" "length (hs_bytes D h) < 2 ^ 31"
    "lo \<le> hi" "hi \<le> length vec"
  shows "Append_batch D ops w vec lo hi (Some h) k = Undef OutOfBounds"
proof -
  let ?r = "lw_logSegmentSize w - wf_Size ops (lw_file w)"
  let ?es = "take (hi - lo) (drop lo vec)"
  let ?hs = "record_bytes kHardStateType (hs_bytes D h)"
  let ?t = "kLogBatchHeaderSize + (kRecordHeaderSize + length (hs_bytes D h))"
  obtain n t where fit: "fit_entries D ?r ?es ?t = (n, t)" by fastforce
  have "\<forall>e \<in> set ?es. small_entry D e"
    using assms(1) by (meson in_set_takeD in_set_dropD)
  from fit_entries_spec [OF fit this] have n: "n \<le> hi - lo" and t: "t = ?t + length (entries_data D (take n ?es))"
    by (auto simp del: take_take)
  have t: "t = ?t + length (entries_data D (take n (drop lo vec)))" using n t by (simp add: min_absorb1)
  have short: "?t < kLogBatchHeaderSize + length ?hs"
    using length_record_bytes [of "hs_bytes D h" kHardStateType] assms(2)
      length_EncodeVarint64 [of "of_nat (length (hs_bytes D h))"]
    by (auto simp: VarintLength_eq)
  have guard: "(if ?t < unat ?r \<and> lo \<noteq> hi then fit_entries D ?r ?es ?t else (0, ?t)) = (n, t)"
    using fit_entries_guard [of ?t ?r ?es D] fit assms(3,4) by auto
  have over: "bind_outcome (saveHardState D h kLogBatchHeaderSize (replicate t 0)) (\<lambda>(b, p).
      bind_outcome (if c then saveEntries D (take n (drop lo vec)) p b else Ret (b, p)) g) = Undef OutOfBounds"
    if c: "\<not> c \<longrightarrow> n = 0" for c g
  proof (cases "kLogBatchHeaderSize + length ?hs \<le> t")
    case True
    have "n \<noteq> 0"
    proof
      assume "n = 0"
      with t short True show False by (simp add: entries_data_def)
    qed
    with c True short t show ?thesis
      by (auto simp: saveHardState_def save_record_cases saveEntries_overflow)
  qed (auto simp: saveHardState_def save_record_cases)
  have zero: "\<not> (?t < unat ?r \<and> lo \<noteq> hi) \<longrightarrow> n = 0" using guard by auto
  show ?thesis
    by (simp only: Append_batch_def Let_def option.case guard prod.case over [OF zero])
qed

context writable_file
begin

text \<open>What a call without a hard state appends to the file, and what it returns.\<close>

lemma LogWriter_Append_None:
  assumes "is_open (lw_file w) k" "\<forall>e \<in> set vec. small_entry D e" "lo \<le> hi" "hi \<le> length vec"
  shows "\<exists>r w' k'. LogWriter_Append D ops w vec lo hi None k = Ret (r, w', k') \<and>
    lw_logSegmentSize w' = lw_logSegmentSize w \<and>
    (\<forall>m. r = Inr m \<longrightarrow>
      (let c = content (lw_file w) k @ (if lw_empty w then kLogSegmentHeaderMagic else []);
           n = fit_count D (lw_logSegmentSize w - of_nat (length c)) (take (hi - lo) (drop lo vec))
       in m = lo + n \<and> is_open (lw_file w') k' \<and> \<not> lw_empty w' \<and>
          content (lw_file w') k' = c @ batch_bytes D (entries_data D (take n (drop lo vec))) \<and>
          lw_meta w' = (lw_meta w)\<lparr>numEntries := numEntries (lw_meta w) + n\<rparr>))"
proof -
  have batch: "\<exists>r w' k'. Append_batch D ops v vec lo hi None k1 = Ret (r, w', k') \<and>
    lw_logSegmentSize w' = lw_logSegmentSize v \<and>
    (\<forall>m. r = Inr m \<longrightarrow>
      (let n = fit_count D (lw_logSegmentSize v - of_nat (length (content (lw_file v) k1))) (take (hi - lo) (drop lo vec))
       in m = lo + n \<and> is_open (lw_file w') k' \<and> lw_empty w' = lw_empty v \<and>
          content (lw_file w') k' = content (lw_file v) k1 @ batch_bytes D (entries_data D (take n (drop lo vec))) \<and>
          lw_meta w' = (lw_meta v)\<lparr>numEntries := numEntries (lw_meta v) + n\<rparr>))"
    if "is_open (lw_file v) k1" for v k1
    using Append_OK [OF that] Size_content [OF that]
    by (subst Append_batch_None [OF assms(2-4) refl]) (auto simp: Let_def split: prod.splits)
  show ?thesis
  proof (cases "lw_empty w")
    case True
    obtain s f1 k1 where a: "wf_Append ops (lw_file w) kLogSegmentHeaderMagic k = (s, f1, k1)"
      by (metis prod.exhaust)
    show ?thesis
    proof (cases "s = OK")
      case OK: True
      from Append_OK [OF assms(1)] a OK have "is_open f1 k1"
        "content f1 k1 = content (lw_file w) k @ kLogSegmentHeaderMagic" by blast+
      with batch [of "w\<lparr>lw_file := f1, lw_empty := False\<rparr>" k1] True OK a show ?thesis
        by (simp add: LogWriter_Append_def Let_def)
    qed (use True a in \<open>auto simp: LogWriter_Append_def\<close>)
  next
    case False
    with batch [OF assms(1)] show ?thesis by (simp add: LogWriter_Append_def Let_def)
  qed
qed

end


text \<open>A concrete instance of the third-party code, for examples: entries carry index, term and payload.\<close>

fun decimal :: "nat \<Rightarrow> string" where
  "decimal n = (if n < 10 then [char_of (48 + n)] else decimal (n div 10) @ [char_of (48 + n mod 10)])"

declare decimal.simps [simp del]

type_synonym example_entry = "u64 \<times> u64 \<times> bytes"
type_synonym example_store = "bytes option \<times> example_entry list"

definition example_parse :: "bytes \<Rightarrow> example_entry" where
  "example_parse b = (le_word64 (take 8 b), le_word64 (take 8 (drop 8 b)), drop 16 b)"

definition example_deps :: "(example_entry, bytes, example_store) deps" where
  "example_deps =
     \<lparr>plat = default_platform True,
      fmt_u64 = (\<lambda>n. decimal (unat n)),
      crc32 = (\<lambda>b. sum_list (map ucast b)),
      entry_index = fst,
      entry_term = (\<lambda>e. fst (snd e)),
      entry_bytes = (\<lambda>(i, t, d). le_bytes64 i @ le_bytes64 t @ d),
      entry_parse = example_parse,
      hs_bytes = id,
      hs_parse = id,
      mem_new = (None, []),
      mem_Append = (\<lambda>e (h, es). (h, es @ [e])),
      mem_SetHardState = (\<lambda>h (h', es). (Some h, es)),
      mem_TEST_Entries = snd,
      mem_with_Entries = (\<lambda>es (h, es'). (h, es))\<rparr>"

definition example_writer :: "bytes \<Rightarrow> u64 \<Rightarrow> bool \<Rightarrow> MockWritableFile LogWriter" where
  "example_writer buf sz e =
     \<lparr>lw_file = \<lparr>mock_buf = buf, mock_fileName = ''1-1.wal''\<rparr>, lw_meta = new_SegmentMetaData\<lparr>fileName := ''1-1.wal''\<rparr>,
      lw_logSegmentSize = sz, lw_empty = e\<rparr>"

lemma Mock_ops [simp]:
  "wf_Append MockWritableFile_ops = Mock_Append" "wf_Size MockWritableFile_ops f = of_nat (length (mock_buf f))"
  by (simp_all add: MockWritableFile_ops_def)

lemma Mock_LogWriter_OK:
  "LogWriter_Append D MockWritableFile_ops w vec lo hi hs k = Ret (r, w', k') \<Longrightarrow> \<exists>m. r = Inr m"
  by (auto simp: LogWriter_Append_def Append_batch_def Mock_Append_def Let_def split: prod.splits if_splits)

lemma fit_count_spec:
  assumes "\<forall>e \<in> set es. small_entry D e"
  shows "fit_count D r es \<le> length es"
    and "fit_count D r es < length es \<Longrightarrow> unat r \<le> 8 + length (entries_data D (take (fit_count D r es) es))"
    and "0 < fit_count D r es \<Longrightarrow> 8 + length (entries_data D (take (fit_count D r es - 1) es)) < unat r"
  using fit_entries_spec [OF _ assms, of r 8 "fit_count D r es" "snd (fit_entries D r es 8)"]
  by (simp_all add: fit_count_def kLogBatchHeaderSize_def)

lemma length_batch_bytes: "length (batch_bytes D data) = 8 + length data"
  by (simp add: batch_bytes_def codec_simps)

text \<open>
  C15. \<^verbatim>\<open>LogWriter::Append\<close> without a hard state, on the in-memory file: it returns normally,
  the file grows by the magic (the first time) and one batch whose data are the records of the
  entries from \<open>lo\<close> up to the returned position, and the entry count of the segment grows by
  their number.
\<close>

theorem log_writer_appends_batch:
  assumes "\<forall>e \<in> set vec. small_entry D e" "lo \<le> hi" "hi \<le> length vec"
  shows "\<exists>m w'. LogWriter_Append D MockWritableFile_ops w vec lo hi None () = Ret (Inr m, w', ()) \<and>
    lo \<le> m \<and> m \<le> hi \<and> \<not> lw_empty w' \<and>
    mock_buf (lw_file w') = mock_buf (lw_file w) @ (if lw_empty w then kLogSegmentHeaderMagic else []) @
      batch_bytes D (entries_data D (take (m - lo) (drop lo vec))) \<and>
    lw_meta w' = (lw_meta w)\<lparr>numEntries := numEntries (lw_meta w) + (m - lo)\<rparr>"
proof -
  have "\<forall>e \<in> set (take (hi - lo) (drop lo vec)). small_entry D e"
    using assms(1) by (meson in_set_takeD in_set_dropD)
  from fit_count_spec(1) [OF this] have n: "lo + fit_count D r (take (hi - lo) (drop lo vec)) \<le> hi" for r
    using assms(2,3) by (simp add: le_diff_conv2 add.commute)
  obtain r w' where a: "LogWriter_Append D MockWritableFile_ops w vec lo hi None () = Ret (r, w', ())"
    using mock.LogWriter_Append_None [OF _ assms, of w "()"] by auto
  then obtain m where "r = Inr m" using Mock_LogWriter_OK by blast
  with a mock.LogWriter_Append_None [OF _ assms, of w "()"] n show ?thesis
    by (auto simp: Let_def)
qed


lemma example_hs: "hs_bytes example_deps = id"
  by (simp add: example_deps_def)

lemma example_small: "length d < 1000 \<Longrightarrow> small_entry example_deps (i, t, d)"
  by (simp add: small_entry_def example_deps_def le_bytes64_def)

theorem log_writer_appends_batch_witness:
  "\<exists>m w'. LogWriter_Append example_deps MockWritableFile_ops (example_writer [] 100 True)
      [(1, 1, [7]), (2, 1, [8])] 0 2 None () = Ret (Inr m, w', ()) \<and> m \<le> 2 \<and>
    mock_buf (lw_file w') = kLogSegmentHeaderMagic @
      batch_bytes example_deps (entries_data example_deps (take m [(1, 1, [7]), (2, 1, [8])]))"
  using log_writer_appends_batch [of "[(1, 1, [7]), (2, 1, [8])]" example_deps 0 2 "example_writer [] 100 True"]
  by (auto simp: example_small example_writer_def)

lemma entries_data_take_le: "length (entries_data D (take j es)) \<le> length (entries_data D es)"
  unfolding entries_data_def by (metis append_take_drop_id concat_append map_append le_add1 length_append)

text \<open>How far an append fills the file: up to the limit, and beyond it by less than its last record.\<close>

lemma append_fill:
  assumes "\<forall>e \<in> set vec. small_entry D e" "lo \<le> hi" "hi \<le> length vec" "\<not> lw_empty w"
    and run: "LogWriter_Append D MockWritableFile_ops w vec lo hi None () = Ret (Inr m, w', ())"
    and r: "r = lw_logSegmentSize w - of_nat (length (mock_buf (lw_file w)))"
  obtains d where "length (mock_buf (lw_file w')) = length (mock_buf (lw_file w)) + d" "lo \<le> m" "m \<le> hi"
    "d \<le> 8 + length (entries_data D (take (hi - lo) (drop lo vec)))"
    "m < hi \<longrightarrow> unat r \<le> d" "lo < m \<longrightarrow> d < unat r + length (entry_record D (vec ! (m - 1)))"
proof -
  let ?es = "take (hi - lo) (drop lo vec)"
  define n where "n = fit_count D r ?es"
  have small: "\<forall>e \<in> set ?es. small_entry D e"
    using assms(1) by (meson in_set_takeD in_set_dropD)
  have n: "n \<le> hi - lo" using fit_count_spec(1) [OF small, of r] assms(2,3) by (simp add: n_def)
  let ?d = "8 + length (entries_data D (take n (drop lo vec)))"
  have m: "m = lo + n" and buf: "length (mock_buf (lw_file w')) = length (mock_buf (lw_file w)) + ?d"
    using mock.LogWriter_Append_None [OF _ assms(1-3), of w "()"] run assms(4)
    by (auto simp: Let_def length_batch_bytes n_def r)
  have tk: "take j ?es = take j (drop lo vec)" if "j \<le> n" for j
    using that n by (simp add: min_absorb1)
  have full: "n < hi - lo \<Longrightarrow> unat r \<le> ?d"
    and room: "0 < n \<Longrightarrow> 8 + length (entries_data D (take (n - 1) (drop lo vec))) < unat r"
    using fit_count_spec(2,3) [OF small, of r, folded n_def] assms(2,3) by (simp_all only: tk) simp_all
  have "?d < unat r + length (entry_record D (vec ! (m - 1)))" if lt: "lo < m"
  proof -
    obtain j where j: "n = Suc j" using lt m by (cases n) auto
    with n assms(2,3) have "j < length (drop lo vec)" by simp
    then show ?thesis using room by (simp add: j m take_Suc_nth entries_data_def)
  qed
  moreover have "?d \<le> 8 + length (entries_data D ?es)"
    using entries_data_take_le [of D n ?es] tk [of n] by simp
  moreover have "unat r \<le> ?d" if "m < hi" using full that m by linarith
  ultimately show ?thesis using that [of ?d] buf m n assms(2) by simp
qed

text \<open>
  C25. When does a segment end?  As long as the file is not larger than the configured size,
  \<^verbatim>\<open>Append\<close> stops before an entry only if the segment is full, and every entry but the last
  one it writes ends below the limit, so a segment exceeds it by at most one record.  Once the
  file is larger than the limit (the last record of a batch may overshoot it), the 64-bit
  difference wraps and every later batch goes into the same file: the segment is never
  rotated again.
\<close>

theorem log_writer_segment_limit:
  assumes "\<forall>e \<in> set vec. small_entry D e" "lo \<le> hi" "hi \<le> length vec" "\<not> lw_empty w"
    and run: "LogWriter_Append D MockWritableFile_ops w vec lo hi None () = Ret (Inr m, w', ())"
  shows "(length (mock_buf (lw_file w)) \<le> unat (lw_logSegmentSize w) \<longrightarrow>
      (m < hi \<longrightarrow> unat (lw_logSegmentSize w) \<le> length (mock_buf (lw_file w'))) \<and>
      (lo < m \<longrightarrow> length (mock_buf (lw_file w')) <
         unat (lw_logSegmentSize w) + length (entry_record D (vec ! (m - 1))))) \<and>
    (unat (lw_logSegmentSize w) < length (mock_buf (lw_file w)) \<longrightarrow>
      length (mock_buf (lw_file w)) + 8 + length (entries_data D (take (hi - lo) (drop lo vec)))
        < 2 ^ 64 \<longrightarrow> m = hi)"
proof -
  let ?c = "length (mock_buf (lw_file w))" and ?s = "lw_logSegmentSize w"
  define r where "r = ?s - of_nat ?c"
  obtain d where d: "length (mock_buf (lw_file w')) = ?c + d" "lo \<le> m" "m \<le> hi"
    "d \<le> 8 + length (entries_data D (take (hi - lo) (drop lo vec)))"
    "m < hi \<longrightarrow> unat r \<le> d" "lo < m \<longrightarrow> d < unat r + length (entry_record D (vec ! (m - 1)))"
    by (rule append_fill [OF assms r_def])
  show ?thesis
  proof (cases "?c \<le> unat ?s")
    case True
    then have c: "unat (of_nat ?c :: u64) = ?c"
      using unat_bound [of ?s] by (simp add: unat_of_nat)
    with True have r: "unat r = unat ?s - ?c" unfolding r_def by (subst unat_sub) (simp_all add: word_le_nat_alt)
    have "unat ?s \<le> length (mock_buf (lw_file w'))" if "m < hi"
      using d(1) d(5) [rule_format, OF that] r by linarith
    moreover have "length (mock_buf (lw_file w')) < unat ?s + length (entry_record D (vec ! (m - 1)))" if "lo < m"
      using d(1) d(6) [rule_format, OF that] r True by linarith
    ultimately show ?thesis using True by (simp only: not_less [symmetric]) simp
  next
    case False
    have "m = hi" if total: "?c + 8 + length (entries_data D (take (hi - lo) (drop lo vec))) < 2 ^ 64"
    proof (rule ccontr)
      assume "m \<noteq> hi"
      with d(3) have "m < hi" by simp
      with d(4,5) have le: "unat r \<le> 8 + length (entries_data D (take (hi - lo) (drop lo vec)))" by linarith
      have "unat (of_nat ?c :: u64) = ?c" using total by (simp add: unat_of_nat)
      then have "unat r = 2 ^ 64 + unat ?s - ?c" using False by (simp add: unat_sub_if' r_def)
      with le total show False by simp
    qed
    with False show ?thesis by simp
  qed
qed

lemma example_Append:
  "LogWriter_Append example_deps MockWritableFile_ops (example_writer (replicate 40 0) 50 False) [(1, 1, [7])] 0 1 None () =
     Ret (Inr 1, (example_writer (replicate 40 0 @ batch_bytes example_deps (entries_data example_deps [(1, 1, [7])])) 50 False)
       \<lparr>lw_meta := \<lparr>fileName = ''1-1.wal'', numEntries = 1\<rparr>\<rparr>, ())"
proof -
  let ?w = "example_writer (replicate 40 0) 50 False"
  have "1 = fit_count example_deps (lw_logSegmentSize ?w - wf_Size MockWritableFile_ops (lw_file ?w))
      (take (1 - 0) (drop 0 [(1, 1, [7])]))"
    by (simp add: fit_count_def kLogBatchHeaderSize_def Let_def example_writer_def)
  from Append_batch_None [OF _ _ _ this, of "()"] show ?thesis
    by (simp add: LogWriter_Append_def example_writer_def example_small Mock_Append_def new_SegmentMetaData_def)
qed

theorem log_writer_segment_limit_witness:
  "length (replicate 40 (0 :: byte) @ batch_bytes example_deps (entries_data example_deps [(1, 1, [7])])) < 50 +
     length (entry_record example_deps (1, 1, [7]))"
  using log_writer_segment_limit [of "[(1, 1, [7])]" example_deps 0 1, OF _ _ _ _ example_Append]
  by (simp add: example_small example_writer_def)

lemma LogWriter_Append_Some:
  assumes "\<forall>e \<in> set vec. small_entry D e" "length (hs_bytes D h) < 2 ^ 31" "lo \<le> hi" "hi \<le> length vec"
    and "lw_empty w \<longrightarrow> fst (wf_Append ops (lw_file w) kLogSegmentHeaderMagic k) = OK"
  shows "LogWriter_Append D ops w vec lo hi (Some h) k = Undef OutOfBounds"
  using assms(5) by (auto simp: LogWriter_Append_def Append_batch_Some [OF assms(1-4)] split: prod.splits)

text \<open>
  C20. A hard state breaks the batch.  The size computed for the buffer counts the type byte
  and the message but not the varint of its length, so writing the records runs past the end
  of the buffer whatever the entries and the segment: every call with a hard state whose file
  accepts the magic is undefined behaviour.
\<close>

theorem log_writer_hard_state_overflow:
  assumes "\<forall>e \<in> set vec. small_entry D e" "length (hs_bytes D h) < 2 ^ 31" "lo \<le> hi" "hi \<le> length vec"
    and "lw_empty w \<longrightarrow> fst (wf_Append ops (lw_file w) kLogSegmentHeaderMagic k) = OK"
  shows "LogWriter_Append D ops w vec lo hi (Some h) k = Undef OutOfBounds"
  by (rule LogWriter_Append_Some) (use assms in auto)

theorem log_writer_hard_state_overflow_witness:
  "LogWriter_Append example_deps MockWritableFile_ops (example_writer [] 1000 True) [(1, 1, [7])] 0 1 (Some [1, 2, 3]) () =
     Undef OutOfBounds"
  by (rule log_writer_hard_state_overflow) (simp_all add: example_small Mock_Append_def example_hs)

end
