(* ===== verification/ReadableLogSegment.thy ===== *)
theory ReadableLogSegment
  imports LogWriter
begin

section \<open>Reading log segments: wal/readable_log_segment.h, wal/readable_log_segment.cc\<close>

text \<open>
  The reader holds a pointer into the bytes of the whole segment and the number of bytes that
  remain; the model keeps the remaining bytes themselves.  The memory storage and the metadata
  the object points to are part of its state.
\<close>

record 'm ReadableLogSegment =
  rs_buf :: bytes
  rs_memStore :: 'm
  rs_metaData :: SegmentMetaData
  rs_verifyChecksum :: bool

definition Eof :: "'m ReadableLogSegment \<Rightarrow> bool" where
  "Eof seg = (length (rs_buf seg) = 0)"

definition checkRemain :: "'m ReadableLogSegment \<Rightarrow> nat \<Rightarrow> ErrorCodes" where
  "checkRemain seg need = (if length (rs_buf seg) < need then Corruption else OK)"

definition advance :: "nat \<Rightarrow> 'm ReadableLogSegment \<Rightarrow> 'm ReadableLogSegment outcome" where
  "advance n seg =
     (if n \<le> length (rs_buf seg) then Ret (seg\<lparr>rs_buf := drop n (rs_buf seg)\<rparr>) else Undef OutOfBounds)"

definition ReadHeader :: "'m ReadableLogSegment \<Rightarrow> (ErrorCodes \<times> 'm ReadableLogSegment) outcome" where
  "ReadHeader seg =
     (let s = checkRemain seg (length kLogSegmentHeaderMagic) in
      if s \<noteq> OK then Ret (s, seg)
      else if take (length kLogSegmentHeaderMagic) (rs_buf seg) \<noteq> kLogSegmentHeaderMagic
      then Ret (Corruption, seg)
      else bind_outcome (advance (length kLogSegmentHeaderMagic) seg) (\<lambda>seg. Ret (OK, seg)))"

text \<open>The loop over the records of a batch.  A record of an unknown type is skipped.\<close>

definition store_record :: "('e, 'h, 'm) deps \<Rightarrow> byte \<Rightarrow> bytes \<Rightarrow> 'm \<times> SegmentMetaData \<Rightarrow> 'm \<times> SegmentMetaData" where
  "store_record D type data st =
     (case st of (mem, meta) \<Rightarrow>
        if type = kLogEntryType
        then (mem_Append D (entry_parse D data) mem, meta\<lparr>numEntries := numEntries meta + 1\<rparr>)
        else if type = kHardStateType then (mem_SetHardState D (hs_parse D data) mem, meta)
        else (mem, meta))"

function ReadRecord_loop :: "('e, 'h, 'm) deps \<Rightarrow> bytes \<Rightarrow> 'm \<times> SegmentMetaData \<Rightarrow> ErrorCodes \<times> 'm \<times> SegmentMetaData" where
  "ReadRecord_loop D [] st = (OK, st)"
| "ReadRecord_loop D (type # record) st =
     (case GetLengthPrefixedSlice record of
        None \<Rightarrow> (Corruption, st)
      | Some (data, record) \<Rightarrow> ReadRecord_loop D record (store_record D type data st))"
  by pat_completeness auto
termination
  by (relation "measure (\<lambda>(D, r, st). length r)") (auto dest: GetLengthPrefixedSlice_suffix)

definition ReadRecord :: "('e, 'h, 'm) deps \<Rightarrow> 'm ReadableLogSegment \<Rightarrow> (ErrorCodes \<times> 'm ReadableLogSegment) outcome" where
  "ReadRecord D seg =
     (let s = checkRemain seg kLogBatchHeaderSize in
      if s \<noteq> OK then Ret (s, seg)
      else
        bind_outcome (DecodeFixed32 (plat D) (rs_buf seg)) (\<lambda>crc.
        bind_outcome (DecodeFixed32 (plat D) (drop 4 (rs_buf seg))) (\<lambda>len.
        bind_outcome (advance kLogBatchHeaderSize seg) (\<lambda>seg.
        let s = checkRemain seg (unat len) in
        if s \<noteq> OK then Ret (s, seg)
        else
          let record = take (unat len) (rs_buf seg) in
          if rs_verifyChecksum seg \<and> crc32 D record \<noteq> crc then Ret (Corruption, seg)
          else
            case ReadRecord_loop D record (rs_memStore seg, rs_metaData seg) of
              (s, mem, meta) \<Rightarrow>
                let seg = seg\<lparr>rs_memStore := mem, rs_metaData := meta\<rparr> in
                if s \<noteq> OK then Ret (s, seg)
                else bind_outcome (advance (unat len) seg) (\<lambda>seg. Ret (OK, seg))))))"

lemma ReadRecord_consumes:
  "ReadRecord D seg = Ret (OK, seg') \<Longrightarrow> length (rs_buf seg') + 8 \<le> length (rs_buf seg)"
  by (auto simp: ReadRecord_def Let_def checkRemain_def advance_def kLogBatchHeaderSize_def
      split: if_splits prod.splits)

text \<open>The loop of \<^verbatim>\<open>ReadSegmentIntoMemoryStorage\<close>; every round that goes on consumes a header.\<close>

function read_batches :: "('e, 'h, 'm) deps \<Rightarrow> 'm ReadableLogSegment \<Rightarrow> (ErrorCodes \<times> 'm ReadableLogSegment) outcome" where
  "read_batches D seg =
     (if Eof seg then Ret (OK, seg)
      else case ReadRecord D seg of
             Ret (s, seg') \<Rightarrow> if s \<noteq> OK then Ret (s, seg') else read_batches D seg'
           | Undef u \<Rightarrow> Undef u
           | Fatal \<Rightarrow> Fatal)"
  by pat_completeness auto
termination
proof (relation "measure (\<lambda>(D, seg). length (rs_buf seg))")
  fix D :: "('e, 'h, 'm) deps" and seg seg' :: "'m ReadableLogSegment" and p s
  assume "ReadRecord D seg = Ret p" "(s, seg') = p" "\<not> s \<noteq> OK"
  then have "ReadRecord D seg = Ret (OK, seg')" by auto
  from ReadRecord_consumes [OF this]
  show "((D, seg'), (D, seg)) \<in> measure (\<lambda>(D, seg). length (rs_buf seg))" by simp
qed simp

declare read_batches.simps [simp del]

definition ReadSegment :: "('e, 'h, 'm) deps \<Rightarrow> bytes \<Rightarrow> 'm \<Rightarrow> SegmentMetaData \<Rightarrow> bool
    \<Rightarrow> (ErrorCodes \<times> 'm ReadableLogSegment) outcome" where
  "ReadSegment D s memStore metaData verifyChecksum =
     (let seg = \<lparr>rs_buf = s, rs_memStore = memStore, rs_metaData = metaData, rs_verifyChecksum = verifyChecksum\<rparr> in
      bind_outcome (ReadHeader seg) (\<lambda>(s, seg).
        if s \<noteq> OK then Ret (s, seg) else read_batches D seg))"

definition ReadSegmentIntoMemoryStorage :: "('e, 'h, 'm) deps \<Rightarrow> ('f, 'r, 'k) Env \<Rightarrow> ('r, 'k) RandomAccessFile
    \<Rightarrow> string \<Rightarrow> 'm option \<Rightarrow> SegmentMetaData \<Rightarrow> bool \<Rightarrow> 'k
    \<Rightarrow> (ErrorCodes \<times> 'm \<times> SegmentMetaData \<times> 'k) outcome" where
  "ReadSegmentIntoMemoryStorage D env rops fname memStore metaData verifyChecksum k =
     (case memStore of
        None \<Rightarrow> Fatal
      | Some mem \<Rightarrow>
          bind_outcome (ReadFullyToBuffer env rops fname k) (\<lambda>(r, k).
            case r of
              Inl e \<Rightarrow> Ret (e, mem, metaData, k)
            | Inr s \<Rightarrow>
                bind_outcome (ReadSegment D s mem metaData verifyChecksum) (\<lambda>(s, seg).
                  Ret (s, rs_memStore seg, rs_metaData seg, k))))"

subsection \<open>What the reader makes of what the writer wrote\<close>

text \<open>Protobuf: parsing the serialisation of an entry gives the entry back.\<close>

definition entry_codec :: "('e, 'h, 'm) deps \<Rightarrow> 'e \<Rightarrow> bool" where
  "entry_codec D e = (small_entry D e \<and> entry_parse D (entry_bytes D e) = e)"

definition stored :: "('e, 'h, 'm) deps \<Rightarrow> 'e list \<Rightarrow> 'm \<times> SegmentMetaData \<Rightarrow> 'm \<times> SegmentMetaData" where
  "stored D es st = (fold (mem_Append D) es (fst st), (snd st)\<lparr>numEntries := numEntries (snd st) + length es\<rparr>)"

lemma stored_append: "stored D (xs @ ys) st = stored D ys (stored D xs st)"
  by (simp add: stored_def add.assoc)

lemma stored_Nil [simp]: "stored D [] st = st"
  by (simp add: stored_def)

lemma ReadRecord_loop_entries:
  "\<forall>e \<in> set es. entry_codec D e \<Longrightarrow>
   ReadRecord_loop D (entries_data D es @ rest) st = ReadRecord_loop D rest (stored D es st)"
proof (induction es arbitrary: st)
  case (Cons e es)
  then have "length (entry_bytes D e) < 2 ^ 32" by (simp add: entry_codec_def small_entry_def)
  then have get: "GetLengthPrefixedSlice (PutLengthPrefixedSlice [] (entry_bytes D e) @ entries_data D es @ rest) =
      Some (entry_bytes D e, entries_data D es @ rest)"
    by (rule GetLengthPrefixedSlice_Put)
  have "store_record D kLogEntryType (entry_bytes D e) st = stored D [e] st"
    using Cons.prems by (simp add: store_record_def stored_def entry_codec_def split: prod.splits)
  then show ?case
    using Cons.IH [of "stored D [e] st"] Cons.prems get stored_append [of D "[e]" es st]
    by (simp add: entries_data_def entry_record_def record_bytes_def)
qed (simp add: entries_data_def)

definition batch_ok :: "('e, 'h, 'm) deps \<Rightarrow> 'e list \<Rightarrow> bool" where
  "batch_ok D es = ((\<forall>e \<in> set es. entry_codec D e) \<and> length (entries_data D es) < 2 ^ 32)"

lemma ReadRecord_batch:
  assumes "rs_buf seg = batch_bytes D data @ rest" "length data < 2 ^ 32"
  shows "ReadRecord D seg =
    (case ReadRecord_loop D data (rs_memStore seg, rs_metaData seg) of
       (s, mem, meta) \<Rightarrow>
         Ret (s, seg\<lparr>rs_buf := if s = OK then rest else data @ rest, rs_memStore := mem, rs_metaData := meta\<rparr>))"
  using assms
  by (auto simp: ReadRecord_def Let_def checkRemain_def advance_def kLogBatchHeaderSize_def batch_bytes_def
      DecodeFixed32_Encode codec_simps unat_of_nat split: prod.splits)

lemma read_batches_entries:
  assumes "batch_ok D es" "rs_buf seg = batch_bytes D (entries_data D es) @ rest"
    "stored D es (rs_memStore seg, rs_metaData seg) = (mem, meta)"
  shows "read_batches D seg = read_batches D (seg\<lparr>rs_buf := rest, rs_memStore := mem, rs_metaData := meta\<rparr>)"
proof -
  have loop: "ReadRecord_loop D (entries_data D es) (rs_memStore seg, rs_metaData seg) = (OK, mem, meta)"
    using ReadRecord_loop_entries [of es D "[]"] assms(1,3) by (simp add: batch_ok_def)
  have "length (rs_buf seg) \<noteq> 0" by (simp add: assms(2) length_batch_bytes)
  then show ?thesis
    using ReadRecord_batch [OF assms(2)] assms(1) loop
    by (subst read_batches.simps) (simp add: Eof_def batch_ok_def)
qed

definition segment_bytes :: "('e, 'h, 'm) deps \<Rightarrow> 'e list list \<Rightarrow> bytes" where
  "segment_bytes D batches = kLogSegmentHeaderMagic @ concat (map (\<lambda>es. batch_bytes D (entries_data D es)) batches)"

lemma read_batches_batches:
  "\<forall>es \<in> set batches. batch_ok D es \<Longrightarrow>
   rs_buf seg = concat (map (\<lambda>es. batch_bytes D (entries_data D es)) batches) @ rest \<Longrightarrow>
   stored D (concat batches) (rs_memStore seg, rs_metaData seg) = (mem, meta) \<Longrightarrow>
   read_batches D seg = read_batches D (seg\<lparr>rs_buf := rest, rs_memStore := mem, rs_metaData := meta\<rparr>)"
proof (induction batches arbitrary: seg)
  case (Cons es batches)
  obtain mem1 meta1 where st: "stored D es (rs_memStore seg, rs_metaData seg) = (mem1, meta1)" by fastforce
  let ?rest = "concat (map (\<lambda>es. batch_bytes D (entries_data D es)) batches) @ rest"
  let ?seg = "seg\<lparr>rs_buf := ?rest, rs_memStore := mem1, rs_metaData := meta1\<rparr>"
  have "read_batches D seg = read_batches D ?seg"
    using Cons.prems by (intro read_batches_entries [OF _ _ st]) simp_all
  also have "\<dots> = read_batches D (?seg\<lparr>rs_buf := rest, rs_memStore := mem, rs_metaData := meta\<rparr>)"
    using Cons.prems st by (intro Cons.IH) (simp_all add: stored_append)
  finally show ?case by simp
next
  case Nil
  then have "seg\<lparr>rs_buf := rest, rs_memStore := mem, rs_metaData := meta\<rparr> = seg" by (cases seg) simp
  then show ?case by simp
qed

lemma ReadSegment_batches:
  assumes "\<forall>es \<in> set batches. batch_ok D es" "stored D (concat batches) (mem, meta) = (mem', meta')"
  shows "ReadSegment D (segment_bytes D batches @ rest) mem meta v =
    read_batches D \<lparr>rs_buf = rest, rs_memStore = mem', rs_metaData = meta', rs_verifyChecksum = v\<rparr>"
  using read_batches_batches [OF assms(1), of "\<lparr>rs_buf = concat (map (\<lambda>es. batch_bytes D (entries_data D es)) batches) @ rest,
      rs_memStore = mem, rs_metaData = meta, rs_verifyChecksum = v\<rparr>" rest mem' meta'] assms(2)
  by (simp add: ReadSegment_def ReadHeader_def checkRemain_def advance_def segment_bytes_def Let_def)

text \<open>
  C11. Round trip of a segment: reading a file that consists of the magic and any number of
  batches gives exactly the entries of the batches to the memory storage, in order, counts
  them in the metadata and returns OK, with or without checksum verification.
\<close>

theorem segment_roundtrip:
  assumes "\<forall>es \<in> set batches. batch_ok D es"
  shows "ReadSegment D (segment_bytes D batches) mem meta v =
    Ret (OK, \<lparr>rs_buf = [], rs_memStore = fold (mem_Append D) (concat batches) mem,
      rs_metaData = meta\<lparr>numEntries := numEntries meta + length (concat batches)\<rparr>, rs_verifyChecksum = v\<rparr>)"
  using ReadSegment_batches [OF assms, of mem meta _ _ "[]"]
  by (simp add: stored_def read_batches.simps Eof_def)

lemma example_codec: "length d < 1000 \<Longrightarrow> entry_codec example_deps (i, t, d)"
  by (auto simp: entry_codec_def example_small) (simp add: example_deps_def example_parse_def codec_simps le_word64_bytes)

lemma length_example_record:
  assumes "length d < 1000"
  shows "length (entry_record example_deps (i, t, d)) < 1100"
proof -
  have "length (entry_bytes example_deps (i, t, d)) = 16 + length d"
    by (simp add: example_deps_def codec_simps)
  with assms length_EncodeVarint32 [of "of_nat (16 + length d)"] show ?thesis
    by (simp add: entry_record_def record_bytes_def PutLengthPrefixedSlice_def PutVarint32_def)
qed

lemma example_batch_ok:
  assumes "\<forall>(i, t, d) \<in> set es. length d < 1000" "length es < 1000"
  shows "batch_ok example_deps es"
proof -
  have "length (entries_data example_deps es) \<le> 1100 * length es"
    using assms(1)
  proof (induction es)
    case (Cons e es)
    then show ?case
      using length_example_record [of "snd (snd e)" "fst e" "fst (snd e)"] by (auto simp: entries_data_def)
  qed (simp add: entries_data_def)
  with assms show ?thesis by (auto simp: batch_ok_def intro: example_codec)
qed

theorem segment_roundtrip_witness:
  "ReadSegment example_deps (segment_bytes example_deps [[(1, 1, [7]), (2, 1, [])], [(3, 2, [8])]])
     (None, []) new_SegmentMetaData True =
   Ret (OK, \<lparr>rs_buf = [], rs_memStore = (None, [(1, 1, [7]), (2, 1, []), (3, 2, [8])]),
     rs_metaData = \<lparr>fileName = [], numEntries = 3\<rparr>, rs_verifyChecksum = True\<rparr>)"
  by (subst segment_roundtrip)
    (simp_all add: example_batch_ok, simp add: example_deps_def new_SegmentMetaData_def)

subsection \<open>Arbitrary, damaged and cut-off segments\<close>

lemma ReadRecord_loop_codes: "fst (ReadRecord_loop D r st) = OK \<or> fst (ReadRecord_loop D r st) = Corruption"
  by (induction D r st rule: ReadRecord_loop.induct) (auto split: option.splits)

lemma ReadRecord_safe: "\<exists>s seg'. ReadRecord D seg = Ret (s, seg') \<and> (s = OK \<or> s = Corruption)"
proof (cases "8 \<le> length (rs_buf seg)")
  case True
  then obtain crc len where dec: "DecodeFixed32 (plat D) (rs_buf seg) = Ret crc"
    "DecodeFixed32 (plat D) (drop 4 (rs_buf seg)) = Ret len" by (simp add: DecodeFixed32_word)
  obtain s mem meta where loop:
    "ReadRecord_loop D (take (unat len) (drop 8 (rs_buf seg))) (rs_memStore seg, rs_metaData seg) = (s, mem, meta)"
    by (metis prod.exhaust)
  with ReadRecord_loop_codes [of D] have "s = OK \<or> s = Corruption" by (metis fst_conv)
  with True dec loop show ?thesis
    by (auto simp: ReadRecord_def Let_def checkRemain_def advance_def kLogBatchHeaderSize_def)
qed (simp add: ReadRecord_def Let_def checkRemain_def kLogBatchHeaderSize_def)

lemma read_batches_safe: "\<exists>s seg'. read_batches D seg = Ret (s, seg') \<and> (s = OK \<or> s = Corruption)"
proof (induction D seg rule: read_batches.induct)
  case (1 D seg)
  obtain s seg' where r: "ReadRecord D seg = Ret (s, seg')" "s = OK \<or> s = Corruption"
    using ReadRecord_safe by blast
  show ?case
    using 1 [OF _ r(1) refl] r by (subst read_batches.simps) auto
qed

text \<open>
  C19. Reading is safe on every input: whatever bytes the file holds, the reader ends, never
  looks outside the buffer, and answers OK or Corruption.
\<close>

theorem read_segment_safe:
  "\<exists>s seg. ReadSegment D s0 mem meta v = Ret (s, seg) \<and> (s = OK \<or> s = Corruption)"
  using read_batches_safe [of D]
  by (auto simp: ReadSegment_def ReadHeader_def checkRemain_def advance_def Let_def)

lemma ReadRecord_cut:
  assumes "batch_bytes D data = p @ q" "q \<noteq> []" "length data < 2 ^ 32" "rs_buf seg = p"
  shows "\<exists>b. ReadRecord D seg = Ret (Corruption, seg\<lparr>rs_buf := b\<rparr>)"
proof (cases "length p < 8")
  case True
  with assms(4) show ?thesis
    by (auto simp: ReadRecord_def Let_def checkRemain_def kLogBatchHeaderSize_def intro!: exI [of _ p])
next
  case False
  let ?h = "EncodeFixed32 (plat D) (crc32 D data) @ EncodeFixed32 (plat D) (of_nat (length data))"
  have h: "length ?h = 8" by (simp add: codec_simps)
  from assms(1) have eq: "?h @ data = p @ q" by (simp add: batch_bytes_def)
  define d where "d = drop 8 p"
  have p: "p = ?h @ d"
    using arg_cong [OF eq, of "take 8"] h False append_take_drop_id [of 8 p] by (simp add: d_def)
  have d: "data = d @ q" using eq p by simp
  have "length d < length data" using d assms(2) by simp
  then show ?thesis
    using assms(3,4) p
    by (auto simp: ReadRecord_def Let_def checkRemain_def advance_def kLogBatchHeaderSize_def
        DecodeFixed32_Encode codec_simps unat_of_nat)
qed

lemma ReadSegment_cut:
  assumes "\<forall>es \<in> set batches. batch_ok D es" "batch_ok D es"
    "batch_bytes D (entries_data D es) = p @ q" "p \<noteq> []" "q \<noteq> []"
  shows "\<exists>seg. ReadSegment D (segment_bytes D batches @ p) mem meta v = Ret (Corruption, seg) \<and>
    rs_memStore seg = fold (mem_Append D) (concat batches) mem"
proof -
  obtain mem' meta' where st: "stored D (concat batches) (mem, meta) = (mem', meta')" by fastforce
  let ?seg = "\<lparr>rs_buf = p, rs_memStore = mem', rs_metaData = meta', rs_verifyChecksum = v\<rparr>"
  obtain b where "ReadRecord D ?seg = Ret (Corruption, ?seg\<lparr>rs_buf := b\<rparr>)"
    using ReadRecord_cut [OF assms(3,5), of ?seg] assms(2) by (auto simp: batch_ok_def)
  then have "read_batches D ?seg = Ret (Corruption, ?seg\<lparr>rs_buf := b\<rparr>)"
    using assms(4) by (subst read_batches.simps) (simp add: Eof_def)
  with ReadSegment_batches [OF assms(1) st, of p v] st show ?thesis by (auto simp: stored_def)
qed

text \<open>
  A torn write is detected: if a segment ends inside a batch, reading it gives the entries
  of the complete batches to the storage, nothing of the torn one, and answers Corruption.
\<close>

lemma segment_torn_tail:
  assumes "\<forall>es \<in> set batches. batch_ok D es" "batch_ok D es"
    "batch_bytes D (entries_data D es) = p @ q" "p \<noteq> []" "q \<noteq> []"
  shows "\<exists>seg. ReadSegment D (segment_bytes D batches @ p) mem meta v = Ret (Corruption, seg) \<and>
    rs_memStore seg = fold (mem_Append D) (concat batches) mem"
  using assms by (rule ReadSegment_cut)

lemma example_split:
  "batch_bytes example_deps (entries_data example_deps es) =
     take 9 (batch_bytes example_deps (entries_data example_deps es)) @
     drop 9 (batch_bytes example_deps (entries_data example_deps es))"
  by simp

lemma segment_torn_tail_example:
  "\<exists>seg. ReadSegment example_deps (segment_bytes example_deps [[(1, 1, [7])]] @
      take 9 (batch_bytes example_deps (entries_data example_deps [(2, 1, [])]))) (None, []) new_SegmentMetaData True =
    Ret (Corruption, seg) \<and> rs_memStore seg = (None, [(1, 1, [7])])"
proof -
  have "1 < length (entries_data example_deps [(2, 1, [])])"
    by (simp add: entries_data_def entry_record_def record_bytes_def example_deps_def PutLengthPrefixedSlice_def codec_simps)
  then have "take 9 (batch_bytes example_deps (entries_data example_deps [(2, 1, [])])) \<noteq> []"
    "drop 9 (batch_bytes example_deps (entries_data example_deps [(2, 1, [])])) \<noteq> []"
    using length_batch_bytes [of example_deps "entries_data example_deps [(2, 1, [])]"] by auto
  from segment_torn_tail [OF _ _ example_split this, of "[[(1, 1, [7])]]" "(None, [])" new_SegmentMetaData True]
  show ?thesis by (simp add: example_batch_ok) (simp add: example_deps_def)
qed

text \<open>
  C26. With verification on, a batch whose data do not match the stored checksum is rejected
  before any of its records is looked at, and the storage holds the entries of the batches
  before it.
\<close>

theorem segment_bad_checksum:
  assumes "\<forall>es \<in> set batches. batch_ok D es" "crc32 D data \<noteq> crc" "length data < 2 ^ 32"
  shows "\<exists>seg. ReadSegment D (segment_bytes D batches @ EncodeFixed32 (plat D) crc @
        EncodeFixed32 (plat D) (of_nat (length data)) @ data @ rest) mem meta True = Ret (Corruption, seg) \<and>
    rs_memStore seg = fold (mem_Append D) (concat batches) mem"
proof -
  obtain mem' meta' where st: "stored D (concat batches) (mem, meta) = (mem', meta')" by fastforce
  let ?b = "EncodeFixed32 (plat D) crc @ EncodeFixed32 (plat D) (of_nat (length data)) @ data @ rest"
  let ?seg = "\<lparr>rs_buf = ?b, rs_memStore = mem', rs_metaData = meta', rs_verifyChecksum = True\<rparr>"
  have "ReadRecord D ?seg = Ret (Corruption, ?seg\<lparr>rs_buf := data @ rest\<rparr>)"
    using assms(2,3) by (simp add: ReadRecord_def Let_def checkRemain_def advance_def kLogBatchHeaderSize_def
        DecodeFixed32_Encode codec_simps unat_of_nat)
  then have "read_batches D ?seg = Ret (Corruption, ?seg\<lparr>rs_buf := data @ rest\<rparr>)"
    by (subst read_batches.simps) (simp add: Eof_def codec_simps)
  with ReadSegment_batches [OF assms(1) st, of ?b True] st show ?thesis by (auto simp: stored_def)
qed

theorem segment_bad_checksum_witness:
  "\<exists>seg. ReadSegment example_deps (segment_bytes example_deps [[(1, 1, [7])]] @ EncodeFixed32 (plat example_deps) 5 @
      EncodeFixed32 (plat example_deps) (of_nat (length [2, 2 :: byte])) @ [2, 2] @ []) (None, []) new_SegmentMetaData True =
    Ret (Corruption, seg) \<and> rs_memStore seg = (None, [(1, 1, [7])])"
  using segment_bad_checksum [of "[[(1, 1, [7])]]" example_deps "[2, 2]" 5 "[]" "(None, [])" new_SegmentMetaData]
  by (simp add: example_batch_ok) (simp add: example_deps_def)

end
