(* ===== verification/LogManager.thy ===== *)
theory LogManager
  imports ReadableLogSegment
begin

section \<open>The write-ahead log: wal/wal.h, wal/wal.cc, wal/log_manager.h, wal/log_manager.cc\<close>

text \<open>
  The manager writes batches of entries to the current segment, opens the next one when a
  segment is full, and rebuilds the memory storage from the segments of a directory.  The
  loop of \<^verbatim>\<open>doWrite\<close> has no bound of its own; it is a \<^theory_text>\<open>partial_function\<close> whose result
  is \<^const>\<open>None\<close> when it runs forever.
\<close>

record WriteAheadLogOptions =
  log_segment_size :: u64
  verify_checksum :: bool
  log_dir :: string

definition new_WriteAheadLogOptions :: WriteAheadLogOptions where
  "new_WriteAheadLogOptions = \<lparr>log_segment_size = 64 * 1024 * 1024, verify_checksum = True, log_dir = []\<rparr>"

record 'f LogManager =
  lm_current :: "'f LogWriter option"
  lm_files :: "SegmentMetaData list"
  lm_lastIndex :: u64
  lm_empty :: bool
  lm_options :: WriteAheadLogOptions

definition new_LogManager :: "WriteAheadLogOptions \<Rightarrow> 'f LogManager" where
  "new_LogManager options =
     \<lparr>lm_current = None, lm_files = [], lm_lastIndex = 0, lm_empty = False, lm_options = options\<rparr>"

definition SegmentNum :: "'f LogManager \<Rightarrow> nat" where
  "SegmentNum m = length (lm_files m) + (if lm_current m = None then 0 else 1)"

definition segment_path :: "('e, 'h, 'm) deps \<Rightarrow> string \<Rightarrow> u64 \<Rightarrow> u64 \<Rightarrow> string" where
  "segment_path D dir segId segStart = dir @ ''/'' @ SegmentFileName D segId segStart"

text \<open>\<^verbatim>\<open>LogWriter::New\<close>.\<close>

definition LogWriter_New :: "('e, 'h, 'm) deps \<Rightarrow> ('f, 'r, 'k) Env \<Rightarrow> 'f LogManager \<Rightarrow> 'k
    \<Rightarrow> 'f LogWriter StatusWith \<times> 'k" where
  "LogWriter_New D env manager k =
     (let newSegId = of_nat (length (lm_files manager)) + 1;
          newSegStart = lm_lastIndex manager + 1;
          fname = segment_path D (log_dir (lm_options manager)) newSegId newSegStart
      in case env_NewWritableFile env fname CREATE_NON_EXISTING False k of
           (Inl e, k') \<Rightarrow> (Inl e, k')
         | (Inr f, k') \<Rightarrow> (Inr (new_LogWriter f fname (log_segment_size (lm_options manager))), k'))"

definition finishCurrentWriter :: "('f, 'k) WritableFile \<Rightarrow> 'f LogManager \<Rightarrow> 'k \<Rightarrow> ('f LogManager \<times> 'k) outcome" where
  "finishCurrentWriter ops m k =
     (case lm_current m of
        None \<Rightarrow> Undef NullDereference
      | Some w \<Rightarrow>
          (case LogWriter_Finish ops w k of
             (Inl e, w', k') \<Rightarrow> Fatal
           | (Inr meta, w', k') \<Rightarrow> Ret (m\<lparr>lm_files := lm_files m @ [meta], lm_current := None\<rparr>, k')))"

partial_function (option) doWrite :: "('e, 'h, 'm) deps \<Rightarrow> ('f, 'r, 'k) Env \<Rightarrow> ('f, 'k) WritableFile \<Rightarrow> 'e list
    \<Rightarrow> nat \<Rightarrow> 'h option \<Rightarrow> 'f LogManager \<Rightarrow> 'k \<Rightarrow> (ErrorCodes \<times> 'f LogManager \<times> 'k) outcome option" where
  "doWrite D env ops vec segStart hs m k =
     (case (case lm_current m of None \<Rightarrow> LogWriter_New D env m k | Some w \<Rightarrow> (Inr w, k)) of
        (Inl e, k) \<Rightarrow> Some (Ret (e, m, k))
      | (Inr w, k) \<Rightarrow>
          (case LogWriter_Append D ops w vec segStart (length vec) hs k of
             Undef u \<Rightarrow> Some (Undef u)
           | Fatal \<Rightarrow> Some Fatal
           | Ret (Inl e, w, k) \<Rightarrow> Some (Ret (e, m\<lparr>lm_current := Some w\<rparr>, k))
           | Ret (Inr it, w, k) \<Rightarrow>
               if it = length vec then Some (Ret (OK, m\<lparr>lm_current := Some w\<rparr>, k))
               else if it = 0 then Some (Undef InvalidIterator)
               else
                 (case finishCurrentWriter ops
                         (m\<lparr>lm_current := Some w, lm_lastIndex := entry_index D (vec ! (it - 1))\<rparr>) k of
                    Undef u \<Rightarrow> Some (Undef u)
                  | Fatal \<Rightarrow> Some Fatal
                  | Ret (m, k) \<Rightarrow> doWrite D env ops vec it None m k)))"

definition LogManager_Write :: "('e, 'h, 'm) deps \<Rightarrow> ('f, 'r, 'k) Env \<Rightarrow> ('f, 'k) WritableFile \<Rightarrow> 'e list
    \<Rightarrow> 'h option \<Rightarrow> 'f LogManager \<Rightarrow> 'k \<Rightarrow> (ErrorCodes \<times> 'f LogManager \<times> 'k) outcome option" where
  "LogManager_Write D env ops entries hs m k =
     (case entries of
        [] \<Rightarrow> Some (Ret (OK, m, k))
      | e # _ \<Rightarrow>
          let m = (if lm_empty m then m\<lparr>lm_lastIndex := entry_index D e - 1, lm_empty := False\<rparr> else m)
          in doWrite D env ops entries 0 hs m k)"

definition LogManager_Sync :: "('f, 'k) WritableFile \<Rightarrow> 'f LogManager \<Rightarrow> 'k \<Rightarrow> ErrorCodes \<times> 'f LogManager \<times> 'k" where
  "LogManager_Sync ops m k =
     (case lm_current m of
        None \<Rightarrow> (OK, m, k)
      | Some w \<Rightarrow> (case LogWriter_Sync ops w k of (s, w', k') \<Rightarrow> (s, m\<lparr>lm_current := Some w'\<rparr>, k')))"

definition LogManager_Close :: "('f, 'k) WritableFile \<Rightarrow> 'f LogManager \<Rightarrow> 'k \<Rightarrow> (ErrorCodes \<times> 'f LogManager \<times> 'k) outcome" where
  "LogManager_Close ops m k =
     (case lm_current m of
        None \<Rightarrow> Ret (OK, m, k)
      | Some w \<Rightarrow> bind_outcome (finishCurrentWriter ops m k) (\<lambda>(m, k). Ret (OK, m, k)))"

definition LogManager_GC :: "'f LogManager \<Rightarrow> ErrorCodes \<times> 'f LogManager" where
  "LogManager_GC m = (OK, m)"

text \<open>The destructor closes the log and drops the status; a writer that cannot be finished ends the process.\<close>

definition delete_LogManager :: "('f, 'k) WritableFile \<Rightarrow> 'f LogManager \<Rightarrow> 'k \<Rightarrow> 'k outcome" where
  "delete_LogManager ops m k = bind_outcome (LogManager_Close ops m k) (\<lambda>(s, m, k). Ret k)"

text \<open>The three forms of \<^verbatim>\<open>WriteAheadLog::Write\<close>: the virtual one and the two that call it.\<close>

definition Write_entries :: "('e, 'h, 'm) deps \<Rightarrow> ('f, 'r, 'k) Env \<Rightarrow> ('f, 'k) WritableFile \<Rightarrow> 'e list
    \<Rightarrow> 'f LogManager \<Rightarrow> 'k \<Rightarrow> (ErrorCodes \<times> 'f LogManager \<times> 'k) outcome option" where
  "Write_entries D env ops vec = LogManager_Write D env ops vec None"

definition Write_hard_state :: "('e, 'h, 'm) deps \<Rightarrow> ('f, 'r, 'k) Env \<Rightarrow> ('f, 'k) WritableFile \<Rightarrow> 'h option
    \<Rightarrow> 'f LogManager \<Rightarrow> 'k \<Rightarrow> (ErrorCodes \<times> 'f LogManager \<times> 'k) outcome option" where
  "Write_hard_state D env ops hs = LogManager_Write D env ops [] hs"

subsection \<open>Recovery\<close>

definition isWal :: "string \<Rightarrow> bool" where
  "isWal fname = (length fname > 4 \<and> drop (length fname - 4) fname = ''.wal'')"

text \<open>
  \<^verbatim>\<open>sscanf\<close> with \<^verbatim>\<open>%zu\<close>: skip white space, take an optional sign and the longest run of digits;
  no digits is a matching failure, which leaves this and all later arguments unassigned.  As
  with \<^verbatim>\<open>strtoul\<close>, a value that does not fit gives the largest one.
\<close>

definition is_digit :: "char \<Rightarrow> bool" where
  "is_digit c = (48 \<le> (of_char c :: nat) \<and> (of_char c :: nat) \<le> 57)"

definition is_space :: "char \<Rightarrow> bool" where
  "is_space c = ((of_char c :: nat) = 32 \<or> 9 \<le> (of_char c :: nat) \<and> (of_char c :: nat) \<le> 13)"

definition digits_value :: "string \<Rightarrow> nat" where
  "digits_value ds = foldl (\<lambda>v c. 10 * v + (of_char c - 48)) 0 ds"

definition scan_zu :: "string \<Rightarrow> (u64 \<times> string) option" where
  "scan_zu s =
     (let s = dropWhile is_space s;
          neg = (s \<noteq> [] \<and> hd s = CHR ''-'');
          s = (if s \<noteq> [] \<and> (hd s = CHR ''-'' \<or> hd s = CHR ''+'') then tl s else s);
          ds = takeWhile is_digit s;
          v = (of_nat (min (digits_value ds) (2 ^ 64 - 1)) :: u64)
      in if ds = [] then None
         else Some (if neg \<and> digits_value ds < 2 ^ 64 then - v else v, dropWhile is_digit s))"

text \<open>The result of \<^verbatim>\<open>sscanf\<close> is ignored: \<^const>\<open>None\<close> is a variable that keeps its indeterminate value.\<close>

definition parseWalName :: "string \<Rightarrow> u64 option \<times> u64 option" where
  "parseWalName fname =
     (case scan_zu fname of
        None \<Rightarrow> (None, None)
      | Some (segId, s) \<Rightarrow>
          (case s of
             c # s' \<Rightarrow>
               if c = CHR ''-'' then
                 (case scan_zu s' of None \<Rightarrow> (Some segId, None) | Some (segStart, _) \<Rightarrow> (Some segId, Some segStart))
               else (Some segId, None)
           | [] \<Rightarrow> (Some segId, None)))"

fun find_wals :: "string list \<Rightarrow> (u64 \<times> u64) list \<Rightarrow> (u64 \<times> u64) list outcome" where
  "find_wals [] wals = Ret wals"
| "find_wals (f # files) wals =
     (if isWal f then
        case parseWalName f of
          (Some segId, Some segStart) \<Rightarrow> find_wals files (map_assign segId segStart wals)
        | _ \<Rightarrow> Undef Indeterminate
      else find_wals files wals)"

fun recover_segments :: "('e, 'h, 'm) deps \<Rightarrow> ('f, 'r, 'k) Env \<Rightarrow> ('r, 'k) RandomAccessFile \<Rightarrow> (u64 \<times> u64) list
    \<Rightarrow> 'm \<Rightarrow> 'f LogManager \<Rightarrow> 'k \<Rightarrow> (ErrorCodes \<times> 'm \<times> 'f LogManager \<times> 'k) outcome" where
  "recover_segments D env rops [] mem m k = Ret (OK, mem, m, k)"
| "recover_segments D env rops ((segId, segStart) # wals) mem m k =
     (let fname = segment_path D (log_dir (lm_options m)) segId segStart in
      bind_outcome (ReadSegmentIntoMemoryStorage D env rops fname (Some mem) new_SegmentMetaData
                      (verify_checksum (lm_options m)) k) (\<lambda>(s, mem, meta, k).
        if s \<noteq> OK then Ret (s, mem, m, k)
        else recover_segments D env rops wals mem (m\<lparr>lm_files := lm_files m @ [meta]\<rparr>) k))"

definition Recover :: "('e, 'h, 'm) deps \<Rightarrow> ('f, 'r, 'k) Env \<Rightarrow> ('r, 'k) RandomAccessFile \<Rightarrow> WriteAheadLogOptions
    \<Rightarrow> 'm option \<Rightarrow> 'k \<Rightarrow> (ErrorCodes \<times> 'm option \<times> 'f LogManager option \<times> 'k) outcome" where
  "Recover D env rops options memstore k =
     (case env_CreateDirIfMissing env (log_dir options) k of
        (s, k) \<Rightarrow>
          if s \<noteq> OK then Ret (s, memstore, None, k)
          else
            bind_outcome (env_GetChildren env (log_dir options) [] k) (\<lambda>(s, files).
              if s \<noteq> OK then Ret (s, memstore, None, k)
              else
                bind_outcome (find_wals files []) (\<lambda>wals.
                  let m = new_LogManager options in
                  if wals = [] then Ret (OK, memstore, Some m, k)
                  else
                    let m = m\<lparr>lm_empty := False\<rparr> in
                    if memstore \<noteq> None then Fatal
                    else
                      bind_outcome (recover_segments D env rops wals (mem_new D) m k) (\<lambda>(s, mem, m, k).
                        Ret (s, Some mem, Some m, k)))))"

text \<open>\<^verbatim>\<open>WriteAheadLog::Default\<close>: the recovered manager, which must not be null.\<close>

definition WriteAheadLog_Default :: "('e, 'h, 'm) deps \<Rightarrow> ('f, 'r, 'k) Env \<Rightarrow> ('r, 'k) RandomAccessFile \<Rightarrow> WriteAheadLogOptions
    \<Rightarrow> 'm option \<Rightarrow> 'k \<Rightarrow> (ErrorCodes \<times> 'm option \<times> 'f LogManager option \<times> 'k) outcome" where
  "WriteAheadLog_Default D env rops options memstore k =
     bind_outcome (Recover D env rops options memstore k) (\<lambda>(s, memstore, lm, k).
       if s \<noteq> OK then Ret (s, memstore, None, k)
       else case lm of None \<Rightarrow> Fatal | Some m \<Rightarrow> Ret (OK, memstore, Some m, k))"

subsection \<open>AppendToMemStore\<close>

text \<open>The loop that looks, from the back, for the last entry with a smaller index; \<open>n\<close> is \<^verbatim>\<open>del + 1\<close>.\<close>

fun keep_loop :: "('e, 'h, 'm) deps \<Rightarrow> 'e \<Rightarrow> 'e list \<Rightarrow> nat \<Rightarrow> nat" where
  "keep_loop D e vec 0 = 0"
| "keep_loop D e vec (Suc del) =
     (if entry_index D (vec ! del) < entry_index D e then Suc del else keep_loop D e vec del)"

definition AppendToMemStore :: "('e, 'h, 'm) deps \<Rightarrow> 'e \<Rightarrow> 'm \<Rightarrow> ErrorCodes \<times> 'm" where
  "AppendToMemStore D e memstore =
     (let vec = mem_TEST_Entries D memstore in
      if vec \<noteq> [] \<and> entry_term D e < entry_term D (last vec) then (YARaftError, memstore)
      else
        let memstore =
              (if vec \<noteq> [] then mem_with_Entries D (take (keep_loop D e vec (length vec)) vec) memstore
               else memstore)
        in (OK, mem_Append D e memstore))"

fun AppendVecToMemStore :: "('e, 'h, 'm) deps \<Rightarrow> 'e list \<Rightarrow> 'm \<Rightarrow> ErrorCodes \<times> 'm" where
  "AppendVecToMemStore D [] memstore = (OK, memstore)"
| "AppendVecToMemStore D (e # vec) memstore =
     (case AppendToMemStore D e memstore of
        (s, memstore) \<Rightarrow> if s \<noteq> OK then (s, memstore) else AppendVecToMemStore D vec memstore)"

subsection \<open>Segment names\<close>

text \<open>fmt prints an integer as its decimal digits.\<close>

definition fmt_law :: "('e, 'h, 'm) deps \<Rightarrow> bool" where
  "fmt_law D = (\<forall>n. fmt_u64 D n = decimal (unat n))"

lemma of_char_digit: "d < 10 \<Longrightarrow> (of_char (char_of (48 + d) :: char) :: nat) = 48 + d"
  by (simp add: of_char_of)

lemma decimal_digits: "decimal n \<noteq> [] \<and> list_all is_digit (decimal n) \<and> digits_value (decimal n) = n"
proof (induction n rule: decimal.induct)
  case (1 n)
  have d: "is_digit (char_of (48 + n mod 10))" "(of_char (char_of (48 + n mod 10) :: char) :: nat) = 48 + n mod 10"
    using of_char_digit [of "n mod 10"] by (simp_all add: is_digit_def)
  show ?case
  proof (cases "n < 10")
    case True
    with d show ?thesis by (simp add: decimal.simps [of n] digits_value_def)
  next
    case False
    with 1 d have "10 * digits_value (decimal (n div 10)) + n mod 10 = n" by simp
    with False 1 d show ?thesis by (simp add: decimal.simps [of n] digits_value_def)
  qed
qed

lemma decimal_hd: "\<exists>c cs. decimal n = c # cs \<and> is_digit c \<and> list_all is_digit cs"
  using decimal_digits [of n] by (cases "decimal n") auto

lemma scan_decimal:
  assumes "n < 2 ^ 64" "\<not> is_digit c"
  shows "scan_zu (decimal n @ c # s) = Some (of_nat n, c # s)"
proof -
  obtain a cs where a: "decimal n = a # cs" "is_digit a" "list_all is_digit cs" using decimal_hd by blast
  then have na: "\<not> is_space a" "a \<noteq> CHR ''-''" "a \<noteq> CHR ''+''" by (auto simp: is_digit_def is_space_def)
  have tw: "takeWhile is_digit (decimal n @ c # s) = decimal n" "dropWhile is_digit (decimal n @ c # s) = c # s"
    using decimal_digits [of n] assms(2) by (auto simp: takeWhile_append dropWhile_append list_all_iff)
  have "dropWhile is_space (decimal n @ c # s) = decimal n @ c # s" using a na by simp
  then show ?thesis
    using a na tw decimal_digits [of n] assms(1) by (simp add: scan_zu_def Let_def min_def)
qed

lemma parse_SegmentFileName:
  assumes "fmt_law D"
  shows "isWal (SegmentFileName D segId segStart) \<and>
    parseWalName (SegmentFileName D segId segStart) = (Some segId, Some segStart)"
proof
  show "isWal (SegmentFileName D segId segStart)"
    using assms decimal_digits by (simp add: isWal_def SegmentFileName_def fmt_law_def)
  have nd: "\<not> is_digit (CHR ''-'')" "\<not> is_digit (CHR ''.'')" by (simp_all add: is_digit_def)
  have u: "unat v < 2 ^ 64" for v :: u64 using unat_bound [of v] by simp
  show "parseWalName (SegmentFileName D segId segStart) = (Some segId, Some segStart)"
    using assms scan_decimal [OF u nd(1), of segId] scan_decimal [OF u nd(2), of segStart]
    by (simp add: parseWalName_def SegmentFileName_def fmt_law_def)
qed

lemma SegmentFileName_inject:
  "fmt_law D \<Longrightarrow> SegmentFileName D i s = SegmentFileName D i' s' \<longleftrightarrow> i = i' \<and> s = s'"
  using parse_SegmentFileName by (metis option.inject prod.inject)

lemma example_fmt: "fmt_law example_deps"
  by (simp add: fmt_law_def example_deps_def)

lemma find_wals_Indeterminate:
  "isWal f \<Longrightarrow> snd (parseWalName f) = None \<Longrightarrow> f \<in> set files \<Longrightarrow> find_wals files wals = Undef Indeterminate"
  by (induction files wals rule: find_wals.induct) (auto split: prod.splits option.splits)

lemma parse_no_number:
  "\<not> is_digit c \<Longrightarrow> \<not> is_space c \<Longrightarrow> c \<noteq> CHR ''-'' \<Longrightarrow> c \<noteq> CHR ''+'' \<Longrightarrow> parseWalName (c # cs) = (None, None)"
  by (simp add: parseWalName_def scan_zu_def)

lemma parse_one_number:
  "n < 2 ^ 64 \<Longrightarrow> parseWalName (decimal n @ ''.wal'') = (Some (of_nat n), None)"
  using scan_decimal [of n "CHR ''.''" "''wal''"] by (simp add: parseWalName_def is_digit_def)

text \<open>
  C27. The name of a segment is read back: \<^verbatim>\<open>isWal\<close> accepts every name \<^verbatim>\<open>SegmentFileName\<close> makes
  and \<^verbatim>\<open>parseWalName\<close> gives the two numbers, so different segments have different names.  A
  directory with one file that has the right suffix but whose name starts with something other than white
  space, a sign or a digit, or has only one number, makes \<^verbatim>\<open>Recover\<close> read a variable that \<^verbatim>\<open>sscanf\<close> has not
  set, whatever else is in the directory.
\<close>

theorem segment_name_roundtrip:
  assumes "fmt_law D"
  shows "isWal (SegmentFileName D segId segStart) \<and>
    parseWalName (SegmentFileName D segId segStart) = (Some segId, Some segStart) \<and>
    (isWal (c # cs) \<and> \<not> is_digit c \<and> \<not> is_space c \<and> c \<noteq> CHR ''-'' \<and> c \<noteq> CHR ''+'' \<and> c # cs \<in> set files \<longrightarrow>
      find_wals files wals = Undef Indeterminate) \<and>
    (n < 2 ^ 64 \<and> decimal n @ ''.wal'' \<in> set files \<longrightarrow> find_wals files wals = Undef Indeterminate)"
proof -
  have "isWal (decimal n @ ''.wal'')" using decimal_hd [of n] by (auto simp: isWal_def)
  then show ?thesis
    using parse_SegmentFileName [OF assms] find_wals_Indeterminate parse_no_number parse_one_number by fastforce
qed

theorem segment_name_roundtrip_witness:
  "parseWalName (SegmentFileName example_deps 3 17) = (Some 3, Some 17) \<and>
   find_wals [''1-1.wal'', ''abc.wal''] [] = Undef Indeterminate"
  using segment_name_roundtrip [OF example_fmt, of 3 17 "CHR ''a''" "''bc.wal''" "[''1-1.wal'', ''abc.wal'']" "[]"]
  by (simp add: isWal_def is_digit_def is_space_def del: find_wals.simps)

subsection \<open>AppendToMemStore\<close>

lemma keep_loop_spec:
  "n \<le> length vec \<Longrightarrow> take (keep_loop D e vec n) vec =
     rev (dropWhile (\<lambda>x. \<not> entry_index D x < entry_index D e) (rev (take n vec)))"
proof (induction n)
  case (Suc n)
  then show ?case by (simp add: take_Suc_nth)
qed simp

lemma keep_sorted:
  "sorted (map f xs) \<Longrightarrow> rev (dropWhile (\<lambda>x. \<not> f x < (v :: 'b :: linorder)) (rev xs)) = filter (\<lambda>x. f x < v) xs"
proof (induction xs rule: rev_induct)
  case (snoc x xs)
  then show ?case
    by (auto simp: sorted_append intro!: filter_True [symmetric] dest: order.strict_trans1)
qed simp

lemma sorted_last: "sorted (map f xs) \<Longrightarrow> x \<in> set xs \<Longrightarrow> f x \<le> f (last xs)"
  by (induction xs) auto

definition log_sorted :: "('e, 'h, 'm) deps \<Rightarrow> 'e list \<Rightarrow> bool" where
  "log_sorted D es = (sorted_wrt (<) (map (entry_index D) es) \<and> sorted (map (entry_term D) es))"

text \<open>
  C28. \<^verbatim>\<open>AppendToMemStore\<close> on a log with increasing indices and non-decreasing terms: an entry
  whose term is lower than the last one is refused and nothing changes.  For any other entry
  the storage is cut down to exactly the entries with a smaller index before the entry is given to the
  storage's \<^verbatim>\<open>Append\<close>, and the entry continues what is left as a log with increasing indices
  and non-decreasing terms.
\<close>

theorem append_to_mem_store:
  assumes "log_sorted D (mem_TEST_Entries D mem)"
  shows "let vec = mem_TEST_Entries D mem; kept = filter (\<lambda>x. entry_index D x < entry_index D e) vec in
    if vec \<noteq> [] \<and> entry_term D e < entry_term D (last vec) then AppendToMemStore D e mem = (YARaftError, mem)
    else AppendToMemStore D e mem = (OK, mem_Append D e (if vec = [] then mem else mem_with_Entries D kept mem)) \<and>
      log_sorted D (kept @ [e])"
proof (cases "mem_TEST_Entries D mem \<noteq> [] \<and> entry_term D e < entry_term D (last (mem_TEST_Entries D mem))")
  case False
  let ?v = "mem_TEST_Entries D mem"
  let ?f = "filter (\<lambda>x. entry_index D x < entry_index D e) ?v"
  have "sorted (map (entry_index D) ?v)"
    using assms by (auto simp: log_sorted_def strict_sorted_imp_sorted)
  then have "take (keep_loop D e ?v (length ?v)) ?v = ?f"
    by (simp add: keep_loop_spec keep_sorted)
  with False have "AppendToMemStore D e mem = (OK, mem_Append D e (if ?v = [] then mem else mem_with_Entries D ?f mem))"
    by (auto simp: AppendToMemStore_def Let_def)
  moreover have "entry_term D x \<le> entry_term D e" if "x \<in> set ?v" for x
  proof -
    have "entry_term D x \<le> entry_term D (last ?v)"
      using assms that by (intro sorted_last) (auto simp: log_sorted_def)
    with False that show ?thesis by (auto simp: not_less)
  qed
  then have "log_sorted D (?f @ [e])"
    using assms by (auto simp: log_sorted_def sorted_wrt_append sorted_wrt_map sorted_wrt_filter sorted_map
        intro: sorted_wrt_filter)
  ultimately show ?thesis using False by (auto simp: Let_def)
qed (auto simp: AppendToMemStore_def Let_def)

theorem append_to_mem_store_witness:
  "\<exists>mem'. AppendToMemStore example_deps (2, 3, []) (None, [(1, 1, []), (2, 2, []), (3, 2, [])]) = (OK, mem') \<and>
     mem_TEST_Entries example_deps mem' = [(1, 1, []), (2, 3, [])]"
  using append_to_mem_store [of example_deps "(None, [(1, 1, []), (2, 2, []), (3, 2, [])])" "(2, 3, [])"]
  by (simp add: log_sorted_def) (simp add: example_deps_def)

subsection \<open>What a manager has written\<close>

text \<open>
  The segments of a manager as the pairs of their first index and the batches written to them,
  the current one last.  The invariant: the files of the directory with the suffix of a segment
  are exactly those, each with the bytes of its batches; the current writer appends to the last.
\<close>

type_synonym 'e segments = "(u64 \<times> 'e list list) list"

definition seg_path :: "('e, 'h, 'm) deps \<Rightarrow> 'f LogManager \<Rightarrow> 'e segments \<Rightarrow> nat \<Rightarrow> string" where
  "seg_path D m segs i = segment_path D (log_dir (lm_options m)) (of_nat i + 1) (fst (segs ! i))"

definition lm_files_ok :: "('e, 'h, 'm) deps \<Rightarrow> 'f LogManager \<Rightarrow> (string \<rightharpoonup> bytes) \<Rightarrow> 'e segments \<Rightarrow> bool" where
  "lm_files_ok D m files segs =
     ((\<forall>i < length segs. files (seg_path D m segs i) = Some (segment_bytes D (snd (segs ! i)))) \<and>
      (\<forall>i < length segs. \<forall>j < i. seg_path D m segs j \<noteq> seg_path D m segs i) \<and>
      (\<forall>seg \<in> set segs. \<forall>es \<in> set (snd seg). batch_ok D es) \<and>
      (\<forall>n. isWal n \<longrightarrow> files (log_dir (lm_options m) @ ''/'' @ n) \<noteq> None \<longrightarrow>
         (\<exists>i < length segs. n = SegmentFileName D (of_nat i + 1) (fst (segs ! i)))))"

definition lm_inv :: "('e, 'h, 'm) deps \<Rightarrow> ('f \<Rightarrow> 'k \<Rightarrow> bool) \<Rightarrow> ('f \<Rightarrow> string) \<Rightarrow> ('k \<Rightarrow> string \<rightharpoonup> bytes)
    \<Rightarrow> 'f LogManager \<Rightarrow> 'k \<Rightarrow> 'e segments \<Rightarrow> bool" where
  "lm_inv D is_open name view m k segs =
     (lm_files_ok D m (view k) segs \<and>
      (case lm_current m of
         None \<Rightarrow> length (lm_files m) = length segs
       | Some w \<Rightarrow> length segs = Suc (length (lm_files m)) \<and> is_open (lw_file w) k \<and> \<not> lw_empty w \<and>
           name (lw_file w) = seg_path D m segs (length (lm_files m)) \<and>
           lw_logSegmentSize w = log_segment_size (lm_options m)))"

definition seg_entries :: "'e segments \<Rightarrow> 'e list" where
  "seg_entries segs = concat (concat (map snd segs))"

lemma seg_path_inject:
  "fmt_law D \<Longrightarrow> seg_path D m segs i = segment_path D (log_dir (lm_options m)) (of_nat j + 1) s \<longleftrightarrow>
     (of_nat i :: u64) = of_nat j \<and> fst (segs ! i) = s"
  by (simp add: seg_path_def segment_path_def SegmentFileName_inject)

text \<open>Adding an empty batch list for a new segment, and a batch to the last segment.\<close>

lemma seg_path_new: "seg_path D m (segs @ [(start, bs)]) (length segs) =
    segment_path D (log_dir (lm_options m)) (of_nat (length segs) + 1) start"
  by (simp add: seg_path_def)

lemma seg_path_old: "i < length segs \<Longrightarrow> seg_path D m (segs @ ss) i = seg_path D m segs i"
  by (simp add: seg_path_def nth_append)

lemmas seg_path_simps = seg_path_new seg_path_old

lemma lm_files_ok_new:
  assumes ok: "lm_files_ok D m files segs"
    and p: "p = segment_path D (log_dir (lm_options m)) (of_nat (length segs) + 1) start"
    and new: "files p = None" "\<forall>es \<in> set bs. batch_ok D es"
  shows "lm_files_ok D m (files(p \<mapsto> segment_bytes D bs)) (segs @ [(start, bs)])"
proof -
  have ne: "seg_path D m segs i \<noteq> p" if "i < length segs" for i
    using ok new(1) that by (auto simp: lm_files_ok_def)
  have wal: "\<exists>i < Suc (length segs). n = SegmentFileName D (of_nat i + 1) (fst ((segs @ [(start, bs)]) ! i))"
    if n: "isWal n" "(files(p \<mapsto> segment_bytes D bs)) (log_dir (lm_options m) @ ''/'' @ n) \<noteq> None" for n
  proof (cases "log_dir (lm_options m) @ ''/'' @ n = p")
    case True
    then show ?thesis by (auto simp: p segment_path_def intro!: exI [of _ "length segs"])
  next
    case False
    with ok n obtain i where "i < length segs" "n = SegmentFileName D (of_nat i + 1) (fst (segs ! i))"
      by (auto simp: lm_files_ok_def)
    then show ?thesis by (auto simp: nth_append intro!: exI [of _ i])
  qed
  show ?thesis
    using ok ne new(2) wal unfolding lm_files_ok_def
    by (auto simp: less_Suc_eq seg_path_simps nth_append p [symmetric])
qed

lemma lm_files_ok_append:
  assumes ok: "lm_files_ok D m files (segs @ [(start, bs)])"
    and p: "p = seg_path D m (segs @ [(start, bs)]) (length segs)" and es: "batch_ok D es"
  shows "lm_files_ok D m (files(p \<mapsto> segment_bytes D (bs @ [es]))) (segs @ [(start, bs @ [es])])"
proof -
  have path: "seg_path D m (segs @ [(start, bs @ [es])]) i = seg_path D m (segs @ [(start, bs)]) i"
    if "i \<le> length segs" for i
    using that by (simp add: seg_path_def nth_append)
  have ne: "seg_path D m (segs @ [(start, bs)]) i \<noteq> p" if "i < length segs" for i
    using ok that by (auto simp: lm_files_ok_def p)
  have wal: "\<exists>i < Suc (length segs). n = SegmentFileName D (of_nat i + 1) (fst ((segs @ [(start, bs @ [es])]) ! i))"
    if n: "isWal n" "(files(p \<mapsto> segment_bytes D (bs @ [es]))) (log_dir (lm_options m) @ ''/'' @ n) \<noteq> None" for n
  proof -
    have "files p \<noteq> None" using ok by (auto simp: lm_files_ok_def p)
    with ok n obtain i where "i < Suc (length segs)" "n = SegmentFileName D (of_nat i + 1) (fst ((segs @ [(start, bs)]) ! i))"
      by (auto simp: lm_files_ok_def split: if_splits)
    then show ?thesis by (auto simp: nth_append intro!: exI [of _ i] split: if_splits)
  qed
  show ?thesis
    using ok ne es wal unfolding lm_files_ok_def
    by (auto simp: less_Suc_eq path p [symmetric] nth_append)
qed

lemma batch_ok_part:
  assumes "\<forall>e \<in> set vec. entry_codec D e" "length (entries_data D vec) < 2 ^ 32"
  shows "batch_ok D (take n (drop lo vec))"
proof -
  have "vec = take lo vec @ take n (drop lo vec) @ drop n (drop lo vec)" by (simp only: append_take_drop_id)
  then have "entries_data D vec = entries_data D (take lo vec) @ entries_data D (take n (drop lo vec)) @
      entries_data D (drop n (drop lo vec))"
    unfolding entries_data_def by (metis concat_append map_append)
  then have "length (entries_data D (take n (drop lo vec))) < 2 ^ 32" using assms(2) by simp
  with assms(1) show ?thesis by (auto simp: batch_ok_def dest: in_set_takeD in_set_dropD)
qed

lemma segment_bytes_snoc: "segment_bytes D (bs @ [es]) = segment_bytes D bs @ batch_bytes D (entries_data D es)"
  by (simp add: segment_bytes_def)

lemma lm_files_ok_cong: "lm_options m' = lm_options m \<Longrightarrow> lm_files_ok D m' files segs = lm_files_ok D m files segs"
  by (simp add: lm_files_ok_def seg_path_def)

lemma pair_sum_cases:
  obtains (Inl) a k where "x = (Inl a, k)" | (Inr) a k where "x = (Inr a, k)"
  by (metis prod.exhaust sum.exhaust)

lemma outcome_sum_cases:
  obtains (Inl) a w k where "x = Ret (Inl a, w, k)" | (Inr) a w k where "x = Ret (Inr a, w, k)"
  | (Undef) u where "x = Undef u" | (Fatal) "x = Fatal"
  by (metis outcome.exhaust prod.exhaust sum.exhaust)

lemma Append_error:
  assumes "\<forall>e \<in> set vec. small_entry D e" "lo \<le> hi" "hi \<le> length vec"
    "LogWriter_Append D ops w vec lo hi None k = Ret (Inl e, w', k')"
  shows "e \<noteq> OK"
  using assms(4)
  by (auto simp: LogWriter_Append_def Append_batch_None [OF assms(1-3) refl] split: if_splits prod.splits)

context writable_file
begin

lemma Append_None_bound:
  assumes "is_open (lw_file w) k" "\<forall>e \<in> set vec. small_entry D e" "lo \<le> hi" "hi \<le> length vec"
    "LogWriter_Append D ops w vec lo hi None k = Ret (Inr it, w', k')"
  shows "lo \<le> it \<and> it \<le> hi"
proof -
  have "\<forall>e \<in> set (take (hi - lo) (drop lo vec)). small_entry D e"
    using assms(2) by (meson in_set_takeD in_set_dropD)
  from fit_count_spec(1) [OF this] have "lo + fit_count D r (take (hi - lo) (drop lo vec)) \<le> hi" for r
    using assms(3,4) by (simp add: le_diff_conv2 add.commute)
  with LogWriter_Append_None [OF assms(1-4)] assms(5) show ?thesis by (auto simp: Let_def)
qed

end

context file_system
begin

lemma New_writer_error: "LogWriter_New D env m k = (Inl e, k') \<Longrightarrow> e \<noteq> OK"
  by (auto simp: LogWriter_New_def Let_def dest: New_error split: prod.splits sum.splits)

lemma LogWriter_Append_view:
  assumes "is_open (lw_file w) k" "\<forall>e \<in> set vec. small_entry D e" "lo \<le> hi" "hi \<le> length vec"
    "LogWriter_Append D ops w vec lo hi None k = Ret (Inr it, w', k')"
  shows "name (lw_file w') = name (lw_file w) \<and> view k' = (view k)(name (lw_file w) \<mapsto> content (lw_file w') k')"
proof -
  have batch: "name (lw_file w') = name (lw_file v) \<and> view k' = (view k1)(name (lw_file v) \<mapsto> content (lw_file w') k')"
    if "is_open (lw_file v) k1" "Append_batch D ops v vec lo hi None k1 = Ret (Inr it, w', k')" for v k1
    using that(2) Append_view [OF that(1)] Append_OK [OF that(1)]
    by (subst (asm) Append_batch_None [OF assms(2-4) refl]) (auto split: prod.splits if_splits)
  show ?thesis
  proof (cases "lw_empty w")
    case True
    with assms(5) obtain f1 k1 where f: "wf_Append ops (lw_file w) kLogSegmentHeaderMagic k = (OK, f1, k1)"
      and b: "Append_batch D ops (w\<lparr>lw_file := f1, lw_empty := False\<rparr>) vec lo hi None k1 = Ret (Inr it, w', k')"
      by (auto simp: LogWriter_Append_def split: prod.splits if_splits)
    from Append_OK [OF assms(1) f] Append_view [OF assms(1) f] batch [OF _ b] show ?thesis by simp
  next
    case False
    with assms batch [OF assms(1)] show ?thesis by (simp add: LogWriter_Append_def)
  qed
qed

lemma New_writer_open: "LogWriter_New D env m k = (Inr w, k') \<Longrightarrow> is_open (lw_file w) k'"
  by (auto simp: LogWriter_New_def Let_def new_LogWriter_def dest: New_OK split: prod.splits sum.splits)

text \<open>One round of the loop of \<^verbatim>\<open>doWrite\<close>: the batch is added to a new segment, or to the last.\<close>

lemma round_new:
  assumes inv: "lm_inv D is_open name view m k segs" "lm_current m = None"
    and vec: "\<forall>e \<in> set vec. entry_codec D e" "length (entries_data D vec) < 2 ^ 32" "lo \<le> length vec"
    and new: "LogWriter_New D env m k = (Inr w, k1)"
    and app: "LogWriter_Append D ops w vec lo (length vec) None k1 = Ret (Inr it, w', k')"
  shows "\<exists>segs'. lm_inv D is_open name view (m\<lparr>lm_current := Some w'\<rparr>) k' segs' \<and> lo \<le> it \<and>
    seg_entries segs' = seg_entries segs @ take (it - lo) (drop lo vec)"
proof -
  let ?start = "lm_lastIndex m + 1"
  define p where "p = segment_path D (log_dir (lm_options m)) (of_nat (length segs) + 1) ?start"
  have len: "length (lm_files m) = length segs" using inv by (simp add: lm_inv_def)
  from new obtain f where f: "env_NewWritableFile env p CREATE_NON_EXISTING False k = (Inr f, k1)"
    and w: "w = new_LogWriter f p (log_segment_size (lm_options m))"
    by (auto simp: LogWriter_New_def Let_def p_def len split: prod.splits sum.splits)
  note F = New_OK [OF f]
  have small: "\<forall>e \<in> set vec. small_entry D e" using vec(1) by (simp add: entry_codec_def)
  have op: "is_open (lw_file w) k1" using F w by (simp add: new_LogWriter_def)
  note A = LogWriter_Append_None [OF op small vec(3) order_refl] and V = LogWriter_Append_view [OF op small vec(3) order_refl app]
  let ?es = "take (it - lo) (drop lo vec)"
  have w': "lo \<le> it" "is_open (lw_file w') k'" "\<not> lw_empty w'" "content (lw_file w') k' = segment_bytes D [?es]"
    "lw_logSegmentSize w' = log_segment_size (lm_options m)"
    using A app F w by (auto simp: new_LogWriter_def Let_def segment_bytes_def)
  have "name (lw_file w') = p \<and> view k' = (view k)(p \<mapsto> segment_bytes D [?es])"
    using V F w w'(4) by (simp add: new_LogWriter_def)
  moreover have "lm_files_ok D m ((view k)(p \<mapsto> segment_bytes D [?es])) (segs @ [(?start, [?es])])"
    using inv F batch_ok_part [OF vec(1,2)] by (intro lm_files_ok_new [OF _ p_def]) (auto simp: lm_inv_def)
  ultimately have "lm_inv D is_open name view (m\<lparr>lm_current := Some w'\<rparr>) k' (segs @ [(?start, [?es])])"
    using w' len by (simp add: lm_inv_def p_def seg_path_def lm_files_ok_cong [of "m\<lparr>lm_current := Some w'\<rparr>" m])
  with w'(1) show ?thesis by (intro exI [of _ "segs @ [(?start, [?es])]"]) (simp add: seg_entries_def)
qed

lemma round_append:
  assumes inv: "lm_inv D is_open name view m k segs" "lm_current m = Some w"
    and vec: "\<forall>e \<in> set vec. entry_codec D e" "length (entries_data D vec) < 2 ^ 32" "lo \<le> length vec"
    and app: "LogWriter_Append D ops w vec lo (length vec) None k = Ret (Inr it, w', k')"
  shows "\<exists>segs'. lm_inv D is_open name view (m\<lparr>lm_current := Some w'\<rparr>) k' segs' \<and> lo \<le> it \<and>
    seg_entries segs' = seg_entries segs @ take (it - lo) (drop lo vec)"
proof -
  from inv have len: "length segs = Suc (length (lm_files m))" and op: "is_open (lw_file w) k" and
    w: "\<not> lw_empty w" "name (lw_file w) = seg_path D m segs (length (lm_files m))"
      "lw_logSegmentSize w = log_segment_size (lm_options m)"
    and ok: "lm_files_ok D m (view k) segs"
    by (auto simp: lm_inv_def)
  from len obtain segs0 start bs where segs: "segs = segs0 @ [(start, bs)]" "length segs0 = length (lm_files m)"
    by (cases segs rule: rev_cases) auto
  define p where "p = seg_path D m (segs0 @ [(start, bs)]) (length segs0)"
  have name: "name (lw_file w) = p" using w(2) segs by (simp add: p_def)
  have "view k p = Some (segment_bytes D bs)"
    using ok by (auto simp: lm_files_ok_def p_def segs(1))
  then have cont: "content (lw_file w) k = segment_bytes D bs"
    using content_view [OF op] name by simp
  have small: "\<forall>e \<in> set vec. small_entry D e" using vec(1) by (simp add: entry_codec_def)
  note A = LogWriter_Append_None [OF op small vec(3) order_refl] and V = LogWriter_Append_view [OF op small vec(3) order_refl app]
  let ?es = "take (it - lo) (drop lo vec)"
  have w': "lo \<le> it" "is_open (lw_file w') k'" "\<not> lw_empty w'" "content (lw_file w') k' = segment_bytes D (bs @ [?es])"
    "lw_logSegmentSize w' = log_segment_size (lm_options m)"
    using A app w cont by (auto simp: Let_def segment_bytes_snoc)
  have "name (lw_file w') = p \<and> view k' = (view k)(p \<mapsto> segment_bytes D (bs @ [?es]))"
    using V name w'(4) by simp
  moreover have "lm_files_ok D m ((view k)(p \<mapsto> segment_bytes D (bs @ [?es]))) (segs0 @ [(start, bs @ [?es])])"
    using ok batch_ok_part [OF vec(1,2)] by (intro lm_files_ok_append [OF _ p_def]) (auto simp: segs(1))
  ultimately have "lm_inv D is_open name view (m\<lparr>lm_current := Some w'\<rparr>) k' (segs0 @ [(start, bs @ [?es])])"
    using w' segs by (simp add: lm_inv_def p_def seg_path_def nth_append lm_files_ok_cong [of "m\<lparr>lm_current := Some w'\<rparr>" m])
  with w'(1) show ?thesis
    by (intro exI [of _ "segs0 @ [(start, bs @ [?es])]"]) (simp add: seg_entries_def segs(1))
qed

lemma finish_inv:
  assumes "lm_inv D is_open name view m k segs" "finishCurrentWriter ops m k = Ret (m', k')"
  shows "lm_inv D is_open name view m' k' segs \<and> lm_current m' = None \<and> lm_options m' = lm_options m \<and>
    view k' = view k"
proof -
  obtain w where w: "lm_current m = Some w"
    using assms(2) by (auto simp: finishCurrentWriter_def split: option.splits)
  have op: "is_open (lw_file w) k" using assms(1) w by (simp add: lm_inv_def)
  obtain s1 f1 k1 where s: "wf_Sync ops (lw_file w) k = (s1, f1, k1)" by (metis prod.exhaust)
  obtain s2 f2 k2 where c: "wf_Close ops f1 k1 = (s2, f2, k2)" by (metis prod.exhaust)
  have v: "view k2 = view k"
    using Sync_view [OF op s] Close_view [OF _ c] Sync_OK [OF op s] by simp
  have "m' = m\<lparr>lm_files := lm_files m @ [lw_meta w], lm_current := None\<rparr> \<and> k' = k2"
    using assms(2) w s c by (auto simp: finishCurrentWriter_def LogWriter_Finish_def split: if_splits)
  with v assms(1) w show ?thesis
    by (auto simp: lm_inv_def lm_files_ok_def seg_path_def)
qed

lemma round_inv:
  assumes inv: "lm_inv D is_open name view m k segs"
    and vec: "\<forall>e \<in> set vec. entry_codec D e" "length (entries_data D vec) < 2 ^ 32" "lo \<le> length vec"
    and w: "(case lm_current m of None \<Rightarrow> LogWriter_New D env m k | Some w \<Rightarrow> (Inr w, k)) = (Inr w, k1)"
    and app: "LogWriter_Append D ops w vec lo (length vec) None k1 = Ret (Inr it, w', k')"
  shows "\<exists>segs'. (\<forall>l. lm_inv D is_open name view (m\<lparr>lm_current := Some w', lm_lastIndex := l\<rparr>) k' segs') \<and> lo \<le> it \<and>
    seg_entries segs' = seg_entries segs @ take (it - lo) (drop lo vec)"
proof -
  have "\<exists>segs'. lm_inv D is_open name view (m\<lparr>lm_current := Some w'\<rparr>) k' segs' \<and> lo \<le> it \<and>
    seg_entries segs' = seg_entries segs @ take (it - lo) (drop lo vec)"
    using round_new [OF inv _ vec _ app] round_append [OF inv _ vec] w app
    by (cases "lm_current m") auto
  then show ?thesis by (simp add: lm_inv_def lm_files_ok_def seg_path_def)
qed

lemma round_next:
  assumes inv: "lm_inv D is_open name view m k segs"
    and vec: "\<forall>e \<in> set vec. entry_codec D e" "length (entries_data D vec) < 2 ^ 32" "lo \<le> length vec"
    and w: "(case lm_current m of None \<Rightarrow> LogWriter_New D env m k | Some w \<Rightarrow> (Inr w, k)) = (Inr w, k1)"
    and app: "LogWriter_Append D ops w vec lo (length vec) None k1 = Ret (Inr it, w', k2)"
    and fin: "finishCurrentWriter ops (m\<lparr>lm_current := Some w', lm_lastIndex := l\<rparr>) k2 = Ret (m1, k3)"
  shows "\<exists>segs1. lm_inv D is_open name view m1 k3 segs1 \<and> lm_options m1 = lm_options m \<and> lo \<le> it \<and> it \<le> length vec \<and>
    seg_entries segs1 = seg_entries segs @ take (it - lo) (drop lo vec)"
proof -
  have small: "\<forall>e \<in> set vec. small_entry D e" using vec(1) by (simp add: entry_codec_def)
  obtain segs1 where S: "\<forall>l. lm_inv D is_open name view (m\<lparr>lm_current := Some w', lm_lastIndex := l\<rparr>) k2 segs1" "lo \<le> it"
    "seg_entries segs1 = seg_entries segs @ take (it - lo) (drop lo vec)"
    using round_inv [OF inv vec w app] by blast
  have "is_open (lw_file w) k1" using inv w New_writer_open by (auto simp: lm_inv_def split: option.splits)
  then have "it \<le> length vec" using Append_None_bound [OF _ small vec(3) order_refl app] by blast
  with S finish_inv [OF S(1) [rule_format] fin] show ?thesis by (intro exI [of _ segs1]) simp
qed

lemma doWrite_inv:
  assumes "doWrite D env' ops' vec segStart hs m k = Some r"
    "env' = env" "ops' = ops" "hs = None" "lm_inv D is_open name view m k segs" "r = Ret (OK, m', k')"
    "\<forall>e \<in> set vec. entry_codec D e" "length (entries_data D vec) < 2 ^ 32" "segStart \<le> length vec"
  shows "\<exists>segs'. lm_inv D is_open name view m' k' segs' \<and> lm_options m' = lm_options m \<and>
    seg_entries segs' = seg_entries segs @ drop segStart vec"
  using assms(2-)
proof (induction D env' ops' vec segStart hs m k r arbitrary: segs rule: doWrite.raw_induct)
  case (1 doW D env' ops' vec lo hs m k r)
  note eqs = \<open>env' = env\<close> \<open>ops' = ops\<close> \<open>hs = None\<close> \<open>r = Ret (OK, m', k')\<close>
  note vec = \<open>\<forall>e \<in> set vec. entry_codec D e\<close> \<open>length (entries_data D vec) < 2 ^ 32\<close> \<open>lo \<le> length vec\<close>
  note inv = \<open>lm_inv D is_open name view m k segs\<close>
  obtain w k1 where
    w: "(case lm_current m of None \<Rightarrow> LogWriter_New D env m k | Some w \<Rightarrow> (Inr w, k)) = (Inr w, k1)"
    using 1(2) eqs
    by (cases "case lm_current m of None \<Rightarrow> LogWriter_New D env m k | Some w \<Rightarrow> (Inr w, k)" rule: pair_sum_cases)
      (auto dest: New_writer_error split: option.splits)
  have small: "\<forall>e \<in> set vec. small_entry D e" using vec(1) by (simp add: entry_codec_def)
  obtain it w' k2 where app: "LogWriter_Append D ops w vec lo (length vec) None k1 = Ret (Inr it, w', k2)"
    using 1(2) eqs w
    by (cases "LogWriter_Append D ops w vec lo (length vec) None k1" rule: outcome_sum_cases)
      (auto dest: Append_error [OF small vec(3) order_refl])
  show ?case
  proof (cases "it = length vec")
    case True
    obtain segs1 where S: "\<forall>l. lm_inv D is_open name view (m\<lparr>lm_current := Some w', lm_lastIndex := l\<rparr>) k2 segs1"
      "seg_entries segs1 = seg_entries segs @ take (it - lo) (drop lo vec)"
      using round_inv [OF inv vec w app] by blast
    from True 1(2) eqs w app have "m' = m\<lparr>lm_current := Some w'\<rparr>" "k' = k2" by auto
    with S(1) [rule_format, of "lm_lastIndex m"] S(2) True show ?thesis by (intro exI [of _ segs1]) simp
  next
    case False
    let ?m = "m\<lparr>lm_current := Some w', lm_lastIndex := entry_index D (vec ! (it - 1))\<rparr>"
    from 1(2) eqs w app False obtain m1 k3 where fin: "finishCurrentWriter ops ?m k2 = Ret (m1, k3)"
      and rec: "doW D env ops vec it None m1 k3 = Some r"
      by (auto split: outcome.splits if_splits)
    from round_next [OF inv vec w app fin] obtain segs1 where
      S: "lm_inv D is_open name view m1 k3 segs1" "lm_options m1 = lm_options m" "lo \<le> it" "it \<le> length vec"
        "seg_entries segs1 = seg_entries segs @ take (it - lo) (drop lo vec)" by blast
    from 1(1) [OF rec refl refl refl S(1) eqs(4) vec(1,2) S(4)] obtain segs2 where
      "lm_inv D is_open name view m' k' segs2" "lm_options m' = lm_options m1"
      "seg_entries segs2 = seg_entries segs1 @ drop it vec" by blast
    moreover have "take (it - lo) (drop lo vec) @ drop it vec = drop lo vec"
      using S(3) by (metis append_take_drop_id drop_drop le_add_diff_inverse2)
    ultimately show ?thesis using S(2,5) by (intro exI [of _ segs2]) simp
  qed
qed (rule assms(1))

end

subsection \<open>The write loop ends\<close>

lemma fit_count_pos: "es \<noteq> [] \<Longrightarrow> 8 < unat r \<Longrightarrow> 0 < fit_count D r es"
  by (cases es) (simp_all add: fit_count_def kLogBatchHeaderSize_def Let_def split: prod.split)

lemma length_magic [simp]: "length kLogSegmentHeaderMagic = 10"
  by (simp add: kLogSegmentHeaderMagic_def)

lemma finish_cases: "lm_current m = Some w \<Longrightarrow>
   finishCurrentWriter ops m k = Fatal \<or> (\<exists>m' k'. finishCurrentWriter ops m k = Ret (m', k') \<and> lm_current m' = None \<and>
     lm_options m' = lm_options m)"
  by (auto simp: finishCurrentWriter_def split: prod.splits sum.splits)

context file_system
begin

lemma Append_new_progress:
  assumes "LogWriter_New D env m k = (Inr w, k1)" "18 < unat (log_segment_size (lm_options m))"
    "\<forall>e \<in> set vec. small_entry D e" "lo < length vec"
    "LogWriter_Append D ops w vec lo (length vec) None k1 = Ret (Inr it, w', k')"
  shows "lo < it"
proof -
  let ?s = "log_segment_size (lm_options m)"
  have w: "is_open (lw_file w) k1" "content (lw_file w) k1 = []" "lw_empty w" "lw_logSegmentSize w = ?s"
    using assms(1) by (auto simp: LogWriter_New_def Let_def new_LogWriter_def dest: New_OK split: prod.splits sum.splits)
  have "unat (?s - 10) = unat ?s - 10"
    using assms(2) by (subst unat_sub) (simp_all add: word_le_nat_alt)
  then have "0 < fit_count D (?s - 10) (drop lo vec)"
    using assms(2,4) by (intro fit_count_pos) simp_all
  with LogWriter_Append_None [OF w(1) assms(3) _ order_refl, of lo] w assms(4,5) show ?thesis
    by (auto simp: Let_def)
qed

lemma round_bounds:
  assumes "18 < unat (log_segment_size (lm_options m))" "\<forall>e \<in> set vec. small_entry D e" "lo \<le> length vec"
    "\<forall>w. lm_current m = Some w \<longrightarrow> is_open (lw_file w) k"
    and w: "(case lm_current m of None \<Rightarrow> LogWriter_New D env m k | Some w \<Rightarrow> (Inr w, k)) = (Inr w, k1)"
    and app: "LogWriter_Append D ops w vec lo (length vec) None k1 = Ret (Inr it, w', k2)"
  shows "it \<le> length vec" "it \<noteq> length vec \<Longrightarrow> it = 0 \<Longrightarrow> lo = 0 \<and> lm_current m \<noteq> None"
    "it \<noteq> length vec \<Longrightarrow> length vec - it + (if lm_current m = None then 1 else 0) \<le> length vec - lo"
proof -
  have op: "is_open (lw_file w) k1" using w assms(4) New_writer_open by (auto split: option.splits)
  have it: "lo \<le> it" "it \<le> length vec" using Append_None_bound [OF op assms(2,3) order_refl app] by simp_all
  have prog: "lo < it" if "lm_current m = None" "lo < length vec"
    using Append_new_progress [OF _ assms(1,2) that(2) app] w that(1) by simp
  show "it \<le> length vec" by (rule it)
  show "it \<noteq> length vec \<Longrightarrow> it = 0 \<Longrightarrow> lo = 0 \<and> lm_current m \<noteq> None" using prog it by auto
  show "it \<noteq> length vec \<Longrightarrow> length vec - it + (if lm_current m = None then 1 else 0) \<le> length vec - lo"
    using prog it by (cases "lm_current m = None") auto
qed

lemma doWrite_total:
  assumes "18 < unat (log_segment_size (lm_options m))" "\<forall>e \<in> set vec. small_entry D e" "lo \<le> length vec"
    "\<forall>w. lm_current m = Some w \<longrightarrow> is_open (lw_file w) k"
  shows "\<exists>r. doWrite D env ops vec lo None m k = Some r \<and>
    (\<forall>u. r = Undef u \<longrightarrow> lo = 0 \<and> lm_current m \<noteq> None \<and> u = InvalidIterator)"
  using assms
proof (induction "2 * (length vec - lo) + (if lm_current m = None then 0 else 1 :: nat)"
    arbitrary: lo m k rule: less_induct)
  case less
  let ?W = "case lm_current m of None \<Rightarrow> LogWriter_New D env m k | Some w \<Rightarrow> (Inr w, k)"
  show ?case
  proof (cases ?W rule: pair_sum_cases)
    case (Inl e k1)
    then show ?thesis by (subst doWrite.simps) simp
  next
    case (Inr w k1)
    have op: "is_open (lw_file w) k1"
      using Inr less.prems(4) New_writer_open by (auto split: option.splits)
    show ?thesis
    proof (cases "LogWriter_Append D ops w vec lo (length vec) None k1" rule: outcome_sum_cases)
      case (Inl e w' k2)
      with \<open>?W = (Inr w, k1)\<close> show ?thesis by (subst doWrite.simps) simp
    next
      case app: (Inr it w' k2)
      note it = round_bounds [OF less.prems Inr app]
      let ?m = "m\<lparr>lm_current := Some w', lm_lastIndex := entry_index D (vec ! (it - 1))\<rparr>"
      consider "it = length vec" | "it \<noteq> length vec" "it = 0" | "it \<noteq> length vec" "it \<noteq> 0" by blast
      then show ?thesis
      proof cases
        case 3
        from finish_cases [of ?m w' ops k2] consider "finishCurrentWriter ops ?m k2 = Fatal" |
          m1 k3 where "finishCurrentWriter ops ?m k2 = Ret (m1, k3)" "lm_current m1 = None" "lm_options m1 = lm_options m"
          by auto
        then show ?thesis
        proof cases
          case fin: 2
          have "2 * (length vec - it) + 0 < 2 * (length vec - lo) + (if lm_current m = None then 0 else 1)"
            using it(3) [OF 3(1)] by (cases "lm_current m = None") auto
          with less.hyps [of it m1 k3] less.prems fin it(1) obtain r where
            "doWrite D env ops vec it None m1 k3 = Some r" "\<forall>u. r = Undef u \<longrightarrow> it = 0" by auto
          with 3 Inr app fin show ?thesis by (subst doWrite.simps) simp
        qed (use 3 Inr app in \<open>subst doWrite.simps, simp\<close>)
      next
        case 2
        from it(2) [OF this] 2 Inr app show ?thesis by (subst doWrite.simps) simp
      qed (use Inr app in \<open>subst doWrite.simps, simp\<close>)
    qed (use LogWriter_Append_None [OF op less.prems(2,3) order_refl] in auto)
  qed
qed

end

subsection \<open>Without errors of the file system, writes succeed\<close>

context reliable_file_system
begin

lemma Append_writer_quiet:
  assumes "quiet k" "is_open (lw_file w) k" "\<forall>e \<in> set vec. small_entry D e" "lo \<le> hi" "hi \<le> length vec"
  shows "\<exists>it w' k'. LogWriter_Append D ops w vec lo hi None k = Ret (Inr it, w', k') \<and> quiet k'"
proof -
  have batch: "\<exists>it w' k'. Append_batch D ops v vec lo hi None k1 = Ret (Inr it, w', k') \<and> quiet k'"
    if q: "quiet k1" "is_open (lw_file v) k1" for v k1
  proof -
    obtain n where n: "n = fit_count D (lw_logSegmentSize v - wf_Size ops (lw_file v)) (take (hi - lo) (drop lo vec))" by blast
    obtain f' k' where "wf_Append ops (lw_file v) (batch_bytes D (entries_data D (take n (drop lo vec)))) k1 = (OK, f', k')" "quiet k'"
      using Append_quiet [OF q] by blast
    then show ?thesis using Append_batch_None [OF assms(3-5) n, of k1] by auto
  qed
  show ?thesis
  proof (cases "lw_empty w")
    case True
    obtain f1 k1 where f1: "wf_Append ops (lw_file w) kLogSegmentHeaderMagic k = (OK, f1, k1)" "quiet k1"
      using Append_quiet [OF assms(1,2)] by blast
    with batch [of k1 "w\<lparr>lw_file := f1, lw_empty := False\<rparr>"] Append_OK [OF assms(2) f1(1)] True show ?thesis
      by (simp add: LogWriter_Append_def)
  qed (use batch [OF assms(1,2)] in \<open>simp add: LogWriter_Append_def\<close>)
qed

lemma finish_quiet:
  assumes "quiet k" "lm_current m = Some w" "is_open (lw_file w) k"
  shows "\<exists>m' k'. finishCurrentWriter ops m k = Ret (m', k') \<and> quiet k'"
proof -
  obtain f1 k1 where s: "wf_Sync ops (lw_file w) k = (OK, f1, k1)" "quiet k1" using Sync_quiet [OF assms(1,3)] by blast
  moreover obtain f2 k2 where "wf_Close ops f1 k1 = (OK, f2, k2)" "quiet k2"
    using Close_quiet [OF s(2)] Sync_OK [OF assms(3) s(1)] by blast
  ultimately show ?thesis using assms(2) by (simp add: finishCurrentWriter_def LogWriter_Finish_def)
qed

lemma New_writer_quiet:
  assumes "quiet k" "lm_inv D is_open name view m k segs" "lm_current m = None" "fmt_law D" "length segs < 2 ^ 64"
  shows "\<exists>w k'. LogWriter_New D env m k = (Inr w, k') \<and> quiet k'"
proof -
  let ?p = "segment_path D (log_dir (lm_options m)) (of_nat (length segs) + 1) (lm_lastIndex m + 1)"
  have len: "length (lm_files m) = length segs" using assms(2,3) by (simp add: lm_inv_def)
  have ne: "(of_nat i :: u64) \<noteq> of_nat (length segs)" if "i < length segs" for i
  proof
    assume "(of_nat i :: u64) = of_nat (length segs)"
    then have "unat (of_nat i :: u64) = unat (of_nat (length segs) :: u64)" by simp
    then show False using that assms(5) by (simp add: unat_of_nat)
  qed
  have "view k ?p = None"
  proof (rule ccontr)
    assume "view k ?p \<noteq> None"
    moreover have "isWal (SegmentFileName D (of_nat (length segs) + 1) (lm_lastIndex m + 1))"
      using parse_SegmentFileName [OF assms(4)] by blast
    ultimately obtain i where "i < length segs"
      "SegmentFileName D (of_nat (length segs) + 1) (lm_lastIndex m + 1) = SegmentFileName D (of_nat i + 1) (fst (segs ! i))"
      using assms(2) by (auto simp: lm_inv_def lm_files_ok_def segment_path_def)
    with ne [of i] show False by (simp add: SegmentFileName_inject [OF assms(4)])
  qed
  from New_quiet [OF assms(1) this] obtain f k' where
    "env_NewWritableFile env ?p CREATE_NON_EXISTING False k = (Inr f, k')" "quiet k'" by blast
  then show ?thesis by (simp add: LogWriter_New_def Let_def len)
qed

lemma round_quiet:
  assumes "lm_inv D is_open name view m k segs" "quiet k" "fmt_law D" "length segs < 2 ^ 64"
    "\<forall>e \<in> set vec. small_entry D e" "lo \<le> length vec"
  obtains w k1 it w' k2 where
    "(case lm_current m of None \<Rightarrow> LogWriter_New D env m k | Some w \<Rightarrow> (Inr w, k)) = (Inr w, k1)"
    "LogWriter_Append D ops w vec lo (length vec) None k1 = Ret (Inr it, w', k2)" "quiet k2"
proof -
  obtain w k1 where W: "(case lm_current m of None \<Rightarrow> LogWriter_New D env m k | Some w \<Rightarrow> (Inr w, k)) = (Inr w, k1)"
    "quiet k1" "is_open (lw_file w) k1"
  proof (cases "lm_current m")
    case None
    with New_writer_quiet [OF assms(2,1) _ assms(3)] assms(4) New_writer_open that show ?thesis by fastforce
  next
    case (Some w)
    with assms(1,2) that show ?thesis by (simp add: lm_inv_def)
  qed
  then show ?thesis using that Append_writer_quiet [OF W(2,3) assms(5,6) order_refl] by blast
qed

lemma doWrite_quiet:
  assumes "18 < unat (log_segment_size (lm_options m))" "\<forall>e \<in> set vec. entry_codec D e"
    "length (entries_data D vec) < 2 ^ 32" "lo \<le> length vec" "lm_inv D is_open name view m k segs" "quiet k" "fmt_law D"
    "length segs + (length vec - lo) < 2 ^ 64"
  shows "(\<exists>m' k'. doWrite D env ops vec lo None m k = Some (Ret (OK, m', k')) \<and> quiet k') \<or>
    lo = 0 \<and> lm_current m \<noteq> None \<and> doWrite D env ops vec lo None m k = Some (Undef InvalidIterator)"
  using assms
proof (induction "2 * (length vec - lo) + (if lm_current m = None then 0 else 1 :: nat)"
    arbitrary: lo m k segs rule: less_induct)
  case less
  let ?W = "case lm_current m of None \<Rightarrow> LogWriter_New D env m k | Some w \<Rightarrow> (Inr w, k)"
  have small: "\<forall>e \<in> set vec. small_entry D e" using less.prems(2) by (simp add: entry_codec_def)
  have op: "\<forall>w. lm_current m = Some w \<longrightarrow> is_open (lw_file w) k" using less.prems(5) by (auto simp: lm_inv_def)
  obtain w k1 it w' k2 where W: "?W = (Inr w, k1)"
    and app: "LogWriter_Append D ops w vec lo (length vec) None k1 = Ret (Inr it, w', k2)" "quiet k2"
    using round_quiet [OF less.prems(5-7) add_lessD1 [OF less.prems(8)] small less.prems(4)] .
  note it = round_bounds [OF less.prems(1) small less.prems(4) op W app(1)]
  obtain segs1 where S: "\<forall>l. lm_inv D is_open name view (m\<lparr>lm_current := Some w', lm_lastIndex := l\<rparr>) k2 segs1"
    using round_inv [OF less.prems(5,2,3,4) W app(1)] by blast
  have len: "length segs1 = length segs + (if lm_current m = None then 1 else 0)"
    using S less.prems(5) by (auto simp: lm_inv_def split: option.splits)
  let ?m = "m\<lparr>lm_current := Some w', lm_lastIndex := entry_index D (vec ! (it - 1))\<rparr>"
  consider "it = length vec" | "it \<noteq> length vec" "it = 0" | "it \<noteq> length vec" "it \<noteq> 0" by blast
  then show ?case
  proof cases
    case 3
    have "is_open (lw_file w') k2" using S by (simp add: lm_inv_def)
    then obtain m1 k3 where fin: "finishCurrentWriter ops ?m k2 = Ret (m1, k3)" "quiet k3"
      using finish_quiet [OF app(2), of ?m w'] by auto
    note F = finish_inv [OF S [rule_format] fin(1)]
    have "2 * (length vec - it) < 2 * (length vec - lo) + (if lm_current m = None then 0 else 1)"
      "length segs1 + (length vec - it) < 2 ^ 64"
      using it(3) [OF 3(1)] len less.prems(8) by (cases "lm_current m = None", auto)+
    with less.hyps [of it m1 k3 segs1] less.prems F fin it(1) 3 obtain m' k' where
      "doWrite D env ops vec it None m1 k3 = Some (Ret (OK, m', k'))" "quiet k'" by auto
    moreover have "doWrite D env ops vec lo None m k = doWrite D env ops vec it None m1 k3"
      using 3 W app fin by (subst doWrite.simps) simp
    ultimately show ?thesis by simp
  next
    case 2
    note it(2) [OF this]
    moreover have "doWrite D env ops vec lo None m k = Some (Undef InvalidIterator)"
      using 2 W app by (subst doWrite.simps) simp
    ultimately show ?thesis by simp
  next
    case 1
    have "doWrite D env ops vec lo None m k = Some (Ret (OK, m\<lparr>lm_current := Some w'\<rparr>, k2))"
      using 1 W app by (subst doWrite.simps) simp
    with app(2) show ?thesis by simp
  qed
qed

end

end
