(* ===== verification/WalRecovery.thy ===== *)
theory WalRecovery
  imports LogManager
begin

section \<open>Recovering what was written\<close>

text \<open>
  The write-ahead log over the POSIX environment: the segments a manager has written are found
  again by \<^verbatim>\<open>Recover\<close>, in the order of their numbers, and give their entries back.
\<close>

lemma ReadFullyToBuffer_quiet:
  assumes "fs_size_law B" "file_map k p = Some c" "length c < 2 ^ 64" "k_answers k = []"
  shows "\<exists>k'. ReadFullyToBuffer (PosixEnv B) (PosixRandomAccessFile_ops B) p k = Ret (Inr c, k') \<and>
    k_files k' = k_files k \<and> k_answers k' = []"
proof -
  obtain f k1 where f: "Posix_NewRandomAccessFile p k = (Inr f, k1)" "k_answers k1 = []"
    using assms(2,4) by (auto simp: Posix_NewRandomAccessFile_def sys_open_def sys_enter_def Let_def)
  note g = Posix_NewRandomAccessFile_OK [OF f(1)]
  have n: "unat (of_nat (length c) :: u64) = length c" using assms(3) by (simp add: unat_of_nat)
  have sz: "raf_Size (PosixRandomAccessFile_ops B) f k1 = Inr (of_nat (length c))"
    using assms(1,2) g by (simp add: PosixRandomAccessFile_ops_def DoGetFileSize_def fs_size_law_def)
  obtain o' where fd: "k_fds k1 (pr_fd f) = Some (p, o')" using g by (auto simp: posix_readable_def)
  define k2 where "k2 = snd (sys_pread (pr_fd f) (length c) 0 k1)"
  have rd: "raf_Read (PosixRandomAccessFile_ops B) f 0 (length c) k1 = ((OK, c), k2)" "k_files k2 = k_files k" "k_answers k2 = []"
    using fd f g assms(2)
    by (simp_all add: k2_def PosixRandomAccessFile_ops_def Posix_Read_def pread_retry.simps sys_pread_def sys_enter_def
        Let_def transferred_def)
  have "\<exists>k'. ReadFully (PosixRandomAccessFile_ops B) f 0 (length c) [] k1 = Ret (Inr c, k') \<and>
      k_files k' = k_files k \<and> k_answers k' = []"
    using rd f(2) g by (cases c) (simp_all add: ReadFully.simps)
  with f sz n show ?thesis by (auto simp: ReadFullyToBuffer_def PosixEnv_def)
qed

lemma recover_segments_quiet:
  assumes "fs_size_law B" "k_answers k = []"
    "\<forall>((i, s), bs) \<in> set xs. file_map k (segment_path D (log_dir (lm_options m)) i s) = Some (segment_bytes D bs) \<and>
       length (segment_bytes D bs) < 2 ^ 64 \<and> (\<forall>es \<in> set bs. batch_ok D es)"
  shows "\<exists>k'. recover_segments D (PosixEnv B) (PosixRandomAccessFile_ops B) (map fst xs) mem m k =
    Ret (OK, fold (mem_Append D) (concat (concat (map snd xs))) mem,
      m\<lparr>lm_files := lm_files m @ map (\<lambda>x. \<lparr>fileName = [], numEntries = length (concat (snd x))\<rparr>) xs\<rparr>, k') \<and>
    k_files k' = k_files k \<and> k_answers k' = []"
  using assms(2,3)
proof (induction xs arbitrary: mem m k)
  case (Cons x xs)
  obtain i s bs where x: "x = ((i, s), bs)" by (metis prod.exhaust)
  let ?p = "segment_path D (log_dir (lm_options m)) i s"
  obtain k1 where k1: "ReadFullyToBuffer (PosixEnv B) (PosixRandomAccessFile_ops B) ?p k = Ret (Inr (segment_bytes D bs), k1)"
    "k_files k1 = k_files k" "k_answers k1 = []"
    using ReadFullyToBuffer_quiet [OF assms(1), of k ?p "segment_bytes D bs"] Cons.prems x by auto
  let ?mem = "fold (mem_Append D) (concat bs) mem"
  let ?m = "m\<lparr>lm_files := lm_files m @ [\<lparr>fileName = [], numEntries = length (concat bs)\<rparr>]\<rparr>"
  have "ReadSegment D (segment_bytes D bs) mem new_SegmentMetaData (verify_checksum (lm_options m)) =
      Ret (OK, \<lparr>rs_buf = [], rs_memStore = ?mem, rs_metaData = \<lparr>fileName = [], numEntries = length (concat bs)\<rparr>,
        rs_verifyChecksum = verify_checksum (lm_options m)\<rparr>)"
    using ReadSegment_batches [of bs D mem new_SegmentMetaData _ _ "[]"] Cons.prems(2) x
    by (simp add: stored_def read_batches.simps Eof_def new_SegmentMetaData_def)
  with k1 have "recover_segments D (PosixEnv B) (PosixRandomAccessFile_ops B) (map fst (x # xs)) mem m k =
      recover_segments D (PosixEnv B) (PosixRandomAccessFile_ops B) (map fst xs) ?mem ?m k1"
    by (simp add: x ReadSegmentIntoMemoryStorage_def Let_def)
  moreover obtain k' where "recover_segments D (PosixEnv B) (PosixRandomAccessFile_ops B) (map fst xs) ?mem ?m k1 =
      Ret (OK, fold (mem_Append D) (concat (concat (map snd xs))) ?mem,
        ?m\<lparr>lm_files := lm_files ?m @ map (\<lambda>x. \<lparr>fileName = [], numEntries = length (concat (snd x))\<rparr>) xs\<rparr>, k')"
      "k_files k' = k_files k1" "k_answers k' = []"
    using Cons.IH [of k1 ?m ?mem] Cons.prems k1 by auto
  ultimately show ?case using k1(2) by (auto simp: x simp del: recover_segments.simps)
qed simp

lemma find_wals_spec:
  assumes "\<forall>n \<in> set names. isWal n \<longrightarrow> (\<exists>i s. (i, s) \<in> set T \<and> n = SegmentFileName D i s)"
    "fmt_law D" "distinct (map fst T)" "set ws \<subseteq> set T" "sorted (map fst ws)" "distinct (map fst ws)"
  shows "\<exists>ws'. find_wals names ws = Ret ws' \<and> sorted (map fst ws') \<and> distinct (map fst ws') \<and>
    set ws' = set ws \<union> {(i, s) \<in> set T. SegmentFileName D i s \<in> set names}"
  using assms
proof (induction names arbitrary: ws)
  case (Cons n names)
  show ?case
  proof (cases "isWal n")
    case True
    then obtain i s where n: "(i, s) \<in> set T" "n = SegmentFileName D i s" using Cons.prems(1) by auto
    have uniq: "\<forall>t. (i, t) \<in> set ws \<longrightarrow> t = s"
      using Cons.prems(3,4) n(1) by (meson eq_key_imp_eq_value subsetD)
    note ins = map_assign_set [OF uniq] map_assign_sorted [of ws i s]
    have "\<exists>ws'. find_wals names (map_assign i s ws) = Ret ws' \<and> sorted (map fst ws') \<and> distinct (map fst ws') \<and>
        set ws' = set (map_assign i s ws) \<union> {(i, s) \<in> set T. SegmentFileName D i s \<in> set names}"
      using Cons.prems n ins by (intro Cons.IH) auto
    moreover have "{(i', s') \<in> set T. SegmentFileName D i' s' \<in> set (n # names)} =
        insert (i, s) {(i, s) \<in> set T. SegmentFileName D i s \<in> set names}"
      using n Cons.prems(2) by (auto simp: SegmentFileName_inject)
    ultimately show ?thesis
      using parse_SegmentFileName [OF Cons.prems(2), of i s] n(2) ins by auto
  next
    case False
    then have "SegmentFileName D i s \<noteq> n" for i s using parse_SegmentFileName [OF Cons.prems(2)] by auto
    with False Cons show ?thesis by simp
  qed
qed simp


definition segs_list :: "'e segments \<Rightarrow> ((u64 \<times> u64) \<times> 'e list list) list" where
  "segs_list segs = map (\<lambda>i. ((of_nat i + 1, fst (segs ! i)), snd (segs ! i))) [0..<length segs]"

lemma segs_list_entries: "concat (concat (map snd (segs_list segs))) = seg_entries segs"
proof -
  have "map snd (segs_list segs) = map snd segs"
    by (rule nth_equalityI) (simp_all add: segs_list_def)
  then show ?thesis by (simp add: seg_entries_def)
qed

lemma segs_list_ids:
  assumes "length segs < 2 ^ 64 - 1"
  shows "sorted (map fst (map fst (segs_list segs))) \<and> distinct (map fst (map fst (segs_list segs)))"
proof -
  have "unat (of_nat i + 1 :: u64) = i + 1" if "i < length segs" for i
  proof -
    have "(of_nat i + 1 :: u64) = of_nat (i + 1)" by simp
    then show ?thesis using that assms by (simp only: unat_of_nat) simp
  qed
  then have "sorted_wrt (<) (map fst (map fst (segs_list segs)))"
    by (auto simp: segs_list_def sorted_wrt_iff_nth_less word_less_nat_alt)
  then show ?thesis by (simp add: strict_sorted_iff)
qed

text \<open>What is relied on of the filesystem library at a directory: it can be listed, in any order.\<close>

definition fs_dir_law :: "fslib \<Rightarrow> string \<Rightarrow> kernel \<Rightarrow> bool" where
  "fs_dir_law B dir k =
     (fs_create_directories B dir k = (False, k) \<and> fs_is_directory B dir k = (False, True) \<and>
      (\<exists>names. fs_directory_iterator B dir k = Some names \<and>
         (\<forall>n. isWal n \<longrightarrow> n \<in> set names \<longleftrightarrow> file_map k (dir @ ''/'' @ n) \<noteq> None)))"

lemma Recover_wals:
  assumes law: "fs_dir_law B (log_dir opts) k" "fmt_law D"
    and here: "\<forall>i < length segs. file_map k (segment_path D (log_dir opts) (of_nat i + 1) (fst (segs ! i))) \<noteq> None"
    and only: "\<forall>n. isWal n \<longrightarrow> file_map k (log_dir opts @ ''/'' @ n) \<noteq> None \<longrightarrow>
      (\<exists>i < length segs. n = SegmentFileName D (of_nat i + 1) (fst (segs ! i)))"
    and len: "length segs < 2 ^ 64 - 1"
  shows "Recover D (PosixEnv B) rops opts None k =
    (if segs = [] then Ret (OK, None, Some (new_LogManager opts), k)
     else bind_outcome (recover_segments D (PosixEnv B) rops (map fst (segs_list segs)) (mem_new D) (new_LogManager opts) k)
       (\<lambda>(s, mem, m, k). Ret (s, Some mem, Some m, k)))"
proof -
  let ?xs = "segs_list segs" and ?m = "new_LogManager opts :: PosixWritableFile LogManager"
  obtain names where names: "fs_directory_iterator B (log_dir opts) k = Some names"
    "\<forall>n. isWal n \<longrightarrow> n \<in> set names \<longleftrightarrow> file_map k (log_dir opts @ ''/'' @ n) \<noteq> None"
    and dir: "fs_create_directories B (log_dir opts) k = (False, k)" "fs_is_directory B (log_dir opts) k = (False, True)"
    using law(1) by (auto simp: fs_dir_law_def)
  have T: "set (map fst ?xs) = {(of_nat i + 1, fst (segs ! i)) |i. i < length segs}"
    by (auto simp: segs_list_def)
  have wal: "\<forall>n \<in> set names. isWal n \<longrightarrow> (\<exists>i s. (i, s) \<in> set (map fst ?xs) \<and> n = SegmentFileName D i s)"
    unfolding T using names(2) only by fastforce
  have inn: "SegmentFileName D i s \<in> set names" if "(i, s) \<in> set (map fst ?xs)" for i s
    using that names(2) here parse_SegmentFileName [OF law(2), of i s] unfolding T
    by (auto simp: segment_path_def)
  have all: "{(i, s) \<in> set (map fst ?xs). SegmentFileName D i s \<in> set names} = set (map fst ?xs)"
    using inn by blast
  obtain ws where ws: "find_wals names [] = Ret ws" "sorted (map fst ws)" "distinct (map fst ws)"
    "set ws = set (map fst ?xs)"
    using find_wals_spec [OF wal law(2), of "[]", unfolded all] segs_list_ids [OF len] by auto
  have "ws = map fst ?xs"
  proof (rule map_sorted_distinct_set_unique [where f = fst])
    show "inj_on fst (set ws \<union> set (map fst ?xs))"
      using ws(3,4) by (auto simp: distinct_map)
  qed (use ws segs_list_ids [OF len] in simp_all)
  note ws = ws(1) [unfolded this]
  have "map fst ?xs = [] \<longleftrightarrow> segs = []" by (simp add: segs_list_def)
  moreover have "?m\<lparr>lm_empty := False\<rparr> = ?m" by (simp add: new_LogManager_def)
  ultimately show ?thesis
    using ws dir names(1)
    by (simp add: Recover_def PosixEnv_def boost_status_def Posix_GetChildren_def Let_def)
qed

lemma Recover_segments:
  assumes law: "fs_size_law B" "fs_dir_law B (log_dir opts) k" "fmt_law D" and quiet: "k_answers k = []"
    and ok: "lm_files_ok D m (file_map k) segs" "lm_options m = opts" "length segs < 2 ^ 64 - 1" "segs \<noteq> []"
    and len: "\<forall>seg \<in> set segs. length (segment_bytes D (snd seg)) < 2 ^ 64"
  shows "\<exists>m' k'. Recover D (PosixEnv B) (PosixRandomAccessFile_ops B) opts None k =
      Ret (OK, Some (fold (mem_Append D) (seg_entries segs) (mem_new D)), Some m', k') \<and>
    lm_current m' = None \<and> lm_options m' = opts \<and> lm_lastIndex m' = 0 \<and> \<not> lm_empty m' \<and>
    k_files k' = k_files k \<and> k_answers k' = [] \<and>
    map numEntries (lm_files m') = map (\<lambda>seg. length (concat (snd seg))) segs"
proof -
  let ?xs = "segs_list segs" and ?m = "new_LogManager opts :: PosixWritableFile LogManager"
  have "\<exists>k'. recover_segments D (PosixEnv B) (PosixRandomAccessFile_ops B) (map fst ?xs) (mem_new D) ?m k =
    Ret (OK, fold (mem_Append D) (concat (concat (map snd ?xs))) (mem_new D),
      ?m\<lparr>lm_files := lm_files ?m @ map (\<lambda>x. \<lparr>fileName = [], numEntries = length (concat (snd x))\<rparr>) ?xs\<rparr>, k') \<and>
    k_files k' = k_files k \<and> k_answers k' = []"
    using ok(1,2) len
    by (intro recover_segments_quiet [OF law(1) quiet])
      (auto simp: segs_list_def lm_files_ok_def seg_path_def new_LogManager_def)
  then obtain k' where rec: "recover_segments D (PosixEnv B) (PosixRandomAccessFile_ops B) (map fst ?xs) (mem_new D) ?m k =
    Ret (OK, fold (mem_Append D) (seg_entries segs) (mem_new D),
      ?m\<lparr>lm_files := map (\<lambda>x. \<lparr>fileName = [], numEntries = length (concat (snd x))\<rparr>) ?xs\<rparr>, k')"
    "k_files k' = k_files k" "k_answers k' = []"
    by (auto simp: segs_list_entries new_LogManager_def)
  have "map (\<lambda>x. length (concat (snd x))) ?xs = map (\<lambda>seg. length (concat (snd seg))) segs"
    by (rule nth_equalityI) (simp_all add: segs_list_def)
  moreover have "Recover D (PosixEnv B) (PosixRandomAccessFile_ops B) opts None k =
      bind_outcome (recover_segments D (PosixEnv B) (PosixRandomAccessFile_ops B) (map fst ?xs) (mem_new D) ?m k)
        (\<lambda>(s, mem, m, k). Ret (s, Some mem, Some m, k))"
    using Recover_wals [OF law(2,3) _ _ ok(3)] ok(1,2,4) by (simp add: lm_files_ok_def seg_path_def)
  ultimately show ?thesis using rec by (simp add: new_LogManager_def comp_def)
qed

subsection \<open>Properties\<close>

abbreviation posix_wal :: "('e, 'h, 'm) deps \<Rightarrow> PosixWritableFile LogManager \<Rightarrow> kernel \<Rightarrow> 'e segments \<Rightarrow> bool" where
  "posix_wal D \<equiv> lm_inv D posix_open pf_filename file_map"

abbreviation Posix_Write :: "('e, 'h, 'm) deps \<Rightarrow> fslib \<Rightarrow> bool \<Rightarrow> 'e list \<Rightarrow> PosixWritableFile LogManager \<Rightarrow> kernel
    \<Rightarrow> (ErrorCodes \<times> PosixWritableFile LogManager \<times> kernel) outcome option" where
  "Posix_Write D B ok_bool \<equiv> Write_entries D (PosixEnv B) (PosixWritableFile_ops ok_bool)"

definition has_room :: "PosixWritableFile LogManager \<Rightarrow> bool" where
  "has_room m = (case lm_current m of None \<Rightarrow> True
     | Some w \<Rightarrow> 8 < unat (log_segment_size (lm_options m) - pf_filesize (lw_file w)))"

lemma lm_inv_lastIndex:
  "lm_inv D is_open name view (m\<lparr>lm_lastIndex := l, lm_empty := b\<rparr>) k segs = lm_inv D is_open name view m k segs"
  by (simp add: lm_inv_def lm_files_ok_def seg_path_def split: option.split)

lemma Write_entries_doWrite:
  "vec \<noteq> [] \<Longrightarrow> \<exists>l b. Write_entries D env ops vec m k = doWrite D env ops vec 0 None (m\<lparr>lm_lastIndex := l, lm_empty := b\<rparr>) k"
proof (cases "lm_empty m")
  case True
  assume "vec \<noteq> []"
  with True show ?thesis by (cases vec) (auto simp: Write_entries_def LogManager_Write_def Let_def)
next
  case False
  assume "vec \<noteq> []"
  with False have "Write_entries D env ops vec m k = doWrite D env ops vec 0 None m k"
    by (cases vec) (simp_all add: Write_entries_def LogManager_Write_def)
  moreover have "m\<lparr>lm_lastIndex := lm_lastIndex m, lm_empty := lm_empty m\<rparr> = m" by simp
  ultimately show ?thesis by metis
qed

lemma first_append:
  assumes "posix_wal D m k segs" "lm_current m = Some w" "\<forall>e \<in> set vec. small_entry D e" "vec \<noteq> []"
    "LogWriter_Append D (PosixWritableFile_ops ok_bool) w vec 0 (length vec) None k = Ret (Inr it, w', k')"
  shows "has_room m \<longleftrightarrow> it \<noteq> 0"
proof -
  have w: "posix_open (lw_file w) k" "\<not> lw_empty w" "lw_logSegmentSize w = log_segment_size (lm_options m)"
    using assms(1,2) by (simp_all add: lm_inv_def)
  have sz: "of_nat (length (posix_content (lw_file w) k)) = pf_filesize (lw_file w)"
    using w(1) by (simp add: posix_open_def)
  let ?r = "log_segment_size (lm_options m) - pf_filesize (lw_file w)"
  have "it = fit_count D ?r vec"
    using posix.LogWriter_Append_None [OF w(1) assms(3), of 0 "length vec" ok_bool] assms(5) w sz by (auto simp: Let_def)
  moreover have "unat ?r \<le> 8 \<Longrightarrow> fit_count D ?r vec = 0"
    by (cases vec) (simp_all add: fit_count_def kLogBatchHeaderSize_def)
  moreover have "8 < unat ?r \<Longrightarrow> fit_count D ?r vec \<noteq> 0"
    using fit_count_pos [OF assms(4), of ?r D] by simp
  ultimately show ?thesis using assms(2) by (cases "8 < unat ?r") (simp_all add: has_room_def not_less)
qed

lemma Write_undef_iff:
  assumes "posix_wal D m k segs" "k_answers k = []" "\<forall>e \<in> set vec. small_entry D e" "vec \<noteq> []" "lm_current m = Some w"
  shows "doWrite D (PosixEnv B) (PosixWritableFile_ops ok_bool) vec 0 None m k = Some (Undef InvalidIterator) \<or> has_room m"
proof (rule disjCI)
  assume room: "\<not> has_room m"
  have op: "posix_open (lw_file w) k" using assms(1,5) by (simp add: lm_inv_def)
  obtain it w' k' where app: "LogWriter_Append D (PosixWritableFile_ops ok_bool) w vec 0 (length vec) None k = Ret (Inr it, w', k')"
    using posix_quiet.Append_writer_quiet [OF assms(2) op assms(3), of 0 "length vec" ok_bool] by auto
  with first_append [OF assms(1,5,3,4) app] room assms(4,5)
  show "doWrite D (PosixEnv B) (PosixWritableFile_ops ok_bool) vec 0 None m k = Some (Undef InvalidIterator)"
    by (subst doWrite.simps) simp
qed

lemma doWrite_room:
  assumes "posix_wal D m k segs" "k_answers k = []" "\<forall>e \<in> set vec. small_entry D e" "vec \<noteq> []" "lm_current m = Some w"
    "has_room m" "18 < unat (log_segment_size (lm_options m))"
  shows "doWrite D (PosixEnv B) (PosixWritableFile_ops ok_bool) vec 0 None m k \<noteq> Some (Undef InvalidIterator)"
proof -
  let ?ops = "PosixWritableFile_ops ok_bool"
  have op: "posix_open (lw_file w) k" using assms(1,5) by (simp add: lm_inv_def)
  obtain it w' k' where app: "LogWriter_Append D ?ops w vec 0 (length vec) None k = Ret (Inr it, w', k')"
    using posix_quiet.Append_writer_quiet [OF assms(2) op assms(3), of 0 "length vec" ok_bool] by auto
  have it: "it \<noteq> 0" "it \<le> length vec"
    using first_append [OF assms(1,5,3,4) app] assms(6) posix.Append_None_bound [OF op assms(3) _ _ app] by auto
  let ?m = "m\<lparr>lm_current := Some w', lm_lastIndex := entry_index D (vec ! (it - 1))\<rparr>"
  have rec: "doWrite D (PosixEnv B) ?ops vec it None m1 k1 \<noteq> Some (Undef InvalidIterator)"
    if "lm_current m1 = None" "lm_options m1 = lm_options m" for m1 k1
    using posix.doWrite_total [of m1 vec D it k1 B ok_bool] that it assms(3,7) by auto
  from finish_cases [of ?m w' ?ops k'] show ?thesis
    using assms(5) app it rec by (subst doWrite.simps) (auto split: outcome.splits)
qed

lemma Posix_Write_room:
  assumes inv: "posix_wal D m k segs" and quiet: "k_answers k = []"
    and vec: "\<forall>e \<in> set vec. entry_codec D e" "length (entries_data D vec) < 2 ^ 32"
    and opts: "18 < unat (log_segment_size (lm_options m))" "fmt_law D" "length segs + length vec < 2 ^ 64"
    and room: "has_room m"
  shows "\<exists>m' k' segs'. Posix_Write D B ok_bool vec m k = Some (Ret (OK, m', k')) \<and> k_answers k' = [] \<and>
    posix_wal D m' k' segs' \<and> lm_options m' = lm_options m \<and> seg_entries segs' = seg_entries segs @ vec"
proof (cases "vec = []")
  case True
  with inv quiet show ?thesis
    by (auto simp: Write_entries_def LogManager_Write_def intro!: exI [of _ segs])
next
  case False
  let ?ops = "PosixWritableFile_ops ok_bool"
  obtain l b where W: "Posix_Write D B ok_bool vec m k = doWrite D (PosixEnv B) ?ops vec 0 None (m\<lparr>lm_lastIndex := l, lm_empty := b\<rparr>) k"
    using Write_entries_doWrite [OF False, of D "PosixEnv B" ?ops m k] by blast
  let ?m = "m\<lparr>lm_lastIndex := l, lm_empty := b\<rparr>"
  have small: "\<forall>e \<in> set vec. small_entry D e" using vec(1) by (simp add: entry_codec_def)
  have inv': "posix_wal D ?m k segs" using inv by (simp add: lm_inv_lastIndex)
  have "doWrite D (PosixEnv B) ?ops vec 0 None ?m k \<noteq> Some (Undef InvalidIterator)" if "lm_current m \<noteq> None"
    using that doWrite_room [OF inv' quiet small False] room opts(1) by (auto simp: has_room_def)
  with posix_quiet.doWrite_quiet [of ?m vec D 0 k segs B ok_bool] inv' quiet vec opts
  obtain m' k' where r: "doWrite D (PosixEnv B) ?ops vec 0 None ?m k = Some (Ret (OK, m', k'))" "k_answers k' = []" by auto
  from posix.doWrite_inv [OF r(1) refl refl refl inv' refl vec] W r show ?thesis by auto
qed

text \<open>
  C13. \<^verbatim>\<open>LogManager::Write\<close> appends.  In every state in which the files of the directory are the
  segments the manager has written, with a kernel that reports no errors, a segment size above
  18 bytes and room for a batch header in the current segment, a write returns OK and leaves
  such a state again, whose log is the old one followed by the entries written, across as many
  new segments as are needed.
\<close>

theorem wal_write_appends:
  assumes "posix_wal D m k segs" "k_answers k = []" "\<forall>e \<in> set vec. entry_codec D e" "length (entries_data D vec) < 2 ^ 32"
    "18 < unat (log_segment_size (lm_options m))" "fmt_law D" "length segs + length vec < 2 ^ 64" "has_room m"
  shows "\<exists>m' k' segs'. Write_entries D (PosixEnv B) (PosixWritableFile_ops ok_bool) vec m k = Some (Ret (OK, m', k')) \<and>
    k_answers k' = [] \<and> posix_wal D m' k' segs' \<and> seg_entries segs' = seg_entries segs @ vec"
  using Posix_Write_room [OF assms, of B ok_bool] by blast


lemma fresh_wal:
  assumes "\<forall>n. isWal n \<longrightarrow> file_map k (log_dir opts @ ''/'' @ n) = None"
  shows "posix_wal D (new_LogManager opts) k []"
  using assms by (simp add: lm_inv_def new_LogManager_def lm_files_ok_def)

definition example_options :: WriteAheadLogOptions where
  "example_options = new_WriteAheadLogOptions\<lparr>log_dir := ''w'', log_segment_size := 60\<rparr>"

definition example_disk :: kernel where
  "example_disk = (example_kernel [])\<lparr>k_files := []\<rparr>"

lemma example_wal: "posix_wal example_deps (new_LogManager example_options) example_disk []"
  by (rule fresh_wal) (simp add: example_disk_def)

lemma example_options_simps [simp]:
  "log_dir example_options = ''w''" "log_segment_size example_options = 60" "k_answers example_disk = []"
  "lm_options (new_LogManager opts) = opts" "lm_current (new_LogManager opts) = None"
  by (simp_all add: example_options_def example_disk_def example_kernel_def new_LogManager_def new_WriteAheadLogOptions_def)

lemma example_vec:
  "\<forall>e \<in> set [(1, 1, [7]), (2, 1, [8]), (3, 2, [])]. entry_codec example_deps e"
  "length (entries_data example_deps [(1, 1, [7]), (2, 1, [8]), (3, 2, [])]) < 2 ^ 32"
  using example_batch_ok [of "[(1, 1, [7]), (2, 1, [8]), (3, 2, [])]"] by (simp_all add: batch_ok_def)

theorem wal_write_appends_witness:
  "\<exists>m' k' segs'. Write_entries example_deps (PosixEnv map_fslib) (PosixWritableFile_ops True)
      [(1, 1, [7]), (2, 1, [8]), (3, 2, [])] (new_LogManager example_options) example_disk = Some (Ret (OK, m', k')) \<and>
    posix_wal example_deps m' k' segs' \<and> seg_entries segs' = [(1, 1, [7]), (2, 1, [8]), (3, 2, [])]"
  using wal_write_appends [OF example_wal _ example_vec _ example_fmt, of map_fslib True]
  by (auto simp: has_room_def seg_entries_def)

text \<open>
  C22. A write can leave the vector.  If the current segment has at most 8 bytes left, the
  call appends an empty batch, writes no entry, and \<^verbatim>\<open>doWrite\<close> reads the entry before the first
  one of the vector (\<^verbatim>\<open>std::prev\<close> of its begin): undefined behaviour.
\<close>

theorem wal_write_before_begin:
  assumes "posix_wal D m k segs" "k_answers k = []" "\<forall>e \<in> set vec. small_entry D e" "vec \<noteq> []" "\<not> has_room m"
  shows "Write_entries D (PosixEnv B) (PosixWritableFile_ops ok_bool) vec m k = Some (Undef InvalidIterator)"
proof -
  let ?ops = "PosixWritableFile_ops ok_bool"
  obtain l b where W: "Posix_Write D B ok_bool vec m k = doWrite D (PosixEnv B) ?ops vec 0 None (m\<lparr>lm_lastIndex := l, lm_empty := b\<rparr>) k"
    using Write_entries_doWrite [OF assms(4), of D "PosixEnv B" ?ops m k] by blast
  obtain w where "lm_current m = Some w" using assms(5) by (auto simp: has_room_def split: option.splits)
  with Write_undef_iff [of D "m\<lparr>lm_lastIndex := l, lm_empty := b\<rparr>" k segs vec w B ok_bool] assms W show ?thesis
    by (simp add: lm_inv_lastIndex has_room_def)
qed

text \<open>A segment of 40 bytes that holds one batch of one entry: 3 bytes are left.\<close>

definition example_full_disk :: kernel where
  "example_full_disk =
     \<lparr>k_files = [(''w/1-1.wal'', segment_bytes example_deps [[(1, 1, [7])]])], k_fds = [3 \<mapsto> (''w/1-1.wal'', 37)],
      k_next = 4, k_answers = [], k_calls = []\<rparr>"

definition example_full :: "PosixWritableFile LogManager" where
  "example_full =
     \<lparr>lm_current = Some \<lparr>lw_file = (new_PosixWritableFile ''w/1-1.wal'' 3 37 False),
        lw_meta = \<lparr>fileName = ''w/1-1.wal'', numEntries = 1\<rparr>, lw_logSegmentSize = 40, lw_empty = False\<rparr>,
      lm_files = [], lm_lastIndex = 0, lm_empty = False, lm_options = example_options\<lparr>log_segment_size := 40\<rparr>\<rparr>"

lemma example_segment_length: "length (segment_bytes example_deps [[(i, 1, [7])]]) = 37"
  by (simp add: segment_bytes_def length_batch_bytes entries_data_def entry_record_def record_bytes_def
      PutLengthPrefixedSlice_def PutVarint32_def EncodeVarint32_def example_deps_def codec_simps)

lemma char_of_digit_1: "char_of (49 :: nat) = CHR ''1''"
  by code_simp

lemma example_name: "SegmentFileName example_deps 1 1 = ''1-1.wal''"
  by (simp add: SegmentFileName_def example_deps_def decimal.simps char_of_digit_1)

lemma example_full_wal: "posix_wal example_deps example_full example_full_disk [(1, [[(1, 1, [7])]])]"
  using example_batch_ok [of "[(1, 1, [7])]"]
  by (auto simp: lm_inv_def lm_files_ok_def example_full_def example_full_disk_def seg_path_def segment_path_def example_name
      posix_open_def posix_content_def new_PosixWritableFile_def example_segment_length split: if_splits)

theorem wal_write_before_begin_witness:
  "Write_entries example_deps (PosixEnv map_fslib) (PosixWritableFile_ops True) [(2, 1, [])] example_full example_full_disk =
     Some (Undef InvalidIterator)"
  using wal_write_before_begin [OF example_full_wal, of "[(2, 1, [])]" map_fslib True]
  by (simp add: example_small has_room_def) (simp add: example_full_def example_full_disk_def new_PosixWritableFile_def)

text \<open>A sequence of calls of \<^verbatim>\<open>Write\<close> without hard states, as long as each returns OK.\<close>

fun run_writes :: "('e, 'h, 'm) deps \<Rightarrow> ('f, 'r, 'k) Env \<Rightarrow> ('f, 'k) WritableFile \<Rightarrow> 'e list list
    \<Rightarrow> 'f LogManager \<Rightarrow> 'k \<Rightarrow> ('f LogManager \<times> 'k) option" where
  "run_writes D env ops [] m k = Some (m, k)"
| "run_writes D env ops (es # batches) m k =
     (case Write_entries D env ops es m k of
        Some (Ret (s, m, k)) \<Rightarrow> if s = OK then run_writes D env ops batches m k else None
      | _ \<Rightarrow> None)"

lemma Posix_Write_OK:
  assumes "Posix_Write D B ok_bool vec m k = Some (Ret (OK, m', k'))" "posix_wal D m k segs" "batch_ok D vec"
  shows "\<exists>segs'. posix_wal D m' k' segs' \<and> lm_options m' = lm_options m \<and> seg_entries segs' = seg_entries segs @ vec"
proof (cases "vec = []")
  case True
  with assms show ?thesis by (auto simp: Write_entries_def LogManager_Write_def intro!: exI [of _ segs])
next
  case False
  then obtain l b where "Posix_Write D B ok_bool vec m k =
      doWrite D (PosixEnv B) (PosixWritableFile_ops ok_bool) vec 0 None (m\<lparr>lm_lastIndex := l, lm_empty := b\<rparr>) k"
    using Write_entries_doWrite [OF False, of D "PosixEnv B" "PosixWritableFile_ops ok_bool" m k] by blast
  with assms(1) have w: "doWrite D (PosixEnv B) (PosixWritableFile_ops ok_bool) vec 0 None (m\<lparr>lm_lastIndex := l, lm_empty := b\<rparr>) k =
      Some (Ret (OK, m', k'))" by simp
  from posix.doWrite_inv [OF w refl refl refl _ refl, of segs] assms(2,3) show ?thesis
    by (simp add: lm_inv_lastIndex batch_ok_def)
qed

lemma run_writes_inv:
  "run_writes D (PosixEnv B) (PosixWritableFile_ops ok_bool) batches m k = Some (m', k') \<Longrightarrow> posix_wal D m k segs \<Longrightarrow>
   \<forall>es \<in> set batches. batch_ok D es \<Longrightarrow>
   \<exists>segs'. posix_wal D m' k' segs' \<and> lm_options m' = lm_options m \<and> seg_entries segs' = seg_entries segs @ concat batches"
proof (induction batches arbitrary: m k segs)
  case (Cons es batches)
  from Cons.prems(1) obtain m1 k1 where w: "Posix_Write D B ok_bool es m k = Some (Ret (OK, m1, k1))"
    and r: "run_writes D (PosixEnv B) (PosixWritableFile_ops ok_bool) batches m1 k1 = Some (m', k')"
    by (auto split: option.splits outcome.splits if_splits)
  from Posix_Write_OK [OF w Cons.prems(2)] Cons.prems(3) obtain segs1 where
    "posix_wal D m1 k1 segs1" "lm_options m1 = lm_options m" "seg_entries segs1 = seg_entries segs @ es" by auto
  with Cons.IH [OF r] Cons.prems(3) show ?case by fastforce
next
  case Nil
  then show ?case by auto
qed

lemma SegmentNum_segs: "posix_wal D m k segs \<Longrightarrow> SegmentNum m = length segs"
  by (simp add: lm_inv_def SegmentNum_def split: option.splits)

lemma posix_wal_recovers:
  assumes laws: "fs_size_law B" "fmt_law D" "fs_dir_law B (log_dir opts) k2"
    and S: "posix_wal D m k1 segs" "lm_options m = opts" "seg_entries segs \<noteq> []"
    and later: "file_map k2 = file_map k1" "k_answers k2 = []"
    and sizes: "SegmentNum m < 2 ^ 64 - 1" "\<forall>p c. file_map k2 p = Some c \<longrightarrow> length c < 2 ^ 64"
  shows "\<exists>m2 k3. Recover D (PosixEnv B) (PosixRandomAccessFile_ops B) opts None k2 =
      Ret (OK, Some (fold (mem_Append D) (seg_entries segs) (mem_new D)), Some m2, k3) \<and>
    SegmentNum m2 = SegmentNum m"
proof -
  have ok: "lm_files_ok D m (file_map k2) segs" using S(1) later(1) by (simp add: lm_inv_def)
  have len: "\<forall>seg \<in> set segs. length (segment_bytes D (snd seg)) < 2 ^ 64"
  proof
    fix seg
    assume "seg \<in> set segs"
    then obtain i where "i < length segs" "seg = segs ! i" by (auto simp: in_set_conv_nth)
    with ok have "file_map k2 (seg_path D m segs i) = Some (segment_bytes D (snd seg))" by (simp add: lm_files_ok_def)
    with sizes(2) show "length (segment_bytes D (snd seg)) < 2 ^ 64" by blast
  qed
  have "segs \<noteq> []" using S(3) by (auto simp: seg_entries_def)
  from Recover_segments [OF laws(1,3,2) later(2) ok S(2) _ this len] sizes(1) S obtain m2 k3 where
    R: "Recover D (PosixEnv B) (PosixRandomAccessFile_ops B) opts None k2 =
      Ret (OK, Some (fold (mem_Append D) (seg_entries segs) (mem_new D)), Some m2, k3)" "lm_current m2 = None"
      "map numEntries (lm_files m2) = map (\<lambda>seg. length (concat (snd seg))) segs"
    by (auto simp: SegmentNum_segs [OF S(1)])
  from arg_cong [OF R(3), of length] have "length (lm_files m2) = length segs" by simp
  with R show ?thesis by (auto simp: SegmentNum_segs [OF S(1)] SegmentNum_def [of m2])
qed

text \<open>
  What was written is recovered.  Starting from a directory without segments, after any
  sequence of writes of entries that all returned OK, a process that starts later on the same
  files (no open files, any order of the directory listing) recovers: the memory storage is
  the initial one with exactly the entries of all writes appended in order, and the new manager
  knows the same number of segments.
\<close>

lemma wal_recovers_writes:
  assumes laws: "fs_size_law B" "fmt_law D" "fs_dir_law B (log_dir opts) k2"
    and start: "\<forall>n. isWal n \<longrightarrow> file_map k (log_dir opts @ ''/'' @ n) = None"
    and run: "run_writes D (PosixEnv B) (PosixWritableFile_ops ok_bool) batches (new_LogManager opts) k = Some (m, k1)"
    and batches: "\<forall>es \<in> set batches. batch_ok D es" "concat batches \<noteq> []"
    and later: "file_map k2 = file_map k1" "k_answers k2 = []"
    and sizes: "SegmentNum m < 2 ^ 64 - 1" "\<forall>p c. file_map k2 p = Some c \<longrightarrow> length c < 2 ^ 64"
  shows "\<exists>m2 k3. Recover D (PosixEnv B) (PosixRandomAccessFile_ops B) opts None k2 =
      Ret (OK, Some (fold (mem_Append D) (concat batches) (mem_new D)), Some m2, k3) \<and>
    SegmentNum m2 = SegmentNum m"
proof -
  obtain segs where S: "posix_wal D m k1 segs" "lm_options m = opts" "seg_entries segs = concat batches"
    using run_writes_inv [OF run fresh_wal [OF start] batches(1)] by (auto simp: seg_entries_def)
  from posix_wal_recovers [OF laws S(1,2) _ later sizes] batches(2) S(3) show ?thesis by simp
qed

lemma map_fslib_dir: "fs_dir_law map_fslib dir k"
proof -
  have "n \<in> drop (length dir + 1) ` {p \<in> K. take (length dir + 1) p = dir @ ''/''} \<longleftrightarrow> dir @ ''/'' @ n \<in> K" for n K
  proof
    assume "n \<in> drop (length dir + 1) ` {p \<in> K. take (length dir + 1) p = dir @ ''/''}"
    then obtain p where "p \<in> K" "take (length dir + 1) p = dir @ ''/''" "n = drop (length dir + 1) p" by blast
    then show "dir @ ''/'' @ n \<in> K" by (metis append.assoc append_take_drop_id)
  next
    assume "dir @ ''/'' @ n \<in> K"
    then show "n \<in> drop (length dir + 1) ` {p \<in> K. take (length dir + 1) p = dir @ ''/''}"
      by (auto intro!: image_eqI [of _ _ "dir @ ''/'' @ n"])
  qed
  from this [where K = "fst ` set (k_files k)"] show ?thesis
    by (auto simp: fs_dir_law_def map_fslib_def map_of_eq_None_iff)
qed

text \<open>The first entry written to a new segment, if a record may start in it.\<close>

lemma first_write:
  assumes m: "lm_current m = None" "\<not> lm_empty m" and k: "k_answers k = []" "file_map k p = None"
    and p: "p = segment_path D (log_dir (lm_options m)) (of_nat (length (lm_files m)) + 1) (lm_lastIndex m + 1)"
    and e: "small_entry D e" and sz: "8 < unat (log_segment_size (lm_options m) - 10)"
  shows "\<exists>w k1. Posix_Write D B ok_bool [e] m k = Some (Ret (OK, m\<lparr>lm_current := Some w\<rparr>, k1)) \<and> k_answers k1 = [] \<and>
    posix_open (lw_file w) k1 \<and> posix_content (lw_file w) k1 = segment_bytes D [[e]] \<and>
    file_map k1 = (file_map k)(p \<mapsto> segment_bytes D [[e]])"
proof -
  let ?ops = "PosixWritableFile_ops ok_bool" and ?sz = "log_segment_size (lm_options m)"
  obtain f k0 where New: "env_NewWritableFile (PosixEnv B) p CREATE_NON_EXISTING False k = (Inr f, k0)" "k_answers k0 = []"
    using posix_quiet.New_quiet [OF k(1,2), of B] by auto
  note F = posix.New_OK [OF New(1)]
  let ?w = "new_LogWriter f p ?sz"
  have w: "LogWriter_New D (PosixEnv B) m k = (Inr ?w, k0)"
    using New p by (simp add: LogWriter_New_def)
  have op: "posix_open (lw_file ?w) k0" using F by (simp add: new_LogWriter_def)
  have small: "\<forall>e \<in> set [e]. small_entry D e" using e by simp
  obtain it w' k1 where app: "LogWriter_Append D ?ops ?w [e] 0 1 None k0 = Ret (Inr it, w', k1)" "k_answers k1 = []"
    using posix_quiet.Append_writer_quiet [OF New(2) op small, of 0 1 ok_bool] by auto
  have "fit_count D (?sz - 10) [e] = 1"
    using sz by (simp add: fit_count_def kLogBatchHeaderSize_def Let_def)
  then have it: "it = 1" "posix_content (lw_file w') k1 = segment_bytes D [[e]]" "posix_open (lw_file w') k1"
    using posix.LogWriter_Append_None [OF op small, of 0 1 ok_bool] app F
    by (auto simp: new_LogWriter_def Let_def segment_bytes_def)
  have v: "file_map k1 = (file_map k)(p \<mapsto> segment_bytes D [[e]])"
    using posix.LogWriter_Append_view [OF op small _ _ app(1)] F it(2) by (simp add: new_LogWriter_def)
  have "Posix_Write D B ok_bool [e] m k = Some (Ret (OK, m\<lparr>lm_current := Some w'\<rparr>, k1))"
    using w app it m by (simp add: Write_entries_def LogManager_Write_def Let_def doWrite.simps)
  with v app(2) it show ?thesis by blast
qed

lemma example_write:
  assumes m: "lm_current m = None" "lm_options m = example_options" "\<not> lm_empty m" and k: "k_answers k = []" "file_map k p = None"
    and p: "p = segment_path example_deps ''w'' (of_nat (length (lm_files m)) + 1) (lm_lastIndex m + 1)"
  shows "\<exists>m' k1. run_writes example_deps (PosixEnv map_fslib) (PosixWritableFile_ops True) [[(i, 1, [7])]] m k = Some (m', k1) \<and>
    SegmentNum m' = Suc (SegmentNum m) \<and> k_answers k1 = [] \<and>
    file_map k1 = (file_map k)(p \<mapsto> segment_bytes example_deps [[(i, 1, [7])]])"
proof -
  obtain w k1 where "Posix_Write example_deps map_fslib True [(i, 1, [7])] m k = Some (Ret (OK, m\<lparr>lm_current := Some w\<rparr>, k1))"
    "k_answers k1 = []" "file_map k1 = (file_map k)(p \<mapsto> segment_bytes example_deps [[(i, 1, [7])]])"
    using first_write [OF m(1,3) k, of example_deps "(i, 1, [7])" map_fslib True] m(2) p by (auto simp: example_small)
  with m(1) show ?thesis by (simp add: SegmentNum_def)
qed

lemma example_run:
  "\<exists>m k1. run_writes example_deps (PosixEnv map_fslib) (PosixWritableFile_ops True) [[(1, 1, [7])]]
      (new_LogManager example_options) example_disk = Some (m, k1) \<and> SegmentNum m = 1 \<and> k_answers k1 = [] \<and>
    file_map k1 = [''w/1-1.wal'' \<mapsto> segment_bytes example_deps [[(1, 1, [7])]]]"
  using example_write [of "new_LogManager example_options" example_disk _ 1, OF _ _ _ _ _ refl]
  by (simp add: segment_path_def example_name SegmentNum_def new_LogManager_def example_disk_def example_kernel_def
      example_options_def new_WriteAheadLogOptions_def)

lemma wal_recovers_writes_example:
  "\<exists>m k1 m2 k3. run_writes example_deps (PosixEnv map_fslib) (PosixWritableFile_ops True) [[(1, 1, [7])]]
      (new_LogManager example_options) example_disk = Some (m, k1) \<and>
    Recover example_deps (PosixEnv map_fslib) (PosixRandomAccessFile_ops map_fslib) example_options None
      (k1\<lparr>k_fds := Map.empty\<rparr>) = Ret (OK, Some (None, [(1, 1, [7])]), Some m2, k3) \<and> SegmentNum m2 = 1"
proof -
  obtain m k1 where run: "run_writes example_deps (PosixEnv map_fslib) (PosixWritableFile_ops True) [[(1, 1, [7])]]
      (new_LogManager example_options) example_disk = Some (m, k1)" and num: "SegmentNum m = 1" and k1: "k_answers k1 = []"
    "file_map k1 = [''w/1-1.wal'' \<mapsto> segment_bytes example_deps [[(1, 1, [7])]]]"
    using example_run by blast
  have "\<forall>p c. file_map (k1\<lparr>k_fds := Map.empty\<rparr>) p = Some c \<longrightarrow> length c < 2 ^ 64"
    using k1(2) by (auto simp: example_segment_length split: if_splits)
  then have "\<exists>m2 k3. Recover example_deps (PosixEnv map_fslib) (PosixRandomAccessFile_ops map_fslib) example_options None
      (k1\<lparr>k_fds := Map.empty\<rparr>) = Ret (OK, Some (fold (mem_Append example_deps) (concat [[(1, 1, [7])]]) (mem_new example_deps)),
        Some m2, k3) \<and> SegmentNum m2 = SegmentNum m"
    by (intro wal_recovers_writes [OF map_fslib_size example_fmt map_fslib_dir _ run])
      (simp_all add: example_batch_ok example_disk_def k1 num)
  with run num show ?thesis by (auto simp: example_deps_def)
qed

text \<open>
  C16. \<^verbatim>\<open>Write\<close> of entries ends for every behaviour of the kernel when segments are larger than
  18 bytes (the magic, a batch header): each new segment takes at least one entry.  The only
  undefined behaviour it can meet is the step before the begin of the vector, and only with a
  segment left from an earlier call.
\<close>

theorem wal_write_terminates:
  assumes "18 < unat (log_segment_size (lm_options m))" "\<forall>e \<in> set vec. small_entry D e"
    "\<forall>w. lm_current m = Some w \<longrightarrow> posix_open (lw_file w) k"
  shows "\<exists>r. Write_entries D (PosixEnv B) (PosixWritableFile_ops ok_bool) vec m k = Some r \<and>
    (\<forall>u. r = Undef u \<longrightarrow> lm_current m \<noteq> None \<and> u = InvalidIterator)"
proof (cases "vec = []")
  case False
  obtain l b where W: "Posix_Write D B ok_bool vec m k =
      doWrite D (PosixEnv B) (PosixWritableFile_ops ok_bool) vec 0 None (m\<lparr>lm_lastIndex := l, lm_empty := b\<rparr>) k"
    using Write_entries_doWrite [OF False, of D "PosixEnv B" "PosixWritableFile_ops ok_bool" m k] by blast
  with posix.doWrite_total [of "m\<lparr>lm_lastIndex := l, lm_empty := b\<rparr>" vec D 0 k B ok_bool] assms show ?thesis by auto
qed (simp add: Write_entries_def LogManager_Write_def)

theorem wal_write_terminates_witness:
  "\<exists>r. Write_entries example_deps (PosixEnv map_fslib) (PosixWritableFile_ops True) [(1, 1, [7]), (2, 1, [8])]
      (new_LogManager example_options) (example_disk\<lparr>k_answers := [Transfer 1, Transfer 4, Fail EINTR, Fail EBADF]\<rparr>) = Some r \<and>
    (\<forall>u. r \<noteq> Undef u)"
  using wal_write_terminates [of "new_LogManager example_options" "[(1, 1, [7]), (2, 1, [8])]" example_deps
      "example_disk\<lparr>k_answers := [Transfer 1, Transfer 4, Fail EINTR, Fail EBADF]\<rparr>" map_fslib True]
  by (auto simp: example_small)

text \<open>
  C21. No hard state ever reaches the log.  The call that writes a hard state only returns OK
  and does nothing, and a call with a hard state and entries, on a kernel that answers without errors,
  is undefined behaviour before anything of the batch is written.
\<close>

theorem wal_hard_state_never_stored:
  assumes "posix_wal D m k segs" "k_answers k = []" "\<forall>e \<in> set vec. small_entry D e" "vec \<noteq> []"
    "length (hs_bytes D h) < 2 ^ 31" "fmt_law D" "length segs < 2 ^ 64"
  shows "Write_hard_state D (PosixEnv B) (PosixWritableFile_ops ok_bool) (Some h) m k = Some (Ret (OK, m, k)) \<and>
    LogManager_Write D (PosixEnv B) (PosixWritableFile_ops ok_bool) vec (Some h) m k = Some (Undef OutOfBounds)"
proof -
  let ?ops = "PosixWritableFile_ops ok_bool"
  have D: "doWrite D (PosixEnv B) ?ops vec 0 (Some h) v k = Some (Undef OutOfBounds)" if inv: "posix_wal D v k segs" for v
  proof -
    obtain w k1 where W: "(case lm_current v of None \<Rightarrow> LogWriter_New D (PosixEnv B) v k | Some w \<Rightarrow> (Inr w, k)) = (Inr w, k1)"
      "k_answers k1 = []" "posix_open (lw_file w) k1"
    proof (cases "lm_current v")
      case None
      with posix_quiet.New_writer_quiet [OF assms(2) inv _ assms(6,7), of B] posix.New_writer_open
      show ?thesis by (fastforce intro: that)
    next
      case (Some w)
      with inv assms(2) show ?thesis by (intro that [of w k]) (simp_all add: lm_inv_def)
    qed
    obtain f' k' where "wf_Append ?ops (lw_file w) kLogSegmentHeaderMagic k1 = (OK, f', k')"
      using posix_quiet.Append_quiet [OF W(2,3), of ok_bool] by blast
    then have "LogWriter_Append D ?ops w vec 0 (length vec) (Some h) k1 = Undef OutOfBounds"
      by (intro LogWriter_Append_Some assms) simp_all
    with W show ?thesis by (subst doWrite.simps) simp
  qed
  have "LogManager_Write D (PosixEnv B) ?ops vec (Some h) m k = Some (Undef OutOfBounds)"
    using assms(1,4) D
    by (cases vec) (simp_all add: LogManager_Write_def Let_def lm_inv_lastIndex)
  then show ?thesis by (simp add: Write_hard_state_def LogManager_Write_def)
qed

theorem wal_hard_state_never_stored_witness:
  "LogManager_Write example_deps (PosixEnv map_fslib) (PosixWritableFile_ops True) [(1, 1, [7])] (Some [4, 2])
     (new_LogManager example_options) example_disk = Some (Undef OutOfBounds)"
  using wal_hard_state_never_stored [OF example_wal, of "[(1, 1, [7])]" "[4, 2]" map_fslib True]
  by (simp add: example_small example_hs example_fmt)

end
