(* ===== verification/NodeWal.thy ===== *)
theory NodeWal
  imports ReplicatedLog WalRecovery
begin

section \<open>The flusher on the file-backed write-ahead log\<close>

text \<open>
  \<^verbatim>\<open>LogManager\<close> on the POSIX environment as the write-ahead log of a replicated log.  Its state is
  the manager and the kernel whose files it writes.
\<close>

definition posix_log :: "('e, 'h, 'm) deps \<Rightarrow> fslib \<Rightarrow> bool
    \<Rightarrow> ('e, 'h, PosixWritableFile LogManager \<times> kernel) WriteAheadLog" where
  "posix_log D B ok_bool =
     \<lparr>wal_Write = (\<lambda>vec hs (m, k). map_option (\<lambda>r. bind_outcome r (\<lambda>(s, m, k). Ret (s, m, k)))
        (LogManager_Write D (PosixEnv B) (PosixWritableFile_ops ok_bool) vec hs m k))\<rparr>"

definition wal_holds :: "('e, 'h, 'm) deps \<Rightarrow> WriteAheadLogOptions \<Rightarrow> PosixWritableFile LogManager \<times> kernel \<Rightarrow> 'e list \<Rightarrow> bool" where
  "wal_holds D opts w es =
     (\<exists>segs. posix_wal D (fst w) (snd w) segs \<and> lm_options (fst w) = opts \<and> seg_entries segs = es)"

lemma posix_log_Write:
  "wal_Write (posix_log D B ok_bool) vec None (m, k) = Some (Ret (s, m', k')) \<longleftrightarrow>
   Posix_Write D B ok_bool vec m k = Some (Ret (s, m', k'))"
  by (auto simp: posix_log_def Write_entries_def)

text \<open>A call with entries and a hard state never answers OK: it overflows its buffer or has failed before.\<close>

lemma LogWriter_Append_hard_state:
  assumes "\<forall>e \<in> set vec. small_entry D e" "length (hs_bytes D h) < 2 ^ 31"
    and "LogWriter_Append D ops w vec 0 (length vec) (Some h) k = Ret (r, w', k')"
  shows "\<exists>e. r = Inl e \<and> e \<noteq> OK"
  using assms(3) by (auto simp: LogWriter_Append_def Append_batch_Some [OF assms(1,2)] split: prod.splits if_splits)

lemma posix_log_Write_hard_state:
  assumes "vec \<noteq> []" "\<forall>e \<in> set vec. small_entry D e" "length (hs_bytes D h) < 2 ^ 31"
  shows "wal_Write (posix_log D B ok_bool) vec (Some h) (m, k) \<noteq> Some (Ret (OK, m', k'))"
proof
  assume w: "wal_Write (posix_log D B ok_bool) vec (Some h) (m, k) = Some (Ret (OK, m', k'))"
  obtain v where "doWrite D (PosixEnv B) (PosixWritableFile_ops ok_bool) vec 0 (Some h) v k = Some (Ret (OK, m', k'))"
    using w assms(1) by (cases vec) (auto simp: posix_log_def LogManager_Write_def Let_def)
  then have "(case (case lm_current v of None \<Rightarrow> LogWriter_New D (PosixEnv B) v k | Some w \<Rightarrow> (Inr w, k)) of
      (Inl e, k) \<Rightarrow> e = OK
    | (Inr w, k) \<Rightarrow> \<exists>r w' k'. LogWriter_Append D (PosixWritableFile_ops ok_bool) w vec 0 (length vec) (Some h) k = Ret (r, w', k') \<and>
        (\<forall>e. r = Inl e \<longrightarrow> e = OK))"
    by (subst (asm) doWrite.simps) (auto split: option.splits prod.splits sum.splits outcome.splits)
  then show False
    using LogWriter_Append_hard_state [OF assms(2,3)]
    by (fastforce dest: posix.New_writer_error split: option.splits prod.splits sum.splits)
qed

definition ready_ok :: "('e, 'h, 'm) deps \<Rightarrow> 'e list \<Rightarrow> 'h option \<Rightarrow> bool" where
  "ready_ok D vec hs \<longleftrightarrow> batch_ok D vec \<and> (\<forall>h. hs = Some h \<longrightarrow> length (hs_bytes D h) < 2 ^ 31)"

interpretation file_log: write_ahead_log "posix_log D B ok_bool" "wal_holds D opts" "ready_ok D"
proof
  fix w es vec hs w'
  assume *: "wal_holds D opts w es" "ready_ok D vec hs" "wal_Write (posix_log D B ok_bool) vec hs w = Some (Ret (OK, w'))"
  show "wal_holds D opts w' (es @ vec)"
  proof (cases "hs = None")
    case True
    with * show ?thesis
      by (cases w; cases w') (auto simp: wal_holds_def posix_log_Write ready_ok_def dest!: Posix_Write_OK)
  next
    case False
    then obtain h where "hs = Some h" by blast
    with * have "\<forall>e \<in> set vec. small_entry D e" "length (hs_bytes D h) < 2 ^ 31"
      by (simp_all add: ready_ok_def batch_ok_def entry_codec_def)
    with posix_log_Write_hard_state [OF _ this] *(3) \<open>hs = Some h\<close> have "vec = []"
      by (metis prod.collapse)
    with * show ?thesis by (cases w) (auto simp: posix_log_def LogManager_Write_def)
  qed
qed

lemma wal_holds_new: "\<forall>n. isWal n \<longrightarrow> file_map k (log_dir opts @ ''/'' @ n) = None \<Longrightarrow> wal_holds D opts (new_LogManager opts, k) []"
  unfolding wal_holds_def using fresh_wal [of k opts D]
  by (intro exI [of _ "[]"]) (simp add: seg_entries_def new_LogManager_def)

lemma wal_holds_recovers:
  assumes "wal_holds D opts (m, k1) es" "es \<noteq> []" "fs_size_law B" "fmt_law D" "fs_dir_law B (log_dir opts) k2"
    and "file_map k2 = file_map k1" "k_answers k2 = []"
    and "SegmentNum m < 2 ^ 64 - 1" "\<forall>p c. file_map k2 p = Some c \<longrightarrow> length c < 2 ^ 64"
  shows "\<exists>m2 k3. Recover D (PosixEnv B) (PosixRandomAccessFile_ops B) opts None k2 =
      Ret (OK, Some (fold (mem_Append D) es (mem_new D)), Some m2, k3) \<and> SegmentNum m2 = SegmentNum m"
  using assms posix_wal_recovers [OF assms(3-5)] unfolding wal_holds_def by fastforce

end
