(* ===== verification/MemKvStore.thy ===== *)
theory MemKvStore
  imports Status "HOL-Library.Sublist"
begin

section \<open>The in-memory store of memkv: apps/memkv/src/memkv_store.h, apps/memkv/src/memkv_store.cc\<close>

text \<open>
  A tree of nodes.  Every node is owned by the table of its parent, so the pointers of the code
  are the subtrees of a datatype.  Each operation holds the mutex from start to end, so it is
  one step.  \<^verbatim>\<open>Slice::TrimSpace\<close> and \<^verbatim>\<open>boost::split\<close> are parameters.
\<close>

record kv_lib =
  TrimSpace :: "string \<Rightarrow> string"
  split_slash :: "string \<Rightarrow> string list"

datatype Node = Node (children: "string \<rightharpoonup> Node") (data: string)

definition new_Node :: Node where
  "new_Node = Node Map.empty []"

type_synonym kv_status = memkv_ErrorCodes

definition validatePath :: "kv_lib \<Rightarrow> string \<Rightarrow> kv_status + string list" where
  "validatePath L p =
     (let path = TrimSpace L p in
      if length path = 0 then Inl KvInvalidArgument
      else if \<exists>i < length path. path ! i = CHR 0x00 then Inl KvInvalidArgument
      else Inr (split_slash L path))"

fun Write_loop :: "string list \<Rightarrow> string \<Rightarrow> Node \<Rightarrow> Node" where
  "Write_loop [] value n = Node (children n) value"
| "Write_loop (seg # pathVec) value n =
     (if length seg = 0 then Write_loop pathVec value n
      else
        let child = (case children n seg of None \<Rightarrow> new_Node | Some c \<Rightarrow> c)
        in Node ((children n)(seg \<mapsto> Write_loop pathVec value child)) (data n))"

definition Kv_Write :: "kv_lib \<Rightarrow> string \<Rightarrow> string \<Rightarrow> Node \<Rightarrow> kv_status \<times> Node" where
  "Kv_Write L path value root =
     (case validatePath L path of
        Inl e \<Rightarrow> (e, root)
      | Inr pathVec \<Rightarrow> (KvOK, Write_loop pathVec value root))"

fun Delete_loop :: "string list \<Rightarrow> Node \<Rightarrow> kv_status \<times> Node" where
  "Delete_loop [] n = (KvInvalidArgument, n)"
| "Delete_loop (seg # pathVec) n =
     (if length seg = 0 then Delete_loop pathVec n
      else
        case children n seg of
          None \<Rightarrow> (KvOK, n)
        | Some c \<Rightarrow>
            if pathVec = [] then (KvOK, Node ((children n)(seg := None)) (data n))
            else (case Delete_loop pathVec c of (s, c') \<Rightarrow> (s, Node ((children n)(seg \<mapsto> c')) (data n))))"

definition Kv_Delete :: "kv_lib \<Rightarrow> string \<Rightarrow> Node \<Rightarrow> kv_status \<times> Node" where
  "Kv_Delete L path root =
     (case validatePath L path of
        Inl e \<Rightarrow> (e, root)
      | Inr pathVec \<Rightarrow> Delete_loop pathVec root)"

fun Get_loop :: "string list \<Rightarrow> Node \<Rightarrow> kv_status + string" where
  "Get_loop [] n = Inr (data n)"
| "Get_loop (seg # pathVec) n =
     (if length seg = 0 then Get_loop pathVec n
      else case children n seg of None \<Rightarrow> Inl KvNodeNotExist | Some c \<Rightarrow> Get_loop pathVec c)"

definition Kv_Get :: "kv_lib \<Rightarrow> string \<Rightarrow> Node \<Rightarrow> kv_status + string" where
  "Kv_Get L path root =
     (case validatePath L path of
        Inl e \<Rightarrow> Inl e
      | Inr pathVec \<Rightarrow> Get_loop pathVec root)"

subsection \<open>The abstract store\<close>

text \<open>
  Abstractly a store is a map from paths (lists of non-empty segments) to data, whose domain is
  closed under prefixes.  Writing creates the missing prefixes with empty data; deleting removes
  a path and everything below it.
\<close>

type_synonym kv_map = "string list \<rightharpoonup> string"

definition segments_of :: "string list \<Rightarrow> string list" where
  "segments_of pathVec = filter (\<lambda>seg. seg \<noteq> []) pathVec"

definition kv_put :: "string list \<Rightarrow> string \<Rightarrow> kv_map \<Rightarrow> kv_map" where
  "kv_put p v m = (\<lambda>q. if q = p then Some v
     else if prefix q p \<and> m q = None then Some [] else m q)"

definition kv_remove :: "string list \<Rightarrow> kv_map \<Rightarrow> kv_map" where
  "kv_remove p m = (\<lambda>q. if prefix p q then None else m q)"

definition abs_kv :: "Node \<Rightarrow> kv_map" where
  "abs_kv n p = (if [] \<in> set p then None else case Get_loop p n of Inl e \<Rightarrow> None | Inr d \<Rightarrow> Some d)"

lemma segments_of_simps [simp]:
  "segments_of [] = []" "segments_of (s # ss) = (if s = [] then segments_of ss else s # segments_of ss)"
  "[] \<notin> set (segments_of ss)"
  by (simp_all add: segments_of_def)

lemma abs_kv_Nil [simp]: "abs_kv n [] = Some (data n)"
  by (simp add: abs_kv_def)

lemma abs_kv_Cons:
  "abs_kv n (s # p) = (if s = [] then None else case children n s of None \<Rightarrow> None | Some c \<Rightarrow> abs_kv c p)"
  by (simp add: abs_kv_def split: option.splits)

lemma Get_loop_abs:
  "Get_loop pathVec n = (case abs_kv n (segments_of pathVec) of None \<Rightarrow> Inl KvNodeNotExist | Some d \<Rightarrow> Inr d)"
  by (induction pathVec n rule: Get_loop.induct) (auto simp: abs_kv_Cons split: option.splits)

lemma abs_new_Node: "abs_kv new_Node p = (if p = [] then Some [] else None)"
  by (cases p) (simp_all add: new_Node_def abs_kv_Cons)

lemma kv_put_Cons:
  "kv_put (s # p) v m q = (case q of [] \<Rightarrow> (case m [] of None \<Rightarrow> Some [] | Some d \<Rightarrow> Some d)
     | t # q' \<Rightarrow> if t = s then kv_put p v (\<lambda>q. m (s # q)) q' else m (t # q'))"
  by (auto simp: kv_put_def split: list.split option.split)

lemma Write_loop_abs: "abs_kv (Write_loop pathVec v n) = kv_put (segments_of pathVec) v (abs_kv n)"
proof (induction pathVec v n rule: Write_loop.induct)
  case (1 v n)
  show ?case
  proof
    fix q
    show "abs_kv (Write_loop [] v n) q = kv_put (segments_of []) v (abs_kv n) q"
      by (cases q) (simp_all add: kv_put_def abs_kv_Cons)
  qed
next
  case (2 seg pathVec v n)
  show ?case
  proof (cases "seg = []")
    case False
    let ?c = "case children n seg of None \<Rightarrow> new_Node | Some c \<Rightarrow> c"
    have sub: "kv_put p v (\<lambda>q. abs_kv n (seg # q)) q = kv_put p v (abs_kv ?c) q" for p q
      using False by (auto simp: kv_put_def abs_kv_Cons abs_new_Node split: option.splits)
    show ?thesis
    proof
      fix q
      show "abs_kv (Write_loop (seg # pathVec) v n) q = kv_put (segments_of (seg # pathVec)) v (abs_kv n) q"
        using False 2(2) [OF _ refl] sub
        by (cases q) (auto simp: kv_put_Cons abs_kv_Cons Let_def)
    qed
  qed (use 2 in simp)
qed

lemma path_ext: "f [] = g [] \<Longrightarrow> (\<And>t q. f (t # q) = g (t # q)) \<Longrightarrow> f = g"
  by (rule ext) (metis list.exhaust)

lemma kv_remove_child:
  "s \<noteq> [] \<Longrightarrow> children n s = Some c \<Longrightarrow> abs_kv c' = kv_remove p (abs_kv c) \<Longrightarrow>
   abs_kv (Node ((children n)(s \<mapsto> c')) (data n)) = kv_remove (s # p) (abs_kv n)"
  by (rule path_ext) (auto simp: abs_kv_Cons kv_remove_def)

lemma kv_remove_leaf:
  "s \<noteq> [] \<Longrightarrow> abs_kv (Node ((children n)(s := None)) (data n)) = kv_remove [s] (abs_kv n)"
  by (rule path_ext) (auto simp: abs_kv_Cons kv_remove_def)

lemma kv_remove_missing: "children n s = None \<Longrightarrow> kv_remove (s # p) (abs_kv n) = abs_kv n"
  by (rule path_ext) (auto simp: abs_kv_Cons kv_remove_def)

lemma abs_kv_same_child:
  "children n s = Some c \<Longrightarrow> abs_kv c' = abs_kv c \<Longrightarrow> abs_kv (Node ((children n)(s \<mapsto> c')) (data n)) = abs_kv n"
proof (rule ext)
  fix q
  assume "children n s = Some c" "abs_kv c' = abs_kv c"
  then show "abs_kv (Node ((children n)(s \<mapsto> c')) (data n)) q = abs_kv n q"
    by (cases q) (simp_all add: abs_kv_Cons)
qed

lemma Delete_loop_abs:
  assumes "Delete_loop pathVec n = (s, n')"
  shows "if pathVec \<noteq> [] \<and> last pathVec \<noteq> [] then s = KvOK \<and> abs_kv n' = kv_remove (segments_of pathVec) (abs_kv n)
    else abs_kv n' = abs_kv n \<and> s = (if abs_kv n (segments_of pathVec) = None then KvOK else KvInvalidArgument)"
  using assms
proof (induction pathVec n arbitrary: s n' rule: Delete_loop.induct)
  case (2 seg pathVec n)
  show ?case
  proof (cases "seg = []")
    case True
    with 2 show ?thesis by (cases pathVec) auto
  next
    case False
    show ?thesis
    proof (cases "children n seg")
      case None
      with False 2(3) show ?thesis by (auto simp: kv_remove_missing abs_kv_Cons)
    next
      case (Some c)
      show ?thesis
      proof (cases "pathVec = []")
        case True
        with Some False 2(3) show ?thesis by (auto simp: kv_remove_leaf)
      next
        case ne: False
        obtain s1 c1 where d: "Delete_loop pathVec c = (s1, c1)" by (cases "Delete_loop pathVec c")
        with Some False ne 2(3) have r: "s = s1" "n' = Node ((children n)(seg \<mapsto> c1)) (data n)" by auto
        from 2(2) [OF _ Some ne d] False ne Some r kv_remove_child [OF False Some] abs_kv_same_child [OF Some, of c1]
        show ?thesis by (auto simp: abs_kv_Cons split: if_splits)
      qed
    qed
  qed
qed simp

subsection \<open>The contract of a store and its client lemmas\<close>

locale kv_store =
  fixes put :: "string \<Rightarrow> string \<Rightarrow> 's \<Rightarrow> kv_status \<times> 's"
    and get :: "string \<Rightarrow> 's \<Rightarrow> kv_status + string"
    and path :: "string \<Rightarrow> string list option"
    and view :: "'s \<Rightarrow> kv_map"
  assumes put_invalid: "path p = None \<Longrightarrow> put p v s = (KvInvalidArgument, s)"
    and put_valid: "path p = Some a \<Longrightarrow> \<exists>s'. put p v s = (KvOK, s') \<and> view s' = kv_put a v (view s)"
    and get_law: "get p s = (case path p of None \<Rightarrow> Inl KvInvalidArgument
          | Some a \<Rightarrow> (case view s a of None \<Rightarrow> Inl KvNodeNotExist | Some d \<Rightarrow> Inr d))"
begin

lemma get_put:
  assumes "path q = Some b" "path p = Some a" "put q v s = (r, s')"
  shows "r = KvOK \<and> get p s' =
    (if a = b then Inr v
     else if prefix a b then (case get p s of Inl e \<Rightarrow> Inr [] | Inr d \<Rightarrow> Inr d)
     else get p s)"
proof -
  have "r = KvOK" "view s' = kv_put b v (view s)" using put_valid [OF assms(1), of v s] assms(3) by auto
  with assms(2) show ?thesis by (auto simp: get_law kv_put_def split: option.splits)
qed

lemma get_same_path: "path p = path q \<Longrightarrow> get p s = get q s"
  by (simp add: get_law)

end

definition kv_path :: "kv_lib \<Rightarrow> string \<Rightarrow> string list option" where
  "kv_path L p = (case validatePath L p of Inl e \<Rightarrow> None | Inr vec \<Rightarrow> Some (segments_of vec))"

lemma validatePath_error: "validatePath L p = Inl e \<Longrightarrow> e = KvInvalidArgument"
  by (auto simp: validatePath_def Let_def split: if_splits)

interpretation memkv: kv_store "Kv_Write L" "Kv_Get L" "kv_path L" abs_kv
proof (unfold_locales, goal_cases)
  case (1 p v s)
  then show ?case by (auto simp: kv_path_def Kv_Write_def dest: validatePath_error split: sum.splits)
next
  case (2 p a v s)
  then show ?case by (auto simp: kv_path_def Kv_Write_def Write_loop_abs split: sum.splits)
next
  case (3 p s)
  then show ?case
    by (auto simp: kv_path_def Kv_Get_def Get_loop_abs dest: validatePath_error split: sum.splits)
qed

subsection \<open>Properties\<close>

text \<open>A path that does not end in a slash: its last token is not empty.\<close>

definition ends_in_segment :: "kv_lib \<Rightarrow> string \<Rightarrow> bool" where
  "ends_in_segment L p = (case validatePath L p of Inl e \<Rightarrow> False | Inr vec \<Rightarrow> vec \<noteq> [] \<and> last vec \<noteq> [])"

text \<open>
  C8. The tree implements the abstract map: what each operation does to the store, read as a
  map from segment lists to data, is the put, remove and lookup of the map, and invalid paths
  change nothing.  Only a delete of a path that ends in a slash removes nothing, and answers
  InvalidArgument when the path exists.
\<close>

theorem kv_store_refines:
  "(case kv_path L p of
      None \<Rightarrow> Kv_Write L p v n = (KvInvalidArgument, n) \<and> Kv_Delete L p n = (KvInvalidArgument, n) \<and>
              Kv_Get L p n = Inl KvInvalidArgument
    | Some a \<Rightarrow>
        fst (Kv_Write L p v n) = KvOK \<and> abs_kv (snd (Kv_Write L p v n)) = kv_put a v (abs_kv n) \<and>
        Kv_Get L p n = (case abs_kv n a of None \<Rightarrow> Inl KvNodeNotExist | Some d \<Rightarrow> Inr d) \<and>
        (if ends_in_segment L p
         then fst (Kv_Delete L p n) = KvOK \<and> abs_kv (snd (Kv_Delete L p n)) = kv_remove a (abs_kv n)
         else abs_kv (snd (Kv_Delete L p n)) = abs_kv n \<and>
              fst (Kv_Delete L p n) = (if abs_kv n a = None then KvOK else KvInvalidArgument)))"
proof (cases "validatePath L p")
  case (Inl e)
  then show ?thesis
    by (simp add: kv_path_def Kv_Write_def Kv_Delete_def Kv_Get_def validatePath_error [OF Inl])
next
  case (Inr vec)
  obtain s n' where "Delete_loop vec n = (s, n')" by (cases "Delete_loop vec n")
  with Inr Delete_loop_abs [OF this] show ?thesis
    by (simp add: kv_path_def ends_in_segment_def Kv_Write_def Kv_Delete_def Kv_Get_def Write_loop_abs Get_loop_abs)
qed

text \<open>
  Reading after a write.  The path written has the value; a missing prefix of it has been
  created with empty data; every other path reads as before.  Paths that differ only in empty
  segments (repeated, leading or trailing slashes) are the same path.
\<close>

lemma kv_get_after_write:
  assumes "kv_path L q = Some b" "kv_path L p = Some a" "Kv_Write L q v n = (s, n')"
  shows "s = KvOK \<and> Kv_Get L p n' =
    (if a = b then Inr v
     else if prefix a b then (case Kv_Get L p n of Inl e \<Rightarrow> Inr [] | Inr d \<Rightarrow> Inr d)
     else Kv_Get L p n)"
  by (rule memkv.get_put [OF assms])

text \<open>A concrete library: no white space to trim, and the tokens between slashes.\<close>

fun slash_tokens :: "string \<Rightarrow> string list" where
  "slash_tokens [] = [[]]"
| "slash_tokens (c # cs) =
     (if c = CHR ''/'' then [] # slash_tokens cs
      else case slash_tokens cs of [] \<Rightarrow> [[c]] | t # ts \<Rightarrow> (c # t) # ts)"

definition example_lib :: kv_lib where
  "example_lib = \<lparr>TrimSpace = id, split_slash = slash_tokens\<rparr>"

lemma example_path:
  "kv_path example_lib ''/a/b'' = Some [''a'', ''b'']" "kv_path example_lib ''a//b/'' = Some [''a'', ''b'']"
  "kv_path example_lib ''/a'' = Some [''a'']"
  "validatePath example_lib ''/a/'' = Inr [[], ''a'', []]" "validatePath example_lib ''/a'' = Inr [[], ''a'']"
  by (simp_all add: kv_path_def validatePath_def example_lib_def nth_Cons' less_Suc_eq_0_disj)

lemma kv_get_after_write_example:
  "\<exists>n'. Kv_Write example_lib ''/a/b'' ''v'' new_Node = (KvOK, n') \<and>
     Kv_Get example_lib ''a//b/'' n' = Inr ''v'' \<and> Kv_Get example_lib ''/a'' n' = Inr []"
proof -
  obtain s n' where w: "Kv_Write example_lib ''/a/b'' ''v'' new_Node = (s, n')" by fastforce
  from kv_get_after_write [OF example_path(1,2) w] kv_get_after_write [OF example_path(1,3) w] w show ?thesis
    by (auto simp: memkv.get_law example_path abs_new_Node)
qed

text \<open>
  Deleting.  A path whose last token is not empty is removed with everything below it and
  all other paths read as before.  A path that ends in a slash is never deleted: if it exists
  the call answers InvalidArgument, as if it were the root directory, and nothing changes.
\<close>

lemma kv_delete:
  assumes "validatePath L p = Inr vec" "vec \<noteq> []" "kv_path L q = Some a" "Kv_Delete L p n = (s, n')"
  shows "if last vec \<noteq> []
    then s = KvOK \<and> Kv_Get L q n' = (if prefix (segments_of vec) a then Inl KvNodeNotExist else Kv_Get L q n)
    else Kv_Get L q n' = Kv_Get L q n \<and> s = (if Kv_Get L p n = Inl KvNodeNotExist then KvOK else KvInvalidArgument)"
proof -
  have "Delete_loop vec n = (s, n')" using assms(1,4) by (simp add: Kv_Delete_def)
  note d = Delete_loop_abs [OF this]
  have p: "kv_path L p = Some (segments_of vec)" using assms(1) by (simp add: kv_path_def)
  show ?thesis
    using d assms(2) by (auto simp: memkv.get_law assms(3) p kv_remove_def split: if_splits option.splits)
qed

lemma kv_delete_example:
  "\<exists>n'. Kv_Delete example_lib ''/a/'' (snd (Kv_Write example_lib ''/a'' ''v'' new_Node)) = (KvInvalidArgument, n') \<and>
     Kv_Get example_lib ''/a'' n' = Inr ''v''"
proof -
  let ?n = "snd (Kv_Write example_lib ''/a'' ''v'' new_Node)"
  have g: "Kv_Get example_lib ''/a'' ?n = Inr ''v''" "Kv_Get example_lib ''/a/'' ?n = Inr ''v''"
    by (simp_all add: Kv_Get_def Kv_Write_def example_path)
  obtain s n' where d: "Kv_Delete example_lib ''/a/'' ?n = (s, n')" by fastforce
  from kv_delete [OF example_path(4) _ example_path(3) d] g d show ?thesis by simp
qed

end
