(* ===== verification/KvDb.thy ===== *)
theory KvDb
  imports MemKvStore ReplicatedLog LogManager
begin

section \<open>The memkv server\<close>

text \<open>
  apps/memkv/src/db.cc, apps/memkv/src/memkv_service.cc and apps/memkv/src/memkv_server.cc: a
  key-value store on top of the replicated log, its RPC service and its main program.
\<close>

subsection \<open>The commands in the log\<close>

datatype OpType = kWrite | kDelete

fun op_byte :: "OpType \<Rightarrow> byte" where
  "op_byte kWrite = 1"
| "op_byte kDelete = 2"

definition bytes_of :: "string \<Rightarrow> bytes" where
  "bytes_of s = map (\<lambda>c. word_of_nat (of_char c)) s"

definition LogEncode :: "OpType \<Rightarrow> string \<Rightarrow> string \<Rightarrow> bytes" where
  "LogEncode type path value =
     (let result = [op_byte type];
          result = PutLengthPrefixedSlice result (bytes_of path)
      in if type = kWrite then PutLengthPrefixedSlice result (bytes_of value) else result)"

subsection \<open>DB\<close>

text \<open>
  What the database uses of the replicated log.  \<open>None\<close> when a call does not return.
\<close>

record 'l replicated_log_api =
  api_Write :: "bytes \<Rightarrow> 'l \<Rightarrow> (ErrorCodes \<times> 'l) outcome option"
  api_LeaderHint :: "'l \<Rightarrow> u64"
  api_Id :: "'l \<Rightarrow> u64"

record 'l DB =
  db_log :: 'l
  db_kv :: Node

definition DB_Get :: "'l replicated_log_api \<Rightarrow> kv_lib \<Rightarrow> string \<Rightarrow> bool \<Rightarrow> 'l DB \<Rightarrow> kv_status + string" where
  "DB_Get R L path stale db =
     (let currentLeader = api_LeaderHint R (db_log db);
          ident = api_Id R (db_log db)
      in if currentLeader \<noteq> ident \<and> \<not> stale then Inl KvConsensusError
         else Kv_Get L path (db_kv db))"

text \<open>
  The two updates write the command to the log and, when the log answers OK, change the store.
  \<^verbatim>\<open>Delete\<close> gives a null pointer for the value; what the string library makes of it is a parameter.
\<close>

definition log_then :: "'l replicated_log_api \<Rightarrow> bytes \<Rightarrow> (Node \<Rightarrow> kv_status \<times> Node) \<Rightarrow> 'l DB \<Rightarrow> (kv_status \<times> 'l DB) outcome option" where
  "log_then R log apply_kv db =
     map_option (\<lambda>r. bind_outcome r (\<lambda>(s, l).
         if s \<noteq> OK then Ret (KvConsensusError, db\<lparr>db_log := l\<rparr>)
         else case apply_kv (db_kv db) of (st, kv) \<Rightarrow> Ret (st, \<lparr>db_log = l, db_kv = kv\<rparr>)))
       (api_Write R log (db_log db))"

definition DB_Write :: "'l replicated_log_api \<Rightarrow> kv_lib \<Rightarrow> string \<Rightarrow> string \<Rightarrow> 'l DB \<Rightarrow> (kv_status \<times> 'l DB) outcome option" where
  "DB_Write R L path value db = log_then R (LogEncode kWrite path value) (Kv_Write L path value) db"

definition DB_Delete :: "'l replicated_log_api \<Rightarrow> kv_lib \<Rightarrow> string outcome \<Rightarrow> string \<Rightarrow> 'l DB \<Rightarrow> (kv_status \<times> 'l DB) outcome option" where
  "DB_Delete R L null_slice path db =
     (case null_slice of
        Ret value \<Rightarrow> log_then R (LogEncode kDelete path value) (Kv_Delete L path) db
      | Undef u \<Rightarrow> Some (Undef u)
      | Fatal \<Rightarrow> Some Fatal)"

subsection \<open>DB::Bootstrap\<close>

record DBOptions =
  member_id :: u64
  wal_dir :: string
  db_initial_cluster :: "(u64 \<times> string) list"

definition DB_Bootstrap :: "('e, 'h, 'm) deps \<Rightarrow> ('f, 'r, 'k) Env \<Rightarrow> ('r, 'k) RandomAccessFile \<Rightarrow> ('n, 'msg, 'e, 'h, 'm) yaraft
    \<Rightarrow> u64 \<Rightarrow> DBOptions \<Rightarrow> 'k \<Rightarrow> heap
    \<Rightarrow> ((kv_status + ('n, 'msg, 'f LogManager \<times> 'k, 'm) ReplicatedLog DB) \<times> 'k \<times> heap) outcome" where
  "DB_Bootstrap D env rops Y indeterminate_id options k h =
     (let rlogOptions = (new_ReplicatedLogOptions indeterminate_id)
            \<lparr>opt_id := member_id options, heartbeat_interval := 100, election_timeout := 1000,
             initial_cluster := db_initial_cluster options\<rparr>;
          walOptions = new_WriteAheadLogOptions\<lparr>log_dir := wal_dir options\<rparr>
      in bind_outcome (WriteAheadLog_Default D env rops walOptions None k) (\<lambda>(s, memstore, wal, k).
           if s \<noteq> OK then Ret (Inl KvConsensusError, k, h)
           else
             case ReplicatedLog_New Y (mem_new D)
                    (rlogOptions\<lparr>opt_wal := map_option (\<lambda>m. (m, k)) wal, opt_memstore := memstore\<rparr>) h of
               (Inl e, h) \<Rightarrow> Ret (Inl KvConsensusError, k, h)
             | (Inr rlog, h) \<Rightarrow> Ret (Inr \<lparr>db_log = rlog, db_kv = new_Node\<rparr>, k, h)))"

subsection \<open>MemKVServiceImpl\<close>

text \<open>A request over HTTP carries its arguments in the path and the query.\<close>

record http_request =
  unresolved_path :: string
  query :: "string \<rightharpoonup> string"

datatype pb_ErrCode = Pb_OK | Pb_InvalidArgument | Pb_NodeNotExist | Pb_ConsensusError

fun memkvErrorToRpcErrno :: "memkv_ErrorCodes \<Rightarrow> pb_ErrCode" where
  "memkvErrorToRpcErrno KvOK = Pb_OK"
| "memkvErrorToRpcErrno KvInvalidArgument = Pb_InvalidArgument"
| "memkvErrorToRpcErrno KvNodeNotExist = Pb_NodeNotExist"
| "memkvErrorToRpcErrno KvConsensusError = Pb_ConsensusError"

text \<open>A response and whether its completion \<^verbatim>\<open>done\<close> has been run; an unset field is \<^const>\<open>None\<close>.\<close>

record rpc_response =
  errorcode :: "pb_ErrCode option"
  errormessage :: "string option"
  rsp_value :: "string option"
  done_run :: bool

definition new_response :: rpc_response where
  "new_response = \<lparr>errorcode = None, errormessage = None, rsp_value = None, done_run = False\<rparr>"

definition answer :: "(kv_status \<Rightarrow> string) \<Rightarrow> kv_status \<Rightarrow> rpc_response \<Rightarrow> rpc_response" where
  "answer ToString s response =
     (let response = response\<lparr>errorcode := Some (memkvErrorToRpcErrno s)\<rparr>;
          response = (if s \<noteq> KvOK then response\<lparr>errormessage := Some (ToString s)\<rparr> else response)
      in response\<lparr>done_run := True\<rparr>)"

definition Service_Write :: "'l replicated_log_api \<Rightarrow> kv_lib \<Rightarrow> (kv_status \<Rightarrow> string) \<Rightarrow> http_request option
    \<Rightarrow> string \<times> string \<Rightarrow> 'l DB \<Rightarrow> (rpc_response \<times> 'l DB) outcome option" where
  "Service_Write R L ToString http request db =
     (let write_db = (\<lambda>path value.
            map_option (\<lambda>r. bind_outcome r (\<lambda>(s, db). Ret (answer ToString s new_response, db))) (DB_Write R L path value db))
      in case http of
           Some cntl \<Rightarrow>
             (case query cntl ''value'' of
                None \<Rightarrow> Some (Undef NullDereference)
              | Some value \<Rightarrow> write_db (unresolved_path cntl) value)
         | None \<Rightarrow> write_db (fst request) (snd request))"

definition Service_Read :: "'l replicated_log_api \<Rightarrow> kv_lib \<Rightarrow> (kv_status \<Rightarrow> string) \<Rightarrow> http_request option
    \<Rightarrow> string \<times> bool \<Rightarrow> 'l DB \<Rightarrow> rpc_response" where
  "Service_Read R L ToString http request db =
     (let got = (case http of
            Some cntl \<Rightarrow> DB_Get R L (unresolved_path cntl) (query cntl ''stale'' \<noteq> None) db
          | None \<Rightarrow> DB_Get R L (fst request) (snd request) db);
          result = (case got of Inl e \<Rightarrow> [] | Inr d \<Rightarrow> d);
          s = (case got of Inl e \<Rightarrow> e | Inr d \<Rightarrow> KvOK)
      in answer ToString s (new_response\<lparr>rsp_value := Some result\<rparr>))"

text \<open>The handler of a delete request has an empty body.\<close>

definition Service_Delete :: "http_request option \<Rightarrow> string \<Rightarrow> 'l DB \<Rightarrow> rpc_response \<times> 'l DB" where
  "Service_Delete http request db = (new_response, db)"

subsection \<open>memkv_server\<close>

record flags =
  FLAGS_id :: u64
  FLAGS_wal_dir :: string
  FLAGS_server_count :: int
  FLAGS_memkv_log_dir :: string

definition default_flags :: flags where
  "default_flags = \<lparr>FLAGS_id = 1, FLAGS_wal_dir = [], FLAGS_server_count = 3, FLAGS_memkv_log_dir = []\<rparr>"

text \<open>\<open>fmt_int\<close> is the decimal form that \<^verbatim>\<open>fmt::format\<close> gives; the port is computed in an \<^verbatim>\<open>int\<close>.\<close>

function cluster_loop :: "(int \<Rightarrow> string) \<Rightarrow> int \<Rightarrow> int \<Rightarrow> (u64 \<times> string) list \<Rightarrow> (u64 \<times> string) list outcome" where
  "cluster_loop fmt_int server_count i cluster =
     (if i \<le> server_count then
        if 12320 + i < 2 ^ 31
        then cluster_loop fmt_int server_count (i + 1) (map_assign (word_of_int i) (''127.0.0.1:'' @ fmt_int (12320 + i)) cluster)
        else Undef Overflow
      else Ret cluster)"
  by auto
termination
  by (relation "measure (\<lambda>(f, n, i, c). nat (n + 1 - i))") auto

declare cluster_loop.simps [simp del]

definition server_options :: "(int \<Rightarrow> string) \<Rightarrow> flags \<Rightarrow> DBOptions outcome" where
  "server_options fmt_int flags =
     bind_outcome (cluster_loop fmt_int (FLAGS_server_count flags) 1 []) (\<lambda>cluster.
       Ret \<lparr>member_id = FLAGS_id flags, wal_dir = FLAGS_wal_dir flags, db_initial_cluster = cluster\<rparr>)"

text \<open>The address the server listens on: \<^verbatim>\<open>initial_cluster[FLAGS_id]\<close>, which adds an empty one when there is none.\<close>

definition listen_address :: "DBOptions \<Rightarrow> u64 \<Rightarrow> string" where
  "listen_address options ident =
     (case map_of (db_initial_cluster options) ident of None \<Rightarrow> [] | Some addr \<Rightarrow> addr)"

text \<open>Where the log messages go: into the directory, which is made, or to the standard error.\<close>

definition InitLogging :: "('f, 'r, 'k) Env \<Rightarrow> flags \<Rightarrow> 'k \<Rightarrow> (bool \<times> 'k) outcome" where
  "InitLogging env flags k =
     (if FLAGS_memkv_log_dir flags \<noteq> [] then
        case env_CreateDirIfMissing env (FLAGS_memkv_log_dir flags) k of (s, k) \<Rightarrow>
          if s \<noteq> OK then Fatal else Ret (False, k)
      else Ret (True, k))"

text \<open>
  The start of \<^verbatim>\<open>main\<close> up to the running server: the database and the address it is served on.
\<close>

definition server_main :: "('e, 'h, 'm) deps \<Rightarrow> ('f, 'r, 'k) Env \<Rightarrow> ('r, 'k) RandomAccessFile \<Rightarrow> ('n, 'msg, 'e, 'h, 'm) yaraft
    \<Rightarrow> (int \<Rightarrow> string) \<Rightarrow> u64 \<Rightarrow> flags \<Rightarrow> 'k \<Rightarrow> heap
    \<Rightarrow> (('n, 'msg, 'f LogManager \<times> 'k, 'm) ReplicatedLog DB \<times> string) outcome" where
  "server_main D env rops Y fmt_int indeterminate_id flags k h =
     bind_outcome (InitLogging env flags k) (\<lambda>(logtostderr, k).
     bind_outcome (server_options fmt_int flags) (\<lambda>options.
     bind_outcome (DB_Bootstrap D env rops Y indeterminate_id options k h) (\<lambda>(sw, k, h).
       case sw of
         Inl e \<Rightarrow> Fatal
       | Inr db \<Rightarrow> Ret (db, listen_address options (FLAGS_id flags)))))"

subsection \<open>The commands can be read back\<close>

text \<open>
  The code never reads a command of the log.  The format its comment gives determines a reader:
\<close>

definition string_of :: "bytes \<Rightarrow> string" where
  "string_of b = map (\<lambda>x. char_of (unat x)) b"

definition decode_command :: "bytes \<Rightarrow> (OpType \<times> string \<times> string) option" where
  "decode_command b =
     (case b of
        [] \<Rightarrow> None
      | t # b \<Rightarrow>
          (case GetLengthPrefixedSlice b of
             None \<Rightarrow> None
           | Some (path, b) \<Rightarrow>
               if t = 2 then (if b = [] then Some (kDelete, string_of path, []) else None)
               else if t = 1 then
                 (case GetLengthPrefixedSlice b of
                    Some (value, []) \<Rightarrow> Some (kWrite, string_of path, string_of value)
                  | _ \<Rightarrow> None)
               else None))"

lemma string_of_bytes_of [simp]: "string_of (bytes_of s) = s"
proof -
  have "(of_char c :: nat) < 256" for c by (rule nat_of_char_less_256)
  then have "unat (word_of_nat (of_char c) :: byte) = of_char c" for c by (simp add: unat_of_nat)
  then show ?thesis by (simp add: string_of_def bytes_of_def o_def)
qed

lemma length_bytes_of [simp]: "length (bytes_of s) = length s"
  by (simp add: bytes_of_def)

lemma PutLengthPrefixedSlice_append: "PutLengthPrefixedSlice dst v = dst @ PutLengthPrefixedSlice [] v"
  by (simp add: PutLengthPrefixedSlice_def PutVarint32_def)

definition short_strings :: "string \<Rightarrow> string \<Rightarrow> bool" where
  "short_strings path value = (length path < 2 ^ 32 \<and> length value < 2 ^ 32)"

lemma decode_LogEncode:
  assumes "short_strings path value"
  shows "decode_command (LogEncode type path value) = Some (type, path, if type = kWrite then value else [])"
proof -
  have p: "length (bytes_of path) < 2 ^ 32" and v: "length (bytes_of value) < 2 ^ 32"
    using assms by (simp_all add: short_strings_def)
  note dec = GetLengthPrefixedSlice_Put [OF p, of "[]"] GetLengthPrefixedSlice_Put [OF p, of "PutLengthPrefixedSlice [] (bytes_of value)"]
    GetLengthPrefixedSlice_Put [OF v, of "[]"]
  have "LogEncode type path value = op_byte type # PutLengthPrefixedSlice [] (bytes_of path) @
      (if type = kWrite then PutLengthPrefixedSlice [] (bytes_of value) else [])"
    unfolding LogEncode_def Let_def PutLengthPrefixedSlice_append [of "[op_byte type]"]
      PutLengthPrefixedSlice_append [of "[op_byte type] @ PutLengthPrefixedSlice [] (bytes_of path)"] by simp
  then show ?thesis using dec by (cases type) (simp_all add: decode_command_def)
qed

text \<open>What a reader of the log would do with a command.\<close>

definition apply_command :: "kv_lib \<Rightarrow> bytes \<Rightarrow> Node \<Rightarrow> Node" where
  "apply_command L b kv =
     (case decode_command b of
        Some (kWrite, path, value) \<Rightarrow> snd (Kv_Write L path value kv)
      | Some (kDelete, path, value) \<Rightarrow> snd (Kv_Delete L path kv)
      | None \<Rightarrow> kv)"

text \<open>
  A client's updates, one after the other, and the commands that the log acknowledged.
\<close>

datatype update = Put string string | Remove string

fun update_command :: "string \<Rightarrow> update \<Rightarrow> bytes" where
  "update_command nul (Put path value) = LogEncode kWrite path value"
| "update_command nul (Remove path) = LogEncode kDelete path nul"

fun update_ok :: "string \<Rightarrow> update \<Rightarrow> bool" where
  "update_ok nul (Put path value) = short_strings path value"
| "update_ok nul (Remove path) = short_strings path nul"

fun DB_update :: "'l replicated_log_api \<Rightarrow> kv_lib \<Rightarrow> string \<Rightarrow> update \<Rightarrow> 'l DB \<Rightarrow> (kv_status \<times> 'l DB) outcome option" where
  "DB_update R L nul (Put path value) db = DB_Write R L path value db"
| "DB_update R L nul (Remove path) db = DB_Delete R L (Ret nul) path db"

definition acknowledged :: "'l replicated_log_api \<Rightarrow> bytes \<Rightarrow> 'l \<Rightarrow> bool" where
  "acknowledged R b l = (case api_Write R b l of Some (Ret (s, l')) \<Rightarrow> s = OK | _ \<Rightarrow> False)"

fun run_updates :: "'l replicated_log_api \<Rightarrow> kv_lib \<Rightarrow> string \<Rightarrow> update list \<Rightarrow> 'l DB \<Rightarrow> (bytes list \<times> 'l DB) outcome option" where
  "run_updates R L nul [] db = Some (Ret ([], db))"
| "run_updates R L nul (u # us) db =
     (case DB_update R L nul u db of
        Some (Ret (s, db')) \<Rightarrow>
          map_option (\<lambda>r. bind_outcome r (\<lambda>(acked, db'').
              Ret ((if acknowledged R (update_command nul u) (db_log db) then [update_command nul u] else []) @ acked, db'')))
            (run_updates R L nul us db')
      | Some (Undef x) \<Rightarrow> Some (Undef x)
      | Some Fatal \<Rightarrow> Some Fatal
      | None \<Rightarrow> None)"

lemma log_then_Ret:
  assumes "log_then R b f db = Some (Ret (s, db'))"
  shows "if acknowledged R b (db_log db) then s = fst (f (db_kv db)) \<and> db_kv db' = snd (f (db_kv db))
    else s = KvConsensusError \<and> db_kv db' = db_kv db"
proof -
  from assms obtain st l where w: "api_Write R b (db_log db) = Some (Ret (st, l))" by (auto simp: log_then_def)
  obtain x kv where f: "f (db_kv db) = (x, kv)" by fastforce
  show ?thesis using assms by (auto simp: log_then_def acknowledged_def w f split: if_splits)
qed

lemma DB_update_Ret:
  assumes "DB_update R L nul u db = Some (Ret (s, db'))" "update_ok nul u"
  shows "if acknowledged R (update_command nul u) (db_log db) then db_kv db' = apply_command L (update_command nul u) (db_kv db)
    else s = KvConsensusError \<and> db_kv db' = db_kv db"
proof (cases u)
  case (Put path v)
  with assms log_then_Ret [of R "LogEncode kWrite path v" "Kv_Write L path v" db s db'] show ?thesis
    by (auto simp: DB_Write_def apply_command_def decode_LogEncode)
next
  case (Remove path)
  with assms log_then_Ret [of R "LogEncode kDelete path nul" "Kv_Delete L path" db s db'] show ?thesis
    by (auto simp: DB_Delete_def apply_command_def decode_LogEncode)
qed

text \<open>
  C7. The store is the log.  After any sequence of writes and deletes, whatever the replicated log
  answers to each of them, the store is what a reader gets who decodes the commands the log has
  acknowledged, in their order, and applies them to the store before.  A command that is not
  acknowledged is reported as an error and has no effect.
\<close>

theorem db_replays_log:
  assumes "run_updates R L nul us db = Some (Ret (acked, db'))" "\<forall>u \<in> set us. update_ok nul u"
  shows "db_kv db' = fold (apply_command L) acked (db_kv db)"
  using assms
proof (induction us arbitrary: db acked)
  case (Cons u us)
  from Cons.prems(1) obtain s db1 acked1 where
    1: "DB_update R L nul u db = Some (Ret (s, db1))" "run_updates R L nul us db1 = Some (Ret (acked1, db'))"
      "acked = (if acknowledged R (update_command nul u) (db_log db) then [update_command nul u] else []) @ acked1"
    by (auto split: option.splits outcome.splits)
  from Cons.IH [OF 1(2)] DB_update_Ret [OF 1(1)] Cons.prems(2) 1(3) show ?case by (simp split: if_splits)
qed simp

text \<open>
  A replicated log for examples: a list of commands, which acknowledges those shorter than ten
  bytes on a node that leads.
\<close>

definition example_api :: "(bool \<times> bytes list) replicated_log_api" where
  "example_api =
     \<lparr>api_Write = (\<lambda>b l. if \<not> fst l then Some (Ret (WalWriteToNonLeader, l))
        else if length b < 10 then Some (Ret (OK, (True, snd l @ [b]))) else Some (Ret (YARaftError, l))),
      api_LeaderHint = (\<lambda>l. if fst l then 1 else 2), api_Id = (\<lambda>l. 1)\<rparr>"

definition example_db :: "bool \<Rightarrow> (bool \<times> bytes list) DB" where
  "example_db leads = \<lparr>db_log = (leads, []), db_kv = new_Node\<rparr>"

lemma LogEncode_example:
  "LogEncode kWrite ''/a'' ''v'' = [1, 2, 47, 97, 1, 118]"
  "length (LogEncode kWrite ''/a'' ''0123456789'') = 15"
  by (simp_all add: LogEncode_def PutLengthPrefixedSlice_def PutVarint32_def EncodeVarint32_def bytes_of_def Let_def)

theorem db_replays_log_witness:
  "\<exists>db'. run_updates example_api example_lib [] [Put ''/a'' ''v'', Put ''/a'' ''0123456789''] (example_db True) =
       Some (Ret ([LogEncode kWrite ''/a'' ''v''], db')) \<and>
     db_kv db' = apply_command example_lib (LogEncode kWrite ''/a'' ''v'') new_Node"
proof -
  obtain db' where r: "run_updates example_api example_lib [] [Put ''/a'' ''v'', Put ''/a'' ''0123456789''] (example_db True) =
       Some (Ret ([LogEncode kWrite ''/a'' ''v''], db'))"
    by (simp add: DB_Write_def log_then_def acknowledged_def example_api_def example_db_def LogEncode_example Kv_Write_def example_path)
  from db_replays_log [OF r] have "db_kv db' = apply_command example_lib (LogEncode kWrite ''/a'' ''v'') new_Node"
    by (simp add: short_strings_def example_db_def)
  with r show ?thesis by blast
qed

subsection \<open>Clients of the database\<close>

text \<open>
  C36. Reads after a write.  When a write returns OK, the node that made it, if it is still the
  leader or the read allows stale data, reads the value back under every spelling of the path, and
  every path that is not a prefix of it reads as before.  When the log refuses the command, the
  write returns ConsensusError and reads are as before.  A read on a node that is not the leader
  is refused unless stale data are allowed.  An invalid path is rejected only after its command
  has been acknowledged by the log.
\<close>

theorem db_read_after_write:
  assumes "DB_Write R L path v db = Some (Ret (s, db'))" "kv_path L q = Some a"
    and "api_LeaderHint R (db_log db') = api_Id R (db_log db') \<or> stale"
  shows "(s = KvOK \<and> kv_path L path = Some b \<longrightarrow>
      (a = b \<longrightarrow> DB_Get R L q stale db' = Inr v) \<and> (\<not> prefix a b \<longrightarrow> DB_Get R L q stale db' = Kv_Get L q (db_kv db))) \<and>
    (s = KvConsensusError \<longrightarrow> DB_Get R L q stale db' = Kv_Get L q (db_kv db)) \<and>
    (s = KvInvalidArgument \<longrightarrow> acknowledged R (LogEncode kWrite path v) (db_log db) \<and> kv_path L path = None \<and>
      DB_Get R L q stale db' = Kv_Get L q (db_kv db)) \<and>
    (s \<in> {KvOK, KvConsensusError, KvInvalidArgument}) \<and>
    (api_LeaderHint R l \<noteq> api_Id R l \<longrightarrow> DB_Get R L q False \<lparr>db_log = l, db_kv = kv\<rparr> = Inl KvConsensusError)"
proof -
  have g: "DB_Get R L q stale db' = Kv_Get L q (db_kv db')" using assms(3) by (auto simp: DB_Get_def Let_def)
  note W = log_then_Ret [OF assms(1) [unfolded DB_Write_def]]
  obtain st kv' where kw: "Kv_Write L path v (db_kv db) = (st, kv')" by fastforce
  have refused: "DB_Get R L q False \<lparr>db_log = l, db_kv = kv\<rparr> = Inl KvConsensusError" if "api_LeaderHint R l \<noteq> api_Id R l"
    using that by (simp add: DB_Get_def)
  show ?thesis
  proof (cases "kv_path L path")
    case None
    with memkv.put_invalid [OF None, of v "db_kv db"] W g refused show ?thesis by (auto split: if_splits)
  next
    case (Some c)
    from memkv.get_put [OF Some assms(2) kw] memkv.put_valid [OF Some, of v "db_kv db"] kw W g refused Some show ?thesis
      by (auto split: if_splits)
  qed
qed

theorem db_read_after_write_witness:
  "\<exists>db'. DB_Write example_api example_lib ''/a/b'' ''v'' (example_db True) = Some (Ret (KvOK, db')) \<and>
     DB_Get example_api example_lib ''a//b/'' False db' = Inr ''v''"
proof -
  have len: "length (LogEncode kWrite ''/a/b'' ''v'') < 10"
    by (simp add: LogEncode_def PutLengthPrefixedSlice_def PutVarint32_def EncodeVarint32_def bytes_of_def Let_def)
  obtain n' where n': "Kv_Write example_lib ''/a/b'' ''v'' new_Node = (KvOK, n')"
    using memkv.put_valid [OF example_path(1), of "''v''" new_Node] by blast
  with len obtain db' where w: "DB_Write example_api example_lib ''/a/b'' ''v'' (example_db True) = Some (Ret (KvOK, db'))"
    and l: "api_LeaderHint example_api (db_log db') = api_Id example_api (db_log db')"
    by (simp add: DB_Write_def log_then_def example_api_def example_db_def)
  from db_read_after_write [OF w example_path(2), of False "[''a'', ''b'']"] l w show ?thesis
    by (simp add: example_path)
qed

subsection \<open>The service\<close>

text \<open>What a request asks for, sent as an RPC or over HTTP: an HTTP write may lack its value.\<close>

definition write_args :: "http_request option \<Rightarrow> string \<times> string \<Rightarrow> (string \<times> string) option" where
  "write_args http request =
     (case http of None \<Rightarrow> Some request | Some cntl \<Rightarrow> map_option (\<lambda>v. (unresolved_path cntl, v)) (query cntl ''value''))"

definition read_args :: "http_request option \<Rightarrow> string \<times> bool \<Rightarrow> string \<times> bool" where
  "read_args http request =
     (case http of None \<Rightarrow> request | Some cntl \<Rightarrow> (unresolved_path cntl, query cntl ''stale'' \<noteq> None))"

lemma Service_Write_args:
  "Service_Write R L ToString http request db =
     (case write_args http request of
        None \<Rightarrow> Some (Undef NullDereference)
      | Some (path, v) \<Rightarrow>
          map_option (\<lambda>r. bind_outcome r (\<lambda>(s, db). Ret (answer ToString s new_response, db))) (DB_Write R L path v db))"
  by (cases http) (auto simp: Service_Write_def write_args_def Let_def case_prod_beta split: option.split)

lemma Service_Read_args:
  "Service_Read R L ToString http request db =
     (case DB_Get R L (fst (read_args http request)) (snd (read_args http request)) db of
        Inl e \<Rightarrow> answer ToString e (new_response\<lparr>rsp_value := Some []\<rparr>)
      | Inr d \<Rightarrow> answer ToString KvOK (new_response\<lparr>rsp_value := Some d\<rparr>))"
  by (cases http) (auto simp: Service_Read_def read_args_def Let_def split: sum.split)

lemma answer_fields [simp]:
  "errorcode (answer ToString s rsp) = Some (memkvErrorToRpcErrno s)" "done_run (answer ToString s rsp)"
  "rsp_value (answer ToString s rsp) = rsp_value rsp"
  "errormessage (answer ToString s rsp) = (if s = KvOK then errormessage rsp else Some (ToString s))"
  by (simp_all add: answer_def Let_def)

lemma memkvErrorToRpcErrno_OK [simp]: "memkvErrorToRpcErrno s = Pb_OK \<longleftrightarrow> s = KvOK"
  by (cases s) simp_all

lemma DB_Write_store:
  assumes "DB_Write R L path v db = Some (Ret (s, db'))"
  shows "if s = KvOK then Kv_Write L path v (db_kv db) = (KvOK, db_kv db') else db_kv db' = db_kv db"
proof -
  obtain st kv where kw: "Kv_Write L path v (db_kv db) = (st, kv)" by fastforce
  moreover have "st = KvOK \<or> kv = db_kv db"
    using memkv.put_invalid [of L path v "db_kv db"] memkv.put_valid [of L path _ v "db_kv db"] kw by (cases "kv_path L path") auto
  ultimately show ?thesis using log_then_Ret [OF assms [unfolded DB_Write_def]] by (auto split: if_splits)
qed

text \<open>
  C37. Reading through the service what was written through it, each as an RPC or over HTTP.
  A write that comes back is completed and carries a message exactly when its code is not OK.  A
  read after it is completed.  On a node that is not the leader it is refused with
  ConsensusError and an empty value, unless the request asks for stale data, over HTTP by naming \<^verbatim>\<open>stale\<close>
  in its query with any value.  Otherwise, if the write was answered with OK, a path that names the same
  node reads the value that was written, with code OK and no message; and if the write was
  answered with an error, or the path is no prefix of the one written, the response is the one the
  store before the write gives.  An HTTP write whose query has no value dereferences a null
  pointer.
\<close>

theorem service_read_after_write:
  assumes "Service_Write R L ToString whttp wreq db = Some (Ret (wrsp, db'))" "write_args whttp wreq = Some (path, v)"
    and "read_args rhttp rreq = (q, stale)" "kv_path L q = Some a"
    and rrsp_def: "rrsp = Service_Read R L ToString rhttp rreq db'"
  shows "done_run wrsp \<and> (errormessage wrsp = None \<longleftrightarrow> errorcode wrsp = Some Pb_OK) \<and> done_run rrsp \<and>
    (api_LeaderHint R (db_log db') \<noteq> api_Id R (db_log db') \<and> \<not> stale \<longrightarrow>
      errorcode rrsp = Some Pb_ConsensusError \<and> rsp_value rrsp = Some []) \<and>
    (api_LeaderHint R (db_log db') = api_Id R (db_log db') \<or> stale \<longrightarrow>
      (errorcode wrsp = Some Pb_OK \<and> kv_path L path = Some a \<longrightarrow>
        errorcode rrsp = Some Pb_OK \<and> rsp_value rrsp = Some v \<and> errormessage rrsp = None) \<and>
      (errorcode wrsp \<noteq> Some Pb_OK \<or> (\<exists>b. kv_path L path = Some b \<and> \<not> prefix a b) \<longrightarrow>
        rrsp = Service_Read R L ToString None (q, True) db)) \<and>
    (query cntl ''value'' = None \<longrightarrow> Service_Write R L ToString (Some cntl) req db = Some (Undef NullDereference))"
proof -
  from assms(1,2) obtain s where w: "DB_Write R L path v db = Some (Ret (s, db'))" and wrsp: "wrsp = answer ToString s new_response"
    by (auto simp: Service_Write_args)
  have read: "rrsp = (case Kv_Get L q (db_kv db') of
      Inl e \<Rightarrow> answer ToString e (new_response\<lparr>rsp_value := Some []\<rparr>)
    | Inr d \<Rightarrow> answer ToString KvOK (new_response\<lparr>rsp_value := Some d\<rparr>))"
    if "api_LeaderHint R (db_log db') = api_Id R (db_log db') \<or> stale"
    using that unfolding rrsp_def Service_Read_args assms(3) by (auto simp: DB_Get_def Let_def)
  have old: "Service_Read R L ToString None (q, True) db = (case Kv_Get L q (db_kv db) of
      Inl e \<Rightarrow> answer ToString e (new_response\<lparr>rsp_value := Some []\<rparr>)
    | Inr d \<Rightarrow> answer ToString KvOK (new_response\<lparr>rsp_value := Some d\<rparr>))"
    unfolding Service_Read_args by (simp add: read_args_def DB_Get_def)
  have got: "(s = KvOK \<and> kv_path L path = Some a \<longrightarrow> Kv_Get L q (db_kv db') = Inr v) \<and>
    (s \<noteq> KvOK \<or> (\<exists>b. kv_path L path = Some b \<and> \<not> prefix a b) \<longrightarrow> Kv_Get L q (db_kv db') = Kv_Get L q (db_kv db))"
    using DB_Write_store [OF w] memkv.get_put [OF _ assms(4)] by (auto split: if_splits)
  have "done_run rrsp" unfolding rrsp_def Service_Read_args by (simp split: sum.split)
  moreover have "errorcode rrsp = Some Pb_ConsensusError \<and> rsp_value rrsp = Some []"
    if "api_LeaderHint R (db_log db') \<noteq> api_Id R (db_log db') \<and> \<not> stale"
    using that unfolding rrsp_def Service_Read_args assms(3) by (simp add: DB_Get_def)
  moreover have "query cntl ''value'' = None \<longrightarrow> Service_Write R L ToString (Some cntl) req db = Some (Undef NullDereference)"
    by (simp add: Service_Write_args write_args_def)
  ultimately show ?thesis using read old got by (simp add: wrsp new_response_def)
qed

text \<open>An example: a write by RPC and a stale read over HTTP with another spelling of the path.\<close>

theorem service_read_after_write_witness:
  "\<exists>wrsp db'. Service_Write example_api example_lib (\<lambda>_. ''refused'') None (''/a/b'', ''v'') (example_db True) = Some (Ret (wrsp, db')) \<and>
     errorcode wrsp = Some Pb_OK \<and>
     rsp_value (Service_Read example_api example_lib (\<lambda>_. ''refused'')
       (Some \<lparr>unresolved_path = ''a//b/'', query = [''stale'' \<mapsto> []]\<rparr>) ([], False) db') = Some ''v''"
proof -
  let ?c = "Some \<lparr>unresolved_path = ''a//b/'', query = [''stale'' \<mapsto> []]\<rparr>"
  have len: "length (LogEncode kWrite ''/a/b'' ''v'') < 10"
    by (simp add: LogEncode_def PutLengthPrefixedSlice_def PutVarint32_def EncodeVarint32_def bytes_of_def Let_def)
  obtain n' where n': "Kv_Write example_lib ''/a/b'' ''v'' new_Node = (KvOK, n')"
    using memkv.put_valid [OF example_path(1), of "''v''" new_Node] by blast
  have a: "write_args None (''/a/b'', ''v'') = Some (''/a/b'', ''v'')" "read_args ?c ([], False) = (''a//b/'', True)"
    by (simp_all add: write_args_def read_args_def)
  from n' len a(1) obtain wrsp db' where
    w: "Service_Write example_api example_lib (\<lambda>_. ''refused'') None (''/a/b'', ''v'') (example_db True) = Some (Ret (wrsp, db'))"
    "errorcode wrsp = Some Pb_OK"
    by (simp add: Service_Write_args DB_Write_def log_then_def example_api_def example_db_def)
  from service_read_after_write [OF w(1) a example_path(2) refl] w(2) have
    "rsp_value (Service_Read example_api example_lib (\<lambda>_. ''refused'') ?c ([], False) db') = Some ''v''"
    by (simp add: example_path)
  with w show ?thesis by blast
qed

text \<open>The handler of a delete request never completes it, so its client waits forever.\<close>

lemma Service_Delete_incomplete: "\<not> done_run (fst (Service_Delete http path db))"
  by (simp add: Service_Delete_def new_response_def)

subsection \<open>The configuration of the server\<close>

lemma cluster_loop_spec:
  assumes "1 \<le> i" "i \<le> n + 1" "n + 12320 < 2 ^ 31" "map_ok c"
  shows "\<exists>c'. cluster_loop fmt_int n i c = Ret c' \<and> map_ok c' \<and>
    (\<forall>x. map_of c' x = (if int (unat x) \<in> {i..n} then Some (''127.0.0.1:'' @ fmt_int (12320 + int (unat x))) else map_of c x))"
  using assms
proof (induction fmt_int n i c rule: cluster_loop.induct)
  case (1 fmt_int n i c)
  show ?case
  proof (cases "i \<le> n")
    case False
    with 1(3) show ?thesis by (subst cluster_loop.simps) (auto intro: 1(5))
  next
    case True
    let ?c = "map_assign (word_of_int i) (''127.0.0.1:'' @ fmt_int (12320 + i)) c"
    have "12320 + i < 2 ^ 31" using True 1(4) by simp
    from 1(1) [OF True this _ _ 1(4) map_assign_ok [OF 1(5)]] True 1(2) obtain c' where
      c': "cluster_loop fmt_int n (i + 1) ?c = Ret c'" "map_ok c'"
        "\<And>x. map_of c' x = (if int (unat x) \<in> {i + 1..n} then Some (''127.0.0.1:'' @ fmt_int (12320 + int (unat x))) else map_of ?c x)"
      by auto
    have w: "x = word_of_int i \<longleftrightarrow> int (unat x) = i" for x :: u64
    proof
      assume "x = word_of_int i"
      with True 1(2,4) show "int (unat x) = i" by (simp add: uint_word_of_int)
    next
      assume "int (unat x) = i"
      then show "x = word_of_int i" by auto
    qed
    have "map_of c' x = (if int (unat x) \<in> {i..n} then Some (''127.0.0.1:'' @ fmt_int (12320 + int (unat x))) else map_of c x)" for x
      using c'(3) [of x] w [of x] True by auto
    with c'(1,2) True \<open>12320 + i < 2 ^ 31\<close> show ?thesis by (subst cluster_loop.simps) simp
  qed
qed

text \<open>
  The configuration.  For a number of servers whose ports fit an \<^verbatim>\<open>int\<close> the cluster has exactly
  the members 1 to the number of servers, in order and once each, member i at the local address
  with port 12320 + i, and a member listens on its own address.  An id outside that range is not
  rejected: the server then listens on the empty address.
\<close>

lemma server_configuration:
  assumes "0 \<le> FLAGS_server_count flags" "FLAGS_server_count flags + 12320 < 2 ^ 31"
  shows "\<exists>options. server_options fmt_int flags = Ret options \<and> member_id options = FLAGS_id flags \<and>
    wal_dir options = FLAGS_wal_dir flags \<and> map_ok (db_initial_cluster options) \<and>
    int ` unat ` fst ` set (db_initial_cluster options) = {1..FLAGS_server_count flags} \<and>
    listen_address options ident =
      (if int (unat ident) \<in> {1..FLAGS_server_count flags} then ''127.0.0.1:'' @ fmt_int (12320 + int (unat ident)) else [])"
proof -
  let ?n = "FLAGS_server_count flags"
  from cluster_loop_spec [of 1 ?n "[]" fmt_int] assms obtain c where
    c: "cluster_loop fmt_int ?n 1 [] = Ret c" "map_ok c"
      "\<And>x. map_of c x = (if int (unat x) \<in> {1..?n} then Some (''127.0.0.1:'' @ fmt_int (12320 + int (unat x))) else None)"
    by (auto simp: map_ok_def)
  have dom: "fst ` set c = {x. int (unat x) \<in> {1..?n}}"
    unfolding dom_map_of_conv_image_fst [symmetric] by (auto simp: dom_def c(3) split: if_splits)
  have "k \<in> int ` unat ` {x :: u64. int (unat x) \<in> {1..?n}}" if "k \<in> {1..?n}" for k
  proof -
    have "int (unat (word_of_int k :: u64)) = k" using that assms(2) by (simp add: uint_word_of_int)
    with that show ?thesis by (metis (mono_tags, lifting) imageI mem_Collect_eq)
  qed
  then have "int ` unat ` fst ` set c = {1..?n}" unfolding dom by auto
  with c show ?thesis by (simp add: server_options_def listen_address_def)
qed

lemma server_configuration_example:
  "\<exists>options. server_options (\<lambda>i. if i = 12322 then ''12322'' else []) default_flags = Ret options \<and>
     int ` unat ` fst ` set (db_initial_cluster options) = {1..3} \<and> listen_address options 2 = ''127.0.0.1:12322''"
  using server_configuration [of default_flags "\<lambda>i. if i = 12322 then ''12322'' else []" 2]
  by (auto simp: default_flags_def)

lemma ReplicatedLog_New_fresh: "ReplicatedLog_New Y mem opts h = (Inr rl, h') \<Longrightarrow> fresh_impl (log_impl rl)"
  by (cases "New_components opts h") (auto simp: ReplicatedLog_New_def Let_def fresh_impl_def split: if_splits)

lemma DB_Bootstrap_Inr:
  assumes "DB_Bootstrap D env rops Y ind options k h = Ret (Inr db, k', h')"
  shows "db_kv db = new_Node \<and> fresh_impl (log_impl (db_log db))"
proof -
  from assms obtain opts h2 where N: "ReplicatedLog_New Y (mem_new D) opts h = (Inr (db_log db), h2)" "db_kv db = new_Node"
    unfolding DB_Bootstrap_def Let_def bind_outcome_eq_Ret
    by (elim exE conjE) (fastforce split: if_splits prod.splits sum.splits)
  with ReplicatedLog_New_fresh [OF N(1)] show ?thesis by simp
qed

text \<open>
  A server that has come up serves an empty store on a log without waiting writes, at the address
  its configuration has for it.
\<close>

lemma server_main_Ret:
  assumes "server_main D env rops Y fmt_int ind flags k h = Ret (db, addr)"
  shows "\<exists>options. server_options fmt_int flags = Ret options \<and> addr = listen_address options (FLAGS_id flags) \<and>
    db_kv db = new_Node \<and> fresh_impl (log_impl (db_log db))"
proof -
  from assms obtain k1 options sw k2 h2 where o: "server_options fmt_int flags = Ret options"
    and b: "DB_Bootstrap D env rops Y ind options k1 h = Ret (sw, k2, h2)"
    and c: "(case sw of Inl e \<Rightarrow> Fatal | Inr db \<Rightarrow> Ret (db, listen_address options (FLAGS_id flags))) = Ret (db, addr)"
    by (auto simp: server_main_def)
  from c have sw: "sw = Inr db" and a: "addr = listen_address options (FLAGS_id flags)" by (auto split: sum.splits)
  from DB_Bootstrap_Inr [OF b [unfolded sw]] o a show ?thesis by simp
qed

end
