(* ===== verification/Shutdown.thy ===== *)
theory Shutdown
  imports ReplicatedLog
begin

section \<open>Taking a replicated log down: raft_timer.cc, ready_flusher.cc, replicated_log_impl.h\<close>

text \<open>
  A replicated log with components of its own has three threads: the worker of its task queue,
  the timer and the flusher.  The timer and the flusher submit a task to the queue in every
  round and wait until it has run.  The destructor runs in a fourth thread and destroys the
  members in the reverse order of their declaration.  The steps of the four threads interleave.
  The model starts when \<^verbatim>\<open>New\<close> returns, with the node registered with the timer and the flusher; a
  round that found nothing registered came back to the test of its loop without submitting
  anything.  That a task which runs and a flush in progress come to an end is assumed here.
\<close>

datatype client = FlusherThread | TimerThread

text \<open>
  Where a client is: at the test of its loop, in a round before its task is submitted (the timer
  sleeps there), waiting for the task, doing the rest of the round (flushing the Ready it got),
  or gone.
\<close>

datatype client_at = ClientTest | ClientRound | ClientWaiting | ClientWorking | ClientExited

datatype node_task = GetReadyTask | TickTask | WriteTask

text \<open>Where the destructor of \<^verbatim>\<open>ReplicatedLogImpl\<close> is.\<close>

datatype destructor_at = NotCalled | JoiningFlusher | FlusherGone | JoiningTimer | TimerGone | ObserverGone | JoiningQueue | Destroyed

record 'q node_threads =
  nt_queue :: "('q, node_task) TaskQueue"
  nt_worker :: "client \<Rightarrow> BackgroundWorker"
  nt_at :: "client \<Rightarrow> client_at"
  nt_destructor :: destructor_at
  nt_observer_live :: bool

fun producer_of :: "client \<Rightarrow> nat" where
  "producer_of FlusherThread = 0"
| "producer_of TimerThread = 1"

fun round_task :: "client \<Rightarrow> node_task" where
  "round_task FlusherThread = GetReadyTask"
| "round_task TimerThread = TickTask"

text \<open>
  What the constructors call.  The flusher checks that its loop was started, the timer does not;
  its \<^verbatim>\<open>io_service_.run()\<close> has no handlers to run and returns at once.
\<close>

definition Flusher_Start :: "BackgroundWorker \<Rightarrow> BackgroundWorker outcome" where
  "Flusher_Start w = (case StartLoop True w of (s, w) \<Rightarrow> bind_outcome (FATAL_NOT_OK s) (\<lambda>_. Ret w))"

definition Timer_Start :: "BackgroundWorker \<Rightarrow> BackgroundWorker" where
  "Timer_Start w = snd (StartLoop True w)"

text \<open>What the destructors call, up to the join: the flag of the worker is set, which must succeed.\<close>

definition Stop_worker :: "BackgroundWorker \<Rightarrow> BackgroundWorker outcome" where
  "Stop_worker w = (case Stop_request w of (s, w) \<Rightarrow> bind_outcome (FATAL_NOT_OK s) (\<lambda>_. Ret w))"

definition Flusher_Stop :: "BackgroundWorker \<Rightarrow> BackgroundWorker outcome" where
  "Flusher_Stop worker = Stop_worker worker"

definition Timer_Stop :: "BackgroundWorker \<Rightarrow> BackgroundWorker outcome" where
  "Timer_Stop worker = Stop_worker worker"

definition TaskQueue_Stop :: "BackgroundWorker \<Rightarrow> BackgroundWorker outcome" where
  "TaskQueue_Stop worker = Stop_worker worker"

definition node_running :: "('q, node_task) task_queue_lib \<Rightarrow> 'q node_threads \<Rightarrow> bool" where
  "node_running Q s \<longleftrightarrow>
     nt_queue s = new_TaskQueue Q \<and> Flusher_Start new_BackgroundWorker = Ret (nt_worker s FlusherThread) \<and>
     Timer_Start new_BackgroundWorker = nt_worker s TimerThread \<and>
     nt_at s = (\<lambda>_. ClientTest) \<and> nt_destructor s = NotCalled \<and> nt_observer_live s"

text \<open>Every task that a thread has submitted has run.\<close>

definition all_ran :: "nat \<Rightarrow> ('q, 'a) TaskQueue \<Rightarrow> bool" where
  "all_ran p q \<longleftrightarrow> mset (filter (\<lambda>x. fst x = p) (tq_run q)) = mset (filter (\<lambda>x. fst x = p) (tq_sent q))"

text \<open>
  The steps.  Writers enqueue only as long as the destructor has not been called.  A client
  wakes when all it has submitted has run, since it submits one task at a time.
\<close>

inductive node_step :: "('q, node_task) task_queue_lib \<Rightarrow> 'q node_threads \<Rightarrow> 'q node_threads \<Rightarrow> bool" for Q where
  queue_runs: "tq_own Q (nt_queue s) q \<Longrightarrow> node_step Q s (s\<lparr>nt_queue := q\<rparr>)"
| writer: "nt_destructor s = NotCalled \<Longrightarrow> 2 \<le> p \<Longrightarrow> node_step Q s (s\<lparr>nt_queue := Enqueue Q p WriteTask (nt_queue s)\<rparr>)"
| client_tests: "nt_at s c = ClientTest \<Longrightarrow> \<not> bw_stopped (nt_worker s c) \<Longrightarrow>
    node_step Q s (s\<lparr>nt_at := (nt_at s)(c := ClientRound)\<rparr>)"
| client_submits: "nt_at s c = ClientRound \<Longrightarrow>
    node_step Q s (s\<lparr>nt_queue := Enqueue Q (producer_of c) (round_task c) (nt_queue s), nt_at := (nt_at s)(c := ClientWaiting)\<rparr>)"
| client_wakes: "nt_at s c = ClientWaiting \<Longrightarrow>
    all_ran (producer_of c) (nt_queue s) \<Longrightarrow>
    node_step Q s (s\<lparr>nt_at := (nt_at s)(c := ClientWorking)\<rparr>)"
| client_round_done: "nt_at s c = ClientWorking \<Longrightarrow> node_step Q s (s\<lparr>nt_at := (nt_at s)(c := ClientTest)\<rparr>)"
| client_exits: "nt_at s c = ClientTest \<Longrightarrow> bw_stopped (nt_worker s c) \<Longrightarrow>
    node_step Q s (s\<lparr>nt_at := (nt_at s)(c := ClientExited)\<rparr>)"
| stop_flusher: "nt_destructor s = NotCalled \<Longrightarrow> Flusher_Stop (nt_worker s FlusherThread) = Ret w \<Longrightarrow>
    node_step Q s (s\<lparr>nt_worker := (nt_worker s)(FlusherThread := w), nt_destructor := JoiningFlusher\<rparr>)"
| join_flusher: "nt_destructor s = JoiningFlusher \<Longrightarrow> nt_at s FlusherThread = ClientExited \<Longrightarrow>
    node_step Q s (s\<lparr>nt_worker := (nt_worker s)(FlusherThread := Stop_join (nt_worker s FlusherThread)),
      nt_destructor := FlusherGone\<rparr>)"
| stop_timer: "nt_destructor s = FlusherGone \<Longrightarrow> Timer_Stop (nt_worker s TimerThread) = Ret w \<Longrightarrow>
    node_step Q s (s\<lparr>nt_worker := (nt_worker s)(TimerThread := w), nt_destructor := JoiningTimer\<rparr>)"
| join_timer: "nt_destructor s = JoiningTimer \<Longrightarrow> nt_at s TimerThread = ClientExited \<Longrightarrow>
    node_step Q s (s\<lparr>nt_worker := (nt_worker s)(TimerThread := Stop_join (nt_worker s TimerThread)),
      nt_destructor := TimerGone\<rparr>)"
| free_observer: "nt_destructor s = TimerGone \<Longrightarrow>
    node_step Q s (s\<lparr>nt_observer_live := False, nt_destructor := ObserverGone\<rparr>)"
| stop_queue: "nt_destructor s = ObserverGone \<Longrightarrow> TaskQueue_Stop (tq_worker (nt_queue s)) = Ret w \<Longrightarrow>
    node_step Q s (s\<lparr>nt_queue := (nt_queue s)\<lparr>tq_worker := w\<rparr>, nt_destructor := JoiningQueue\<rparr>)"
| join_queue: "nt_destructor s = JoiningQueue \<Longrightarrow> tq_thread (nt_queue s) = Exited \<Longrightarrow>
    node_step Q s (s\<lparr>nt_queue := (nt_queue s)\<lparr>tq_worker := Stop_join (tq_worker (nt_queue s))\<rparr>, nt_destructor := Destroyed\<rparr>)"

abbreviation node_steps :: "('q, node_task) task_queue_lib \<Rightarrow> 'q node_threads \<Rightarrow> 'q node_threads \<Rightarrow> bool" where
  "node_steps Q \<equiv> (node_step Q)\<^sup>*\<^sup>*"

fun stage :: "destructor_at \<Rightarrow> nat" where
  "stage NotCalled = 0"
| "stage JoiningFlusher = 1"
| "stage FlusherGone = 2"
| "stage JoiningTimer = 3"
| "stage TimerGone = 4"
| "stage ObserverGone = 5"
| "stage JoiningQueue = 6"
| "stage Destroyed = 7"

text \<open>The invariant: which flags the destructor has set, and who is gone, at every stage.\<close>

definition worker_at :: "BackgroundWorker \<Rightarrow> nat \<Rightarrow> nat \<Rightarrow> bool" where
  "worker_at w n i \<longleftrightarrow> bw_stopped w = (i \<le> n) \<and> bw_joinable w = (n \<le> i)"

definition node_inv :: "('q \<Rightarrow> (nat \<times> node_task) multiset) \<Rightarrow> 'q node_threads \<Rightarrow> bool" where
  "node_inv items s \<longleftrightarrow>
     (let n = stage (nt_destructor s) in
      tq_inv (nt_queue s) \<and> tasks_kept items (nt_queue s) \<and>
      worker_at (nt_worker s FlusherThread) n 1 \<and> worker_at (nt_worker s TimerThread) n 3 \<and>
      worker_at (tq_worker (nt_queue s)) n 6 \<and> nt_observer_live s = (n < 5) \<and>
      (\<forall>c. nt_at s c = ClientExited \<longrightarrow> bw_stopped (nt_worker s c)) \<and>
      (2 \<le> n \<longrightarrow> nt_at s FlusherThread = ClientExited) \<and> (4 \<le> n \<longrightarrow> nt_at s TimerThread = ClientExited))"

lemma Start_new:
  "Flusher_Start new_BackgroundWorker = Ret \<lparr>bw_joinable = True, bw_stopped = False\<rparr>"
  "Timer_Start new_BackgroundWorker = \<lparr>bw_joinable = True, bw_stopped = False\<rparr>"
  by (simp_all add: Flusher_Start_def Timer_Start_def StartLoop_def new_BackgroundWorker_def)

lemma Stop_Ret:
  "Flusher_Stop w = Ret w' \<longleftrightarrow> bw_joinable w \<and> w' = w\<lparr>bw_stopped := True\<rparr>"
  "Timer_Stop w = Ret w' \<longleftrightarrow> bw_joinable w \<and> w' = w\<lparr>bw_stopped := True\<rparr>"
  "TaskQueue_Stop w = Ret w' \<longleftrightarrow> bw_joinable w \<and> w' = w\<lparr>bw_stopped := True\<rparr>"
  by (auto simp: Flusher_Stop_def Timer_Stop_def TaskQueue_Stop_def Stop_worker_def Stop_request_def FATAL_NOT_OK_def)

lemma node_inv_running:
  fixes s :: "'q node_threads"
  assumes "queue_law Q items" "node_running Q s"
  shows "node_inv items s"
proof -
  have w: "nt_worker s c = \<lparr>bw_joinable = True, bw_stopped = False\<rparr>" for c
    using assms by (cases c) (metis node_running_def Start_new outcome.inject)+
  have q: "tq_worker (new_TaskQueue Q :: ('q, node_task) TaskQueue) = \<lparr>bw_joinable = True, bw_stopped = False\<rparr>"
    by (simp add: new_TaskQueue_def StartLoop_def new_BackgroundWorker_def)
  show ?thesis using assms(2) tasks_kept_new [OF assms(1)] tq_inv_new w q by (simp add: node_running_def node_inv_def worker_at_def Let_def)
qed

lemma node_inv_queue:
  assumes "tq_step Q (nt_queue s) q" "queue_law Q items" "node_inv items s"
  shows "tq_inv q \<and> tasks_kept items q"
  using assms(3) tq_step_inv [OF assms(1)] tq_step_kept [OF assms(1) _ assms(2)] by (simp add: node_inv_def Let_def)

lemma node_step_inv:
  assumes "node_step Q s s'" "node_inv items s" "queue_law Q items"
  shows "node_inv items s'"
  using assms(1)
proof cases
  case (queue_runs q)
  then show ?thesis using assms(2) node_inv_queue [OF _ assms(3,2)] by (simp add: node_inv_def tq_own_def Let_def)
next
  case (writer p)
  then show ?thesis
    using assms(2) node_inv_queue [OF enqueue assms(3,2), of p WriteTask] by (simp add: node_inv_def Let_def Enqueue_def)
next
  case (client_submits c)
  then show ?thesis
    using assms(2) node_inv_queue [OF enqueue assms(3,2), of "producer_of c" "round_task c"]
    by (cases c) (auto simp: node_inv_def Let_def Enqueue_def)
next
  case (client_tests c)
  then show ?thesis using assms(2) by (cases c) (auto simp: node_inv_def Let_def)
next
  case (client_wakes c)
  then show ?thesis using assms(2) by (cases c) (auto simp: node_inv_def Let_def)
next
  case (client_round_done c)
  then show ?thesis using assms(2) by (cases c) (auto simp: node_inv_def Let_def)
next
  case (client_exits c)
  then show ?thesis using assms(2) by (auto simp: node_inv_def Let_def)
next
  case (stop_queue w)
  then show ?thesis
    using assms(2) by (auto simp: node_inv_def Let_def Stop_Ret worker_at_def tq_inv_def tasks_kept_def will_run_def)
next
  case join_queue
  then show ?thesis
    using assms(2) by (auto simp: node_inv_def Let_def Stop_join_def worker_at_def tq_inv_def tasks_kept_def will_run_def)
qed (use assms(2) in \<open>auto simp: node_inv_def Let_def Stop_Ret Stop_join_def worker_at_def\<close>)

lemma node_steps_inv: "node_steps Q s s' \<Longrightarrow> queue_law Q items \<Longrightarrow> node_inv items s \<Longrightarrow> node_inv items s'"
  by (induction rule: rtranclp_induct) (auto intro: node_step_inv)

lemma node_steps_queue: "tq_owns Q (nt_queue s) q \<Longrightarrow> node_steps Q s (s\<lparr>nt_queue := q\<rparr>)"
proof (induction rule: rtranclp_induct)
  case (step q1 q2)
  from queue_runs [of Q "s\<lparr>nt_queue := q1\<rparr>" q2] step(2) have "node_step Q (s\<lparr>nt_queue := q1\<rparr>) (s\<lparr>nt_queue := q2\<rparr>)" by simp
  with step(3) show ?case by (rule rtranclp.rtrancl_into_rtrancl)
qed simp

text \<open>A client that has been told to stop gets to the end of its loop while the queue is running.\<close>

lemma client_leaves:
  assumes "bw_stopped (nt_worker s c)" "nt_at s c = ClientTest \<or> nt_at s c = ClientWorking"
  shows "\<exists>s'. node_steps Q s s' \<and> nt_at s' c = ClientExited \<and> nt_destructor s' = nt_destructor s"
proof -
  let ?s1 = "s\<lparr>nt_at := (nt_at s)(c := ClientTest)\<rparr>" and ?s2 = "s\<lparr>nt_at := (nt_at s)(c := ClientExited)\<rparr>"
  have "?s1 = s" if "nt_at s c = ClientTest" using fun_upd_triv [of "nt_at s" c] that by simp
  then have "node_steps Q s ?s1" using assms(2) client_round_done [of s c] by (auto intro: r_into_rtranclp)
  moreover have "node_step Q ?s1 ?s2" using client_exits [of ?s1 c] assms(1) by simp
  ultimately show ?thesis by (intro exI [of _ ?s2]) (simp add: rtranclp.rtrancl_into_rtrancl)
qed

lemma client_wakes_up:
  assumes law: "queue_law Q items" and inv: "node_inv items s" and "nt_at s c = ClientWaiting" "\<not> bw_stopped (tq_worker (nt_queue s))"
  shows "\<exists>q. node_steps Q s (s\<lparr>nt_queue := q, nt_at := (nt_at s)(c := ClientWorking)\<rparr>)"
proof -
  have "tq_inv (nt_queue s)" "tasks_kept items (nt_queue s)" using inv by (simp_all add: node_inv_def Let_def)
  from task_queue_progress [OF law this assms(4)] obtain q where
    q: "tq_owns Q (nt_queue s) q" "mset (tq_run q) = mset (tq_sent (nt_queue s))" by blast
  then have "all_ran (producer_of c) q" using tq_owns_steps [OF q(1)] by (simp add: all_ran_def mset_filter)
  then have "node_step Q (s\<lparr>nt_queue := q\<rparr>) (s\<lparr>nt_queue := q, nt_at := (nt_at s)(c := ClientWorking)\<rparr>)"
    using client_wakes [of "s\<lparr>nt_queue := q\<rparr>" c Q] assms(3) by simp
  with node_steps_queue [OF q(1)] show ?thesis by (meson rtranclp.rtrancl_into_rtrancl)
qed

lemma client_finishes:
  assumes law: "queue_law Q items" and inv: "node_inv items s" and "bw_stopped (nt_worker s c)" "\<not> bw_stopped (tq_worker (nt_queue s))"
  shows "\<exists>s'. node_steps Q s s' \<and> nt_at s' c = ClientExited \<and> nt_destructor s' = nt_destructor s"
proof -
  have waiting: ?thesis if s1: "node_steps Q s s1" "nt_at s1 c = ClientWaiting" "nt_worker s1 = nt_worker s"
    "nt_destructor s1 = nt_destructor s" "tq_worker (nt_queue s1) = tq_worker (nt_queue s)" for s1
  proof -
    from client_wakes_up [OF law node_steps_inv [OF s1(1) law inv] s1(2)] assms(4) s1(5) obtain q where
      "node_steps Q s1 (s1\<lparr>nt_queue := q, nt_at := (nt_at s1)(c := ClientWorking)\<rparr>)" (is "node_steps Q s1 ?s2") by auto
    with s1(1) have s2: "node_steps Q s ?s2" by (rule rtranclp_trans)
    from client_leaves [of ?s2 c Q] assms(3) s1 obtain s' where
      "node_steps Q ?s2 s'" "nt_at s' c = ClientExited" "nt_destructor s' = nt_destructor s" by auto
    with rtranclp_trans [OF s2] show ?thesis by blast
  qed
  show ?thesis
  proof (cases "nt_at s c")
    case ClientRound
    let ?s1 = "s\<lparr>nt_queue := Enqueue Q (producer_of c) (round_task c) (nt_queue s), nt_at := (nt_at s)(c := ClientWaiting)\<rparr>"
    have "node_steps Q s ?s1" using client_submits [OF ClientRound] by blast
    then show ?thesis using waiting [of ?s1] by (simp add: Enqueue_def)
  next
    case ClientWaiting
    then show ?thesis using waiting [of s] by simp
  next
    case ClientExited
    then show ?thesis by (intro exI [of _ s]) simp
  qed (use client_leaves [OF assms(3)] in auto)
qed

lemma queue_finishes:
  assumes law: "queue_law Q items" and inv: "node_inv items s" and "bw_stopped (tq_worker (nt_queue s))"
  shows "\<exists>s'. node_steps Q s s' \<and> tq_thread (nt_queue s') = Exited \<and> nt_destructor s' = nt_destructor s"
proof (cases "tq_thread (nt_queue s) = Exited")
  case False
  have "tq_inv (nt_queue s)" using inv by (simp add: node_inv_def Let_def)
  from tq_reach_test [OF law this False] obtain q where q: "tq_owns Q (nt_queue s) q" "tq_thread q = AtTest" by blast
  with tq_owns_steps [OF q(1)] assms(3) have "tq_own Q q (q\<lparr>tq_thread := Exited\<rparr>)" by (simp add: tq_own_def loop_exit)
  with q(1) have "tq_owns Q (nt_queue s) (q\<lparr>tq_thread := Exited\<rparr>)" by (rule rtranclp.rtrancl_into_rtrancl)
  from node_steps_queue [OF this] show ?thesis by (intro exI [of _ "s\<lparr>nt_queue := q\<lparr>tq_thread := Exited\<rparr>\<rparr>"]) simp
qed auto

lemma destructor_advances:
  assumes law: "queue_law Q items" and inv: "node_inv items s" and "nt_destructor s \<noteq> Destroyed"
  shows "\<exists>s'. node_steps Q s s' \<and> stage (nt_destructor s') = Suc (stage (nt_destructor s))"
proof -
  note J = Stop_Ret worker_at_def node_inv_def Let_def
  have join: ?thesis if "nt_destructor s = d" "node_steps Q s s1" "node_step Q s1 s2" "stage (nt_destructor s2) = Suc (stage d)" for d s1 s2
    using that by (intro exI [of _ s2]) (auto intro: rtranclp.rtrancl_into_rtrancl)
  show ?thesis
  proof (cases "nt_destructor s")
    case NotCalled
    with inv show ?thesis by (intro join [OF NotCalled _ stop_flusher [OF NotCalled]]) (simp_all add: J)
  next
    case JoiningFlusher
    then obtain s1 where "node_steps Q s s1" "nt_at s1 FlusherThread = ClientExited" "nt_destructor s1 = JoiningFlusher"
      using client_finishes [OF law inv, of FlusherThread] inv by (auto simp: J)
    then show ?thesis by (intro join [OF JoiningFlusher _ join_flusher]) simp_all
  next
    case FlusherGone
    with inv show ?thesis by (intro join [OF FlusherGone _ stop_timer [OF FlusherGone]]) (simp_all add: J)
  next
    case JoiningTimer
    then obtain s1 where "node_steps Q s s1" "nt_at s1 TimerThread = ClientExited" "nt_destructor s1 = JoiningTimer"
      using client_finishes [OF law inv, of TimerThread] inv by (auto simp: J)
    then show ?thesis by (intro join [OF JoiningTimer _ join_timer]) simp_all
  next
    case TimerGone
    then show ?thesis by (intro join [OF TimerGone _ free_observer [OF TimerGone]]) simp_all
  next
    case ObserverGone
    with inv show ?thesis by (intro join [OF ObserverGone _ stop_queue [OF ObserverGone]]) (simp_all add: J)
  next
    case JoiningQueue
    then obtain s1 where "node_steps Q s s1" "tq_thread (nt_queue s1) = Exited" "nt_destructor s1 = JoiningQueue"
      using queue_finishes [OF law inv] inv by (auto simp: J)
    then show ?thesis by (intro join [OF JoiningQueue _ join_queue]) simp_all
  qed (use assms(3) in simp)
qed

lemma destructor_reaches_end: "queue_law Q items \<Longrightarrow> node_inv items s \<Longrightarrow> \<exists>s'. node_steps Q s s' \<and> nt_destructor s' = Destroyed"
proof (induction "7 - stage (nt_destructor s)" arbitrary: s)
  case 0
  then have "nt_destructor s = Destroyed" by (cases "nt_destructor s") auto
  then show ?case by blast
next
  case (Suc n)
  then have "nt_destructor s \<noteq> Destroyed" by auto
  from destructor_advances [OF Suc.prems this] obtain s1 where
    s1: "node_steps Q s s1" "stage (nt_destructor s1) = Suc (stage (nt_destructor s))" by blast
  with Suc.hyps(2) have "n = 7 - stage (nt_destructor s1)" by simp
  from Suc.hyps(1) [OF this Suc.prems(1) node_steps_inv [OF s1(1) Suc.prems]] s1(1) show ?case by (meson rtranclp_trans)
qed

subsection \<open>Properties\<close>

text \<open>
  C6. A replicated log can always be taken down.  From every state its four threads can reach,
  in whatever order they take their steps and in whatever order the queue gives out its tasks, there is a continuation in which the destructor
  returns: it cannot get stuck joining a thread that waits for a task.  What makes this so: by
  the time the queue is told to stop, the flusher and the timer have left their loops, so nobody
  waits for a task that will not be run; and when the destructor has returned no thread of the
  log is left, nor is one joinable.
\<close>

theorem shutdown_completes:
  assumes "queue_law Q items" "node_running Q s0" "node_steps Q s0 s"
  shows "(\<exists>s'. node_steps Q s s' \<and> nt_destructor s' = Destroyed) \<and>
    (bw_stopped (tq_worker (nt_queue s)) \<longrightarrow> (\<forall>c. nt_at s c = ClientExited)) \<and>
    (nt_destructor s = Destroyed \<longrightarrow> tq_thread (nt_queue s) = Exited \<and>
      (\<forall>c. delete_BackgroundWorker (nt_worker s c) = Ret ()) \<and> delete_BackgroundWorker (tq_worker (nt_queue s)) = Ret ())"
proof -
  have inv: "node_inv items s" using node_steps_inv [OF assms(3,1) node_inv_running [OF assms(1,2)]] .
  have client: "nt_at s c = ClientExited" if "6 \<le> stage (nt_destructor s)" for c
    using inv that by (cases c) (simp_all add: node_inv_def Let_def)
  have gone: "\<not> bw_joinable (nt_worker s c)" if "nt_destructor s = Destroyed" for c
    using inv that by (cases c) (simp_all add: node_inv_def Let_def worker_at_def)
  have queue: "bw_stopped (tq_worker (nt_queue s)) \<longrightarrow> 6 \<le> stage (nt_destructor s)"
    "nt_destructor s = Destroyed \<longrightarrow> \<not> bw_joinable (tq_worker (nt_queue s))" "tq_inv (nt_queue s)"
    using inv by (simp_all add: node_inv_def Let_def worker_at_def)
  show ?thesis
    using destructor_reaches_end [OF assms(1) inv] client gone queue tq_inv_thread [OF queue(3)] by (simp add: delete_BackgroundWorker_def)
qed

definition example_running :: "('q, node_task) task_queue_lib \<Rightarrow> 'q node_threads" where
  "example_running Q = \<lparr>nt_queue = new_TaskQueue Q, nt_worker = (\<lambda>_. \<lparr>bw_joinable = True, bw_stopped = False\<rparr>),
     nt_at = (\<lambda>_. ClientTest), nt_destructor = NotCalled, nt_observer_live = True\<rparr>"

lemma example_node_running: "node_running Q (example_running Q)"
  by (simp add: node_running_def example_running_def Start_new)

text \<open>The timer waits for its task when the destructor is called.\<close>

definition example_waiting :: "(nat \<times> node_task) list node_threads" where
  "example_waiting = (example_running list_queue)\<lparr>nt_queue := Enqueue list_queue 1 TickTask (new_TaskQueue list_queue),
     nt_at := (\<lambda>_. ClientTest)(TimerThread := ClientWaiting)\<rparr>"

lemma example_waiting_steps: "node_steps list_queue (example_running list_queue) example_waiting"
proof -
  let ?r = "example_running list_queue" and ?Q = "list_queue :: (_, node_task) task_queue_lib"
  let ?s = "?r\<lparr>nt_at := (nt_at ?r)(TimerThread := ClientRound)\<rparr>"
  have "node_step ?Q ?r ?s" using client_tests [of ?r TimerThread ?Q] by (simp add: example_running_def)
  moreover have "node_step ?Q ?s example_waiting"
    using client_submits [of ?s TimerThread ?Q] by (simp add: example_waiting_def example_running_def)
  ultimately show ?thesis by (meson rtranclp.rtrancl_refl rtranclp.rtrancl_into_rtrancl)
qed

theorem shutdown_completes_witness:
  "nt_at example_waiting TimerThread = ClientWaiting \<and> (\<exists>s'. node_steps list_queue example_waiting s' \<and> nt_destructor s' = Destroyed)"
  using shutdown_completes [OF list_queue_law example_node_running example_waiting_steps] by (simp add: example_waiting_def)

text \<open>
  C35. A write can find the commit observer gone, with every queue that keeps its promise.  The
  observer is destroyed before the queue is stopped: a write that was submitted before the
  destructor was called can be started by the queue when the observer it is going to register with
  no longer exists.
\<close>

theorem shutdown_write_after_observer:
  assumes "queue_law Q items"
  shows "\<exists>s0 s p. node_running Q s0 \<and> node_steps Q s0 s \<and> tq_current (nt_queue s) = Some (p, WriteTask) \<and> \<not> nt_observer_live s"
proof -
  let ?w = "\<lparr>bw_joinable = True, bw_stopped = True\<rparr>" and ?q = "Enqueue Q 2 WriteTask (new_TaskQueue Q)"
  let ?gone = "\<lparr>bw_joinable = False, bw_stopped = True\<rparr>"
  let ?s1 = "(example_running Q)\<lparr>nt_queue := ?q\<rparr>"
  let ?s2 = "?s1\<lparr>nt_worker := (nt_worker ?s1)(FlusherThread := ?w), nt_destructor := JoiningFlusher\<rparr>"
  let ?s3 = "?s2\<lparr>nt_at := (nt_at ?s2)(FlusherThread := ClientExited)\<rparr>"
  let ?s4 = "?s3\<lparr>nt_worker := (nt_worker ?s3)(FlusherThread := ?gone), nt_destructor := FlusherGone\<rparr>"
  let ?s5 = "?s4\<lparr>nt_worker := (nt_worker ?s4)(TimerThread := ?w), nt_destructor := JoiningTimer\<rparr>"
  let ?s6 = "?s5\<lparr>nt_at := (nt_at ?s5)(TimerThread := ClientExited)\<rparr>"
  let ?s7 = "?s6\<lparr>nt_worker := (nt_worker ?s6)(TimerThread := ?gone), nt_destructor := TimerGone\<rparr>"
  let ?s8 = "?s7\<lparr>nt_observer_live := False, nt_destructor := ObserverGone\<rparr>"
  have one: "items (tq_queue ?q) = {#(2, WriteTask)#}" using assms by (simp add: queue_law_def Enqueue_def new_TaskQueue_def)
  moreover obtain r c where "cq_dequeue Q (tq_queue ?q) r c" "r = None \<longleftrightarrow> items (tq_queue ?q) = {#}"
    using assms unfolding queue_law_def by blast
  moreover from this one queue_law_taken [OF assms] have "r = Some (2, WriteTask)" by (cases r) auto
  ultimately have d: "cq_dequeue Q (tq_queue ?q) (Some (2, WriteTask)) c" by simp
  let ?q1 = "?q\<lparr>tq_thread := Dequeuing\<rparr>"
  let ?q2 = "?q1\<lparr>tq_queue := c, tq_current := Some (2, WriteTask), tq_thread := Running\<rparr>"
  have "node_step Q (example_running Q) ?s1" using writer [of "example_running Q" 2 Q] by (simp add: example_running_def)
  moreover have "node_step Q ?s1 ?s2" using stop_flusher [of ?s1 ?w Q] by (simp add: example_running_def Stop_Ret)
  moreover have "node_step Q ?s2 ?s3" using client_exits [of ?s2 FlusherThread Q] by (simp add: example_running_def)
  moreover have "node_step Q ?s3 ?s4" using join_flusher [of ?s3 Q] by (simp add: example_running_def Stop_join_def)
  moreover have "node_step Q ?s4 ?s5" using stop_timer [of ?s4 ?w Q] by (simp add: example_running_def Stop_Ret)
  moreover have "node_step Q ?s5 ?s6" using client_exits [of ?s5 TimerThread Q] by (simp add: example_running_def)
  moreover have "node_step Q ?s6 ?s7" using join_timer [of ?s6 Q] by (simp add: example_running_def Stop_join_def)
  moreover have "node_step Q ?s7 ?s8" using free_observer [of ?s7 Q] by simp
  moreover have "node_step Q ?s8 (?s8\<lparr>nt_queue := ?q1\<rparr>)"
    using queue_runs [of Q ?s8 ?q1] loop_test [of ?q Q]
    by (simp add: tq_own_def Enqueue_def new_TaskQueue_def StartLoop_def new_BackgroundWorker_def)
  moreover have "node_step Q (?s8\<lparr>nt_queue := ?q1\<rparr>) (?s8\<lparr>nt_queue := ?q2\<rparr>)"
    using queue_runs [of Q "?s8\<lparr>nt_queue := ?q1\<rparr>" ?q2] dequeue [of ?q1 Q "(2, WriteTask)" c] d by (simp add: tq_own_def)
  ultimately have "node_steps Q (example_running Q) (?s8\<lparr>nt_queue := ?q2\<rparr>)"
    by (meson rtranclp.rtrancl_refl rtranclp.rtrancl_into_rtrancl)
  with example_node_running show ?thesis
    by (intro exI [of _ "example_running Q"] exI [of _ "?s8\<lparr>nt_queue := ?q2\<rparr>"] exI [of _ 2]) simp
qed

theorem shutdown_write_after_observer_witness:
  "\<exists>s0 s p. node_running list_queue s0 \<and> node_steps list_queue s0 s \<and> tq_current (nt_queue s) = Some (p, WriteTask) \<and> \<not> nt_observer_live s"
  by (rule shutdown_write_after_observer [OF list_queue_law])

end
