(* ===== verification/WalFaults.thy ===== *)
theory WalFaults
  imports WalRecovery
begin

section \<open>The write-ahead log when writes fail and processes restart\<close>

text \<open>
  The kernel may answer any call of \<^verbatim>\<open>open\<close> or \<^verbatim>\<open>write\<close> with an error or with a short transfer.
  What a failed \<^verbatim>\<open>LogManager::Write\<close> leaves in the directory is the log up to some entry of
  the vector, perhaps with a torn end; what \<^verbatim>\<open>Recover\<close> makes of it; and a log that is used by
  several processes one after the other.
\<close>

text \<open>
  The bytes of a segment whose complete batches are \<open>bs\<close> and that ends in the middle of a
  write: inside the magic, or inside a further batch.
\<close>

definition torn :: "('e, 'h, 'm) deps \<Rightarrow> 'e list list \<Rightarrow> bytes \<Rightarrow> bool" where
  "torn D bs x \<longleftrightarrow>
     (bs = [] \<and> strict_prefix x kLogSegmentHeaderMagic) \<or>
     (\<exists>es p. batch_ok D es \<and> p \<noteq> [] \<and> strict_prefix p (batch_bytes D (entries_data D es)) \<and> x = segment_bytes D bs @ p)"

text \<open>The files of a log whose last segment is torn: they would be in order but for its end.\<close>

definition torn_files :: "('e, 'h, 'm) deps \<Rightarrow> 'f LogManager \<Rightarrow> (string \<rightharpoonup> bytes) \<Rightarrow> 'e segments \<Rightarrow> bool" where
  "torn_files D m files segs \<longleftrightarrow>
     segs \<noteq> [] \<and>
     (\<exists>x files'. files = files'(seg_path D m segs (length segs - 1) \<mapsto> x) \<and> torn D (snd (last segs)) x \<and>
        lm_files_ok D m files' segs)"

lemma torn_files_cong: "lm_options m' = lm_options m \<Longrightarrow> torn_files D m' files segs = torn_files D m files segs"
  using lm_files_ok_cong [of m' m D] by (simp add: torn_files_def seg_path_def)

lemma ReadSegment_torn:
  assumes "torn D bs x" "\<forall>es \<in> set bs. batch_ok D es"
  shows "\<exists>seg. ReadSegment D x mem meta v = Ret (Corruption, seg) \<and> rs_memStore seg = fold (mem_Append D) (concat bs) mem"
  using assms(1) unfolding torn_def
proof (elim disjE exE conjE)
  assume "bs = []" "strict_prefix x kLogSegmentHeaderMagic"
  moreover from this(2) have "length x < length kLogSegmentHeaderMagic" by (rule prefix_length_less)
  ultimately show ?thesis by (simp add: ReadSegment_def ReadHeader_def checkRemain_def)
next
  fix es p
  assume es: "batch_ok D es" "p \<noteq> []" "strict_prefix p (batch_bytes D (entries_data D es))" "x = segment_bytes D bs @ p"
  from es(3) obtain q where "batch_bytes D (entries_data D es) = p @ q" "q \<noteq> []"
    by (auto simp: strict_prefix_def prefix_def)
  from ReadSegment_cut [OF assms(2) es(1) this(1) es(2) this(2)] show ?thesis by (simp add: es(4))
qed

subsection \<open>What a failed write leaves\<close>

context torn_file_system
begin

lemma Append_batch_torn:
  assumes "is_open (lw_file w) k" "\<forall>e \<in> set vec. small_entry D e" "lo \<le> hi" "hi \<le> length vec"
    "Append_batch D ops w vec lo hi None k = Ret (Inl e, w', k')"
  shows "\<exists>n p. strict_prefix p (batch_bytes D (entries_data D (take n (drop lo vec)))) \<and>
    view k' = (view k)(name (lw_file w) \<mapsto> content (lw_file w) k @ p)"
proof -
  define n where "n = fit_count D (lw_logSegmentSize w - wf_Size ops (lw_file w)) (take (hi - lo) (drop lo vec))"
  let ?b = "batch_bytes D (entries_data D (take n (drop lo vec)))"
  obtain s f k1 where a: "wf_Append ops (lw_file w) ?b k = (s, f, k1)" by (metis prod.exhaust)
  with assms(5) have "s \<noteq> OK" "k' = k1"
    by (simp_all add: Append_batch_None [OF assms(2-4) n_def] split: if_splits)
  with Append_torn [OF assms(1) a] show ?thesis by blast
qed

lemma round_torn_append:
  assumes inv: "lm_inv D is_open name view m k segs" "lm_current m = Some w"
    and vec: "\<forall>e \<in> set vec. entry_codec D e" "length (entries_data D vec) < 2 ^ 32" "lo \<le> length vec"
    and app: "LogWriter_Append D ops w vec lo (length vec) None k = Ret (Inl e, w', k')"
  shows "lm_files_ok D m (view k') segs \<or> torn_files D m (view k') segs"
proof -
  from inv have len: "length segs = Suc (length (lm_files m))" and op: "is_open (lw_file w) k" and
    w: "\<not> lw_empty w" "name (lw_file w) = seg_path D m segs (length segs - 1)"
    and ok: "lm_files_ok D m (view k) segs"
    by (auto simp: lm_inv_def)
  let ?p = "seg_path D m segs (length segs - 1)"
  have "segs \<noteq> []" using len by auto
  then have v: "view k ?p = Some (segment_bytes D (snd (last segs)))"
    using ok by (simp add: lm_files_ok_def last_conv_nth)
  then have cont: "content (lw_file w) k = segment_bytes D (snd (last segs))"
    using content_view [OF op] w(2) by simp
  have small: "\<forall>e \<in> set vec. small_entry D e" using vec(1) by (simp add: entry_codec_def)
  from app w(1) have "Append_batch D ops w vec lo (length vec) None k = Ret (Inl e, w', k')"
    by (simp add: LogWriter_Append_def)
  from Append_batch_torn [OF op small vec(3) order_refl this] obtain n p where
    p: "strict_prefix p (batch_bytes D (entries_data D (take n (drop lo vec))))"
      "view k' = (view k)(?p \<mapsto> segment_bytes D (snd (last segs)) @ p)" by (auto simp: w(2) cont)
  show ?thesis
  proof (cases "p = []")
    case True
    with p(2) v have "view k' = view k" by (simp add: fun_upd_idem)
    with ok show ?thesis by simp
  next
    case False
    with p(1) batch_ok_part [OF vec(1,2)] have "torn D (snd (last segs)) (segment_bytes D (snd (last segs)) @ p)"
      by (auto simp: torn_def)
    with p(2) ok \<open>segs \<noteq> []\<close> show ?thesis unfolding torn_files_def by blast
  qed
qed

text \<open>What a failed append to a new segment leaves in its file.\<close>

lemma New_append_torn:
  assumes f: "is_open f k" "content f k = []"
    and vec: "\<forall>e \<in> set vec. entry_codec D e" "length (entries_data D vec) < 2 ^ 32" "lo \<le> length vec"
    and app: "LogWriter_Append D ops (new_LogWriter f p sz) vec lo (length vec) None k = Ret (Inl e, w', k')"
  shows "\<exists>x. view k' = (view k)(name f \<mapsto> x) \<and> (x = segment_bytes D [] \<or> torn D [] x)"
proof -
  have small: "\<forall>e \<in> set vec. small_entry D e" using vec(1) by (simp add: entry_codec_def)
  obtain s f1 k2 where a: "wf_Append ops f kLogSegmentHeaderMagic k = (s, f1, k2)" by (metis prod.exhaust)
  show ?thesis
  proof (cases "s = OK")
    case False
    with app a have "k' = k2" by (simp add: LogWriter_Append_def new_LogWriter_def)
    with Append_torn [OF f(1) a False] f(2) show ?thesis by (auto simp: torn_def)
  next
    case True
    let ?w = "(new_LogWriter f p sz)\<lparr>lw_file := f1, lw_empty := False\<rparr>"
    from app a True have b: "Append_batch D ops ?w vec lo (length vec) None k2 = Ret (Inl e, w', k')"
      by (simp add: LogWriter_Append_def new_LogWriter_def)
    have f1: "is_open f1 k2" "content f1 k2 = kLogSegmentHeaderMagic" "name f1 = name f"
      "view k2 = (view k)(name f \<mapsto> kLogSegmentHeaderMagic)"
      using Append_OK [OF f(1)] Append_view [OF f(1)] a True f(2) by auto
    from Append_batch_torn [OF _ small vec(3) order_refl b] f1 obtain n x where
      x: "strict_prefix x (batch_bytes D (entries_data D (take n (drop lo vec))))"
        "view k' = (view k)(name f \<mapsto> segment_bytes D [] @ x)" by (auto simp: segment_bytes_def)
    with batch_ok_part [OF vec(1,2)] have "x = [] \<or> torn D [] (segment_bytes D [] @ x)" by (auto simp: torn_def)
    with x(2) show ?thesis by auto
  qed
qed

lemma round_torn_new:
  assumes inv: "lm_inv D is_open name view m k segs" "lm_current m = None"
    and vec: "\<forall>e \<in> set vec. entry_codec D e" "length (entries_data D vec) < 2 ^ 32" "lo \<le> length vec"
    and new: "LogWriter_New D env m k = (Inr w, k1)"
    and app: "LogWriter_Append D ops w vec lo (length vec) None k1 = Ret (Inl e, w', k')"
  shows "let segs' = segs @ [(lm_lastIndex m + 1, [])] in lm_files_ok D m (view k') segs' \<or> torn_files D m (view k') segs'"
proof -
  let ?start = "lm_lastIndex m + 1"
  let ?segs = "segs @ [(?start, [])]"
  define p where "p = segment_path D (log_dir (lm_options m)) (of_nat (length segs) + 1) ?start"
  have len: "length (lm_files m) = length segs" using inv by (simp add: lm_inv_def)
  from new obtain f where f: "env_NewWritableFile env p CREATE_NON_EXISTING False k = (Inr f, k1)"
    and w: "w = new_LogWriter f p (log_segment_size (lm_options m))"
    by (auto simp: LogWriter_New_def Let_def p_def len split: prod.splits sum.splits)
  have op: "is_open f k1" "content f k1 = []" "name f = p" "view k1 = (view k)(p \<mapsto> [])" "view k p = None"
    using New_OK [OF f] by auto
  let ?files = "(view k)(p \<mapsto> segment_bytes D [])"
  have ok: "lm_files_ok D m ?files ?segs"
    using inv(1) op(5) by (intro lm_files_ok_new [OF _ p_def]) (auto simp: lm_inv_def)
  have path: "seg_path D m ?segs (length ?segs - 1) = p" by (simp add: p_def seg_path_new)
  obtain x where x: "view k' = (view k)(p \<mapsto> x)" "x = segment_bytes D [] \<or> torn D [] x"
    using New_append_torn [OF op(1,2) vec app [unfolded w]] op(3,4) by auto
  from x(2) show ?thesis
  proof
    assume "x = segment_bytes D []"
    with ok x(1) show ?thesis by simp
  next
    assume "torn D [] x"
    with ok x(1) have "torn_files D m (view k') ?segs"
      unfolding torn_files_def path by (auto intro!: exI [of _ x] exI [of _ ?files])
    then show ?thesis by simp
  qed
qed

lemma round_torn:
  assumes inv: "lm_inv D is_open name view m k segs"
    and vec: "\<forall>e \<in> set vec. entry_codec D e" "length (entries_data D vec) < 2 ^ 32" "lo \<le> length vec"
    and w: "(case lm_current m of None \<Rightarrow> LogWriter_New D env m k | Some w \<Rightarrow> (Inr w, k)) = (Inr w, k1)"
    and app: "LogWriter_Append D ops w vec lo (length vec) None k1 = Ret (Inl e, w', k')"
  shows "\<exists>segs'. (lm_files_ok D m (view k') segs' \<or> torn_files D m (view k') segs') \<and>
    length segs' = Suc (length (lm_files m)) \<and> seg_entries segs' = seg_entries segs"
proof (cases "lm_current m")
  case None
  with w round_torn_new [OF inv None vec _ app] inv show ?thesis
    by (intro exI [of _ "segs @ [(lm_lastIndex m + 1, [])]"]) (simp add: Let_def lm_inv_def seg_entries_def)
next
  case (Some v)
  with w app round_torn_append [OF inv Some vec, of e w' k'] inv show ?thesis
    by (intro exI [of _ segs]) (simp add: lm_inv_def)
qed

lemma doWrite_torn:
  assumes "doWrite D env' ops' vec segStart hs m k = Some r"
    "env' = env" "ops' = ops" "hs = None" "lm_inv D is_open name view m k segs" "r = Ret (s, m', k')" "s \<noteq> OK"
    "\<forall>e \<in> set vec. entry_codec D e" "length (entries_data D vec) < 2 ^ 32" "segStart \<le> length vec"
  shows "\<exists>segs' n. (lm_files_ok D m' (view k') segs' \<or> torn_files D m' (view k') segs') \<and>
    lm_options m' = lm_options m \<and> length segs' = SegmentNum m' \<and>
    seg_entries segs' = seg_entries segs @ take n (drop segStart vec)"
  using assms(2-)
proof (induction D env' ops' vec segStart hs m k r arbitrary: segs rule: doWrite.raw_induct)
  case (1 doW D env' ops' vec lo hs m k r)
  note eqs = \<open>env' = env\<close> \<open>ops' = ops\<close> \<open>hs = None\<close> \<open>r = Ret (s, m', k')\<close>
  note vec = \<open>\<forall>e \<in> set vec. entry_codec D e\<close> \<open>length (entries_data D vec) < 2 ^ 32\<close> \<open>lo \<le> length vec\<close>
  note inv = \<open>lm_inv D is_open name view m k segs\<close>
  show ?case
  proof (cases "case lm_current m of None \<Rightarrow> LogWriter_New D env m k | Some w \<Rightarrow> (Inr w, k)" rule: pair_sum_cases)
    case (Inl e k1)
    with 1(2) eqs have m': "m' = m" "k' = k1" by auto
    from Inl have cur: "lm_current m = None" and new: "LogWriter_New D env m k = (Inl e, k1)"
      by (auto split: option.splits)
    from new have "view k1 = view k"
      by (auto simp: LogWriter_New_def Let_def dest: New_torn split: prod.splits sum.splits)
    with inv cur m' show ?thesis
      by (intro exI [of _ segs] exI [of _ 0]) (simp add: lm_inv_def SegmentNum_def)
  next
    case w: (Inr w k1)
    show ?thesis
    proof (cases "LogWriter_Append D ops w vec lo (length vec) None k1" rule: outcome_sum_cases)
      case (Inl e w' k2)
      with 1(2) eqs w have m': "m' = m\<lparr>lm_current := Some w'\<rparr>" "k' = k2" by auto
      from round_torn [OF inv vec w Inl] obtain segs' where
        "lm_files_ok D m (view k2) segs' \<or> torn_files D m (view k2) segs'"
        "length segs' = Suc (length (lm_files m))" "seg_entries segs' = seg_entries segs" by blast
      then show ?thesis
        using m' lm_files_ok_cong [of m' m D] torn_files_cong [of m' m D]
        by (intro exI [of _ segs'] exI [of _ 0]) (simp add: SegmentNum_def)
    next
      case app: (Inr it w' k2)
      let ?m = "m\<lparr>lm_current := Some w', lm_lastIndex := entry_index D (vec ! (it - 1))\<rparr>"
      from 1(2) eqs w app \<open>s \<noteq> OK\<close> obtain m1 k3 where fin: "finishCurrentWriter ops ?m k2 = Ret (m1, k3)"
        and rec: "doW D env ops vec it None m1 k3 = Some r"
        by (auto split: outcome.splits if_splits)
      from round_next [OF inv vec w app fin] obtain segs1 where
        S: "lm_inv D is_open name view m1 k3 segs1" "lm_options m1 = lm_options m" "lo \<le> it" "it \<le> length vec"
          "seg_entries segs1 = seg_entries segs @ take (it - lo) (drop lo vec)" by blast
      from 1(1) [OF rec refl refl refl S(1) eqs(4) \<open>s \<noteq> OK\<close> vec(1,2) S(4)] obtain segs2 n where
        R: "lm_files_ok D m' (view k') segs2 \<or> torn_files D m' (view k') segs2" "lm_options m' = lm_options m1"
        "length segs2 = SegmentNum m'" "seg_entries segs2 = seg_entries segs1 @ take n (drop it vec)" by blast
      have "take (it - lo + n) (drop lo vec) = take (it - lo) (drop lo vec) @ take n (drop it vec)"
        using S(3) by (simp only: take_add drop_drop le_add_diff_inverse2)
      with R S(2,5) show ?thesis by (intro exI [of _ segs2] exI [of _ "it - lo + n"]) simp
    qed (use 1(2) eqs w in auto)
  qed
qed (rule assms(1))

end

subsection \<open>Recovery of a torn log\<close>

lemma recover_segments_append:
  "recover_segments D env rops (xs @ ys) mem m k =
     bind_outcome (recover_segments D env rops xs mem m k) (\<lambda>(s, mem, m, k).
       if s \<noteq> OK then Ret (s, mem, m, k) else recover_segments D env rops ys mem m k)"
proof (induction xs arbitrary: mem m k)
  case (Cons x xs)
  obtain i s where x: "x = (i, s)" by (cases x)
  show ?case
    by (cases "ReadSegmentIntoMemoryStorage D env rops (segment_path D (log_dir (lm_options m)) i s) (Some mem)
          new_SegmentMetaData (verify_checksum (lm_options m)) k")
      (auto simp: x Let_def Cons.IH)
qed simp

lemma segs_list_snoc: "segs_list (segs @ [(start, bs)]) = segs_list segs @ [((of_nat (length segs) + 1, start), bs)]"
  by (auto simp: segs_list_def nth_append intro!: map_cong)

lemma recover_segments_torn:
  assumes law: "fs_size_law B" and quiet: "k_answers k = []"
    and old: "\<forall>i < length segs0. file_map k (segment_path D (log_dir opts) (of_nat i + 1) (fst (segs0 ! i))) =
      Some (segment_bytes D (snd (segs0 ! i)))" "\<forall>seg \<in> set (segs0 @ [(start, bs)]). \<forall>es \<in> set (snd seg). batch_ok D es"
    and torn: "file_map k (segment_path D (log_dir opts) (of_nat (length segs0) + 1) start) = Some x" "torn D bs x"
    and len: "\<forall>p c. file_map k p = Some c \<longrightarrow> length c < 2 ^ 64"
  shows "\<exists>m' k'. recover_segments D (PosixEnv B) (PosixRandomAccessFile_ops B) (map fst (segs_list (segs0 @ [(start, bs)])))
      (mem_new D) (new_LogManager opts) k =
    Ret (Corruption, fold (mem_Append D) (seg_entries (segs0 @ [(start, bs)])) (mem_new D), m', k') \<and>
    k_files k' = k_files k \<and> k_answers k' = []"
proof -
  let ?m = "new_LogManager opts :: PosixWritableFile LogManager" and ?xs = "segs_list segs0"
  let ?p = "segment_path D (log_dir opts) (of_nat (length segs0) + 1) start"
  have short: "length (segment_bytes D (snd (segs0 ! i))) < 2 ^ 64" if "i < length segs0" for i
    using old(1) that len by blast
  have "\<exists>k'. recover_segments D (PosixEnv B) (PosixRandomAccessFile_ops B) (map fst ?xs) (mem_new D) ?m k =
    Ret (OK, fold (mem_Append D) (concat (concat (map snd ?xs))) (mem_new D),
      ?m\<lparr>lm_files := lm_files ?m @ map (\<lambda>x. \<lparr>fileName = [], numEntries = length (concat (snd x))\<rparr>) ?xs\<rparr>, k') \<and>
    k_files k' = k_files k \<and> k_answers k' = []"
    using old short
    by (intro recover_segments_quiet [OF law quiet]) (auto simp: segs_list_def new_LogManager_def)
  then obtain m1 k1 where R: "recover_segments D (PosixEnv B) (PosixRandomAccessFile_ops B) (map fst ?xs) (mem_new D) ?m k =
      Ret (OK, fold (mem_Append D) (seg_entries segs0) (mem_new D), m1, k1)" "lm_options m1 = opts"
    "k_files k1 = k_files k" "k_answers k1 = []"
    by (auto simp: segs_list_entries new_LogManager_def)
  obtain k2 where k2: "ReadFullyToBuffer (PosixEnv B) (PosixRandomAccessFile_ops B) ?p k1 = Ret (Inr x, k2)"
    "k_files k2 = k_files k" "k_answers k2 = []"
    using ReadFullyToBuffer_quiet [OF law, of k1 ?p x] R(3,4) torn(1) len [rule_format, of ?p x] by auto
  have bs: "\<forall>es \<in> set bs. batch_ok D es" using old(2) by simp
  obtain seg where "ReadSegment D x (fold (mem_Append D) (seg_entries segs0) (mem_new D)) new_SegmentMetaData (verify_checksum opts) =
      Ret (Corruption, seg)" "rs_memStore seg = fold (mem_Append D) (concat bs) (fold (mem_Append D) (seg_entries segs0) (mem_new D))"
    using ReadSegment_torn [OF torn(2) bs] by blast
  with k2 R show ?thesis
    by (simp add: segs_list_snoc recover_segments_append ReadSegmentIntoMemoryStorage_def Let_def seg_entries_def)
qed

lemma Recover_torn:
  assumes law: "fs_size_law B" "fs_dir_law B (log_dir opts) k" "fmt_law D" and quiet: "k_answers k = []"
    and torn: "torn_files D m (file_map k) segs" "lm_options m = opts" "length segs < 2 ^ 64 - 1"
    and len: "\<forall>p c. file_map k p = Some c \<longrightarrow> length c < 2 ^ 64"
  shows "\<exists>lm k'. Recover D (PosixEnv B) (PosixRandomAccessFile_ops B) opts None k =
      Ret (Corruption, Some (fold (mem_Append D) (seg_entries segs) (mem_new D)), lm, k') \<and>
    k_files k' = k_files k \<and> k_answers k' = []"
proof -
  obtain segs0 start bs where segs: "segs = segs0 @ [(start, bs)]"
    using torn(1) by (cases segs rule: rev_cases) (auto simp: torn_files_def)
  define p where "p = segment_path D (log_dir opts) (of_nat (length segs0) + 1) start"
  have path: "seg_path D m segs (length segs - 1) = p" by (simp add: segs seg_path_new p_def torn(2))
  from torn(1) obtain x files where x: "file_map k = files(p \<mapsto> x)" "torn D bs x" and ok: "lm_files_ok D m files segs"
    unfolding torn_files_def path by (auto simp: segs)
  have fp: "files p = Some (segment_bytes D bs)"
    using ok by (auto simp: lm_files_ok_def segs p_def seg_path_def torn(2) [symmetric])
  have old: "\<forall>i < length segs0. file_map k (segment_path D (log_dir opts) (of_nat i + 1) (fst (segs0 ! i))) =
      Some (segment_bytes D (snd (segs0 ! i)))"
  proof (intro allI impI)
    fix i
    assume i: "i < length segs0"
    then have "seg_path D m segs i \<noteq> seg_path D m segs (length segs0)" "files (seg_path D m segs i) = Some (segment_bytes D (snd (segs ! i)))"
      using ok by (auto simp: lm_files_ok_def segs)
    then show "file_map k (segment_path D (log_dir opts) (of_nat i + 1) (fst (segs0 ! i))) = Some (segment_bytes D (snd (segs0 ! i)))"
      using x(1) i path by (simp add: segs seg_path_def nth_append torn(2))
  qed
  have oks: "\<forall>seg \<in> set (segs0 @ [(start, bs)]). \<forall>es \<in> set (snd seg). batch_ok D es" using ok by (simp add: lm_files_ok_def segs)
  have "file_map k p = Some x" using x(1) by simp
  note R = recover_segments_torn [OF law(1) quiet old oks this [unfolded p_def] x(2) len, folded segs]
  have "Recover D (PosixEnv B) (PosixRandomAccessFile_ops B) opts None k =
      bind_outcome (recover_segments D (PosixEnv B) (PosixRandomAccessFile_ops B) (map fst (segs_list segs)) (mem_new D)
        (new_LogManager opts) k) (\<lambda>(s, mem, m, k). Ret (s, Some mem, Some m, k))"
    using Recover_wals [OF law(2,3) _ _ torn(3)] ok x(1) fp by (simp add: lm_files_ok_def seg_path_def torn(2) segs)
  with R show ?thesis by auto
qed

text \<open>A log in order is recovered, and the manager it is recovered into goes on with it.\<close>

lemma Recover_ok:
  assumes law: "fs_size_law B" "fs_dir_law B (log_dir opts) k" "fmt_law D" and quiet: "k_answers k = []"
    and ok: "lm_files_ok D m (file_map k) segs" "lm_options m = opts" "length segs < 2 ^ 64 - 1"
    and len: "\<forall>p c. file_map k p = Some c \<longrightarrow> length c < 2 ^ 64"
  shows "\<exists>m' k'. Recover D (PosixEnv B) (PosixRandomAccessFile_ops B) opts None k =
      Ret (OK, if segs = [] then None else Some (fold (mem_Append D) (seg_entries segs) (mem_new D)), Some m', k') \<and>
    (\<forall>k''. file_map k'' = file_map k \<longrightarrow> posix_wal D m' k'' segs) \<and> lm_current m' = None \<and> lm_options m' = opts \<and>
    \<not> lm_empty m' \<and> k_files k' = k_files k \<and> k_answers k' = []"
proof (cases "segs = []")
  case True
  have "Recover D (PosixEnv B) (PosixRandomAccessFile_ops B) opts None k = Ret (OK, None, Some (new_LogManager opts), k)"
    using ok by (subst Recover_wals [OF law(2,3) _ _ ok(3)]) (simp_all add: True lm_files_ok_def)
  moreover have "posix_wal D (new_LogManager opts) k'' []" if "file_map k'' = file_map k" for k''
    using ok(1,2) True that by (intro fresh_wal) (simp add: lm_files_ok_def)
  ultimately show ?thesis using True quiet by (simp add: new_LogManager_def)
next
  case False
  have "length (segment_bytes D (snd seg)) < 2 ^ 64" if "seg \<in> set segs" for seg
  proof -
    from that obtain i where "i < length segs" "seg = segs ! i" by (auto simp: in_set_conv_nth)
    with ok(1) have "file_map k (seg_path D m segs i) = Some (segment_bytes D (snd seg))" by (simp add: lm_files_ok_def)
    with len show ?thesis by blast
  qed
  with Recover_segments [OF law quiet ok False] obtain m' k' where
    R: "Recover D (PosixEnv B) (PosixRandomAccessFile_ops B) opts None k =
      Ret (OK, Some (fold (mem_Append D) (seg_entries segs) (mem_new D)), Some m', k')" "lm_current m' = None"
      "lm_options m' = opts" "k_files k' = k_files k" "k_answers k' = []" "\<not> lm_empty m'"
      "map numEntries (lm_files m') = map (\<lambda>seg. length (concat (snd seg))) segs" by blast
  from arg_cong [OF R(7), of length] have "length (lm_files m') = length segs" by simp
  moreover have "lm_files_ok D m' (file_map k) segs" using ok(1,2) R(3) lm_files_ok_cong [of m' m D] by simp
  ultimately show ?thesis using R False by (auto simp: lm_inv_def)
qed

subsection \<open>The operations of the log\<close>

text \<open>
  The calls a client makes of a log, and a client that makes calls until one is not OK: the
  entries of the writes that returned OK, the entries of the call that failed, the last status.
\<close>

datatype 'e wal_call = CallWrite "'e list" | CallSync | CallClose | CallGC

fun make_call :: "('e, 'h, 'm) deps \<Rightarrow> ('f, 'r, 'k) Env \<Rightarrow> ('f, 'k) WritableFile \<Rightarrow> 'e wal_call
    \<Rightarrow> 'f LogManager \<Rightarrow> 'k \<Rightarrow> (ErrorCodes \<times> 'f LogManager \<times> 'k) outcome option" where
  "make_call D env ops (CallWrite vec) m k = Write_entries D env ops vec m k"
| "make_call D env ops CallSync m k = Some (Ret (LogManager_Sync ops m k))"
| "make_call D env ops CallClose m k = Some (LogManager_Close ops m k)"
| "make_call D env ops CallGC m k = (case LogManager_GC m of (s, m) \<Rightarrow> Some (Ret (s, m, k)))"

fun call_entries :: "'e wal_call \<Rightarrow> 'e list" where
  "call_entries (CallWrite vec) = vec"
| "call_entries _ = []"

text \<open>
  The calls of a process until one fails: the entries of the writes that returned OK, those of the
  call that failed, and the state then.  \<^const>\<open>None\<close> when a call does not come back: the process
  ends in it, it does not terminate, or its behaviour is undefined.
\<close>

fun try_calls :: "('e, 'h, 'm) deps \<Rightarrow> ('f, 'r, 'k) Env \<Rightarrow> ('f, 'k) WritableFile \<Rightarrow> 'e wal_call list
    \<Rightarrow> 'f LogManager \<Rightarrow> 'k \<Rightarrow> ('e list \<times> 'e list \<times> ErrorCodes \<times> 'f LogManager \<times> 'k) option" where
  "try_calls D env ops [] m k = Some ([], [], OK, m, k)"
| "try_calls D env ops (c # cs) m k =
     (case make_call D env ops c m k of
        Some (Ret (s, m, k)) \<Rightarrow>
          if s = OK then map_option (\<lambda>(acked, r). (call_entries c @ acked, r)) (try_calls D env ops cs m k)
          else Some ([], call_entries c, s, m, k)
      | _ \<Rightarrow> None)"

lemma try_calls_Cons:
  assumes "try_calls D env ops (c # cs) m k = Some (acked, failed, s, m', k')"
  obtains (Failed) "make_call D env ops c m k = Some (Ret (s, m', k'))" "s \<noteq> OK" "acked = []" "failed = call_entries c"
  | (Returned) m1 k1 acked1 where "make_call D env ops c m k = Some (Ret (OK, m1, k1))"
      "try_calls D env ops cs m1 k1 = Some (acked1, failed, s, m', k')" "acked = call_entries c @ acked1"
  using assms by (auto split: option.splits outcome.splits if_splits)

lemma calls_of_writes:
  "run_writes D env ops batches m k = Some (m', k') \<longleftrightarrow>
   try_calls D env ops (map CallWrite batches) m k = Some (concat batches, [], OK, m', k')"
proof (induction batches arbitrary: m k)
  case (Cons es batches)
  show ?case
    using Cons by (cases "Write_entries D env ops es m k") (auto split: outcome.splits)
qed auto

context file_system
begin

lemma Sync_inv:
  assumes "lm_inv D is_open name view m k segs" "LogManager_Sync ops m k = (s, m', k')"
  shows "lm_inv D is_open name view m' k' segs \<and> lm_options m' = lm_options m"
proof (cases "lm_current m")
  case None
  with assms show ?thesis by (simp add: LogManager_Sync_def)
next
  case (Some w)
  then have op: "is_open (lw_file w) k" using assms(1) by (simp add: lm_inv_def)
  obtain f where f: "wf_Sync ops (lw_file w) k = (s, f, k')" "m' = m\<lparr>lm_current := Some (w\<lparr>lw_file := f\<rparr>)\<rparr>"
    using assms(2) Some by (auto simp: LogManager_Sync_def LogWriter_Sync_def split: prod.splits)
  with Sync_OK [OF op f(1)] Sync_view [OF op f(1)] assms(1) Some lm_files_ok_cong [of m' m D] show ?thesis
    by (simp add: lm_inv_def seg_path_def)
qed

lemma Close_inv:
  assumes "lm_inv D is_open name view m k segs" "LogManager_Close ops m k = Ret (s, m', k')"
  shows "lm_inv D is_open name view m' k' segs \<and> lm_options m' = lm_options m"
proof (cases "lm_current m")
  case None
  with assms show ?thesis by (simp add: LogManager_Close_def)
next
  case (Some w)
  with assms(2) have "finishCurrentWriter ops m k = Ret (m', k')"
    by (cases "finishCurrentWriter ops m k") (auto simp: LogManager_Close_def)
  from finish_inv [OF assms(1) this] show ?thesis by blast
qed

lemma delete_keeps_log:
  assumes "lm_inv D is_open name view m k segs" "delete_LogManager ops m k = Ret k'"
  shows "lm_files_ok D m (view k') segs"
proof -
  obtain s m' where "LogManager_Close ops m k = Ret (s, m', k')"
    using assms(2) by (cases "LogManager_Close ops m k") (auto simp: delete_LogManager_def)
  from Close_inv [OF assms(1) this] lm_files_ok_cong [of m' m D] show ?thesis by (simp add: lm_inv_def)
qed

end

lemma Posix_call_OK:
  assumes "make_call D (PosixEnv B) (PosixWritableFile_ops ok_bool) c m k = Some (Ret (OK, m', k'))" "posix_wal D m k segs"
    "batch_ok D (call_entries c)"
  shows "\<exists>segs'. posix_wal D m' k' segs' \<and> lm_options m' = lm_options m \<and> seg_entries segs' = seg_entries segs @ call_entries c"
proof (cases c)
  case (CallWrite vec)
  with assms Posix_Write_OK [of D B ok_bool vec m k m' k' segs] show ?thesis by simp
next
  case CallSync
  with assms posix.Sync_inv [OF assms(2), of ok_bool OK m' k'] show ?thesis by (intro exI [of _ segs]) simp
next
  case CallClose
  with assms posix.Close_inv [OF assms(2), of ok_bool OK m' k'] show ?thesis by (intro exI [of _ segs]) simp
next
  case CallGC
  with assms show ?thesis by (intro exI [of _ segs]) (simp add: LogManager_GC_def)
qed

lemma Posix_Write_torn:
  assumes "Posix_Write D B ok_bool vec m k = Some (Ret (s, m', k'))" "posix_wal D m k segs" "batch_ok D vec" "s \<noteq> OK"
  shows "\<exists>segs' n. (lm_files_ok D m' (file_map k') segs' \<or> torn_files D m' (file_map k') segs') \<and>
    lm_options m' = lm_options m \<and> length segs' = SegmentNum m' \<and> seg_entries segs' = seg_entries segs @ take n vec"
proof (cases "vec = []")
  case True
  with assms show ?thesis by (simp add: Write_entries_def LogManager_Write_def)
next
  case False
  let ?ops = "PosixWritableFile_ops ok_bool"
  obtain l b where "Posix_Write D B ok_bool vec m k = doWrite D (PosixEnv B) ?ops vec 0 None (m\<lparr>lm_lastIndex := l, lm_empty := b\<rparr>) k"
    using Write_entries_doWrite [OF False, of D "PosixEnv B" ?ops m k] by blast
  with assms(1) have w: "doWrite D (PosixEnv B) ?ops vec 0 None (m\<lparr>lm_lastIndex := l, lm_empty := b\<rparr>) k = Some (Ret (s, m', k'))"
    by simp
  from posix_torn.doWrite_torn [OF w refl refl refl _ refl assms(4), of segs] assms(2,3) show ?thesis
    by (simp add: lm_inv_lastIndex batch_ok_def)
qed

lemma Posix_call_failed:
  assumes "make_call D (PosixEnv B) (PosixWritableFile_ops ok_bool) c m k = Some (Ret (s, m', k'))" "posix_wal D m k segs"
    "batch_ok D (call_entries c)" "s \<noteq> OK"
  shows "\<exists>segs' n. (lm_files_ok D m' (file_map k') segs' \<or> call_entries c \<noteq> [] \<and> torn_files D m' (file_map k') segs') \<and>
    lm_options m' = lm_options m \<and> length segs' = SegmentNum m' \<and> seg_entries segs' = seg_entries segs @ take n (call_entries c)"
proof -
  have kept: ?thesis if "posix_wal D m' k' segs" "lm_options m' = lm_options m"
    using that SegmentNum_segs [OF that(1)] by (intro exI [of _ segs] exI [of _ 0]) (simp add: lm_inv_def)
  show ?thesis
  proof (cases c)
    case (CallWrite vec)
    moreover have "vec \<noteq> []" using assms(1,4) CallWrite by (auto simp: Write_entries_def LogManager_Write_def)
    ultimately show ?thesis using assms Posix_Write_torn [of D B ok_bool vec m k s m' k' segs] by simp
  next
    case CallSync
    with assms(1) posix.Sync_inv [OF assms(2), of ok_bool s m' k'] kept show ?thesis by simp
  next
    case CallClose
    with assms(1) posix.Close_inv [OF assms(2), of ok_bool s m' k'] kept show ?thesis by simp
  next
    case CallGC
    with assms(1,4) show ?thesis by (simp add: LogManager_GC_def)
  qed
qed

lemma try_calls_OK:
  "try_calls D (PosixEnv B) (PosixWritableFile_ops ok_bool) cs m k = Some (acked, failed, OK, m', k') \<Longrightarrow>
   posix_wal D m k segs \<Longrightarrow> \<forall>c \<in> set cs. batch_ok D (call_entries c) \<Longrightarrow>
   failed = [] \<and> acked = concat (map call_entries cs) \<and>
   (\<exists>segs'. posix_wal D m' k' segs' \<and> lm_options m' = lm_options m \<and> seg_entries segs' = seg_entries segs @ acked)"
proof (induction cs arbitrary: m k segs acked)
  case (Cons c cs)
  from Cons.prems(1) show ?case
  proof (cases rule: try_calls_Cons)
    case (Returned m1 k1 acked1)
    from Posix_call_OK [OF Returned(1) Cons.prems(2)] Cons.prems(3) obtain segs1 where
      "posix_wal D m1 k1 segs1" "lm_options m1 = lm_options m" "seg_entries segs1 = seg_entries segs @ call_entries c" by auto
    with Cons.IH [OF Returned(2)] Cons.prems(3) Returned(3) show ?thesis by fastforce
  qed simp
qed auto

lemma try_calls_files:
  "try_calls D (PosixEnv B) (PosixWritableFile_ops ok_bool) cs m k = Some (acked, failed, s, m', k') \<Longrightarrow>
   posix_wal D m k segs \<Longrightarrow> \<forall>c \<in> set cs. batch_ok D (call_entries c) \<Longrightarrow>
   \<exists>segs' n. (lm_files_ok D m' (file_map k') segs' \<or> s \<noteq> OK \<and> failed \<noteq> [] \<and> torn_files D m' (file_map k') segs') \<and>
     lm_options m' = lm_options m \<and> length segs' = SegmentNum m' \<and>
     seg_entries segs' = seg_entries segs @ acked @ take n failed"
proof (induction cs arbitrary: m k segs acked)
  case Nil
  then show ?case
    using SegmentNum_segs [OF Nil.prems(2)] by (intro exI [of _ segs]) (simp add: lm_inv_def)
next
  case (Cons c cs)
  from Cons.prems(1) show ?case
  proof (cases rule: try_calls_Cons)
    case Failed
    with Posix_call_failed [OF Failed(1) Cons.prems(2) _ Failed(2)] Cons.prems(3) show ?thesis by auto
  next
    case (Returned m1 k1 acked1)
    from Posix_call_OK [OF Returned(1) Cons.prems(2)] Cons.prems(3) obtain segs1 where
      S: "posix_wal D m1 k1 segs1" "lm_options m1 = lm_options m" "seg_entries segs1 = seg_entries segs @ call_entries c" by auto
    from Cons.IH [OF Returned(2) S(1)] Cons.prems(3) S Returned(3) show ?thesis by simp
  qed
qed

text \<open>What the next process recovers from files in order, or torn at the end.\<close>

lemma Recover_files:
  assumes law: "fs_size_law B" "fs_dir_law B (log_dir opts) k" "fmt_law D" and quiet: "k_answers k = []"
    and files: "lm_files_ok D m (file_map k) segs \<or> torn_files D m (file_map k) segs" "lm_options m = opts" "length segs < 2 ^ 64 - 1"
    and len: "\<forall>p c. file_map k p = Some c \<longrightarrow> length c < 2 ^ 64"
  shows "\<exists>st mem lm k'. Recover D (PosixEnv B) (PosixRandomAccessFile_ops B) opts None k = Ret (st, mem, lm, k') \<and>
    (if lm_files_ok D m (file_map k) segs then st = OK \<and> lm \<noteq> None else st = Corruption) \<and>
    (mem = Some (fold (mem_Append D) (seg_entries segs) (mem_new D)) \<or> mem = None \<and> seg_entries segs = [])"
proof (cases "lm_files_ok D m (file_map k) segs")
  case True
  from Recover_ok [OF law quiet True files(2,3) len] True show ?thesis by (fastforce simp: seg_entries_def)
next
  case False
  with files(1) have "torn_files D m (file_map k) segs" by simp
  from Recover_torn [OF law quiet this files(2,3) len] False show ?thesis by fastforce
qed

subsection \<open>Properties\<close>

text \<open>
  C1. No acknowledged entry is lost and none is invented, whatever the kernel answers.  A
  process writes, syncs and closes a log until a call fails or all have returned OK, and ends;
  the calls it makes of the kernel may have failed or been cut short at any point.  A process
  that starts later on the same files recovers the log that was there before, followed by all
  entries of the writes that returned OK, followed by some first entries of the write that
  failed, and nothing else.  If the failed write has left a torn batch or magic, \<^verbatim>\<open>Recover\<close>
  reports Corruption (and has still read those entries); if every call was OK, so is the recovery.
  Processes that a call ends (a segment that cannot be closed, undefined behaviour) are not covered.
\<close>

theorem wal_crash_safe:
  assumes laws: "fs_size_law B" "fmt_law D" "fs_dir_law B (log_dir (lm_options m)) k2"
    and start: "posix_wal D m k segs"
    and run: "try_calls D (PosixEnv B) (PosixWritableFile_ops ok_bool) calls m k = Some (acked, failed, s, m', k')"
    and calls: "\<forall>c \<in> set calls. batch_ok D (call_entries c)"
    and later: "file_map k2 = file_map k'" "k_answers k2 = []"
    and sizes: "SegmentNum m' < 2 ^ 64 - 1" "\<forall>p c. file_map k2 p = Some c \<longrightarrow> length c < 2 ^ 64"
  shows "\<exists>st mem lm k3 n. Recover D (PosixEnv B) (PosixRandomAccessFile_ops B) (lm_options m) None k2 = Ret (st, mem, lm, k3) \<and>
    (st = OK \<or> st = Corruption \<and> s \<noteq> OK) \<and>
    (let log = seg_entries segs @ acked @ take n failed
     in mem = Some (fold (mem_Append D) log (mem_new D)) \<or> mem = None \<and> log = [])"
proof -
  from try_calls_files [OF run start calls] obtain segs' n where
    S: "lm_files_ok D m' (file_map k2) segs' \<or> s \<noteq> OK \<and> torn_files D m' (file_map k2) segs'" "lm_options m' = lm_options m"
      "length segs' = SegmentNum m'" and log: "seg_entries segs' = seg_entries segs @ acked @ take n failed"
    unfolding later(1) by blast
  have len: "length segs' < 2 ^ 64 - 1" using S(3) sizes(1) by simp
  from S(1) have "lm_files_ok D m' (file_map k2) segs' \<or> torn_files D m' (file_map k2) segs'" by blast
  from Recover_files [OF laws(1,3,2) later(2) this S(2) len sizes(2)] obtain st mem lm k3 where
    R: "Recover D (PosixEnv B) (PosixRandomAccessFile_ops B) (lm_options m) None k2 = Ret (st, mem, lm, k3)"
      "if lm_files_ok D m' (file_map k2) segs' then st = OK \<and> lm \<noteq> None else st = Corruption"
      "mem = Some (fold (mem_Append D) (seg_entries segs') (mem_new D)) \<or> mem = None \<and> seg_entries segs' = []" by blast
  from R(2) S(1) have "st = OK \<or> st = Corruption \<and> s \<noteq> OK" by (auto split: if_splits)
  with R(1,3) show ?thesis unfolding Let_def log by blast
qed

text \<open>An example: a segment with room for a batch, on a disk that is full after three more bytes.\<close>

definition example_room :: "PosixWritableFile LogManager" where
  "example_room =
     \<lparr>lm_current = Some \<lparr>lw_file = (new_PosixWritableFile ''w/1-1.wal'' 3 37 False),
        lw_meta = \<lparr>fileName = ''w/1-1.wal'', numEntries = 1\<rparr>, lw_logSegmentSize = 60, lw_empty = False\<rparr>,
      lm_files = [], lm_lastIndex = 0, lm_empty = False, lm_options = example_options\<rparr>"

definition example_short_disk :: kernel where
  "example_short_disk = example_full_disk\<lparr>k_answers := [Transfer 3, Fail (EOther 28)]\<rparr>"

lemma example_room_wal: "posix_wal example_deps example_room example_short_disk [(1, [[(1, 1, [7])]])]"
  using example_batch_ok [of "[(1, 1, [7])]"]
  by (auto simp: lm_inv_def lm_files_ok_def example_room_def example_short_disk_def example_full_disk_def seg_path_def
      segment_path_def example_name posix_open_def posix_content_def new_PosixWritableFile_def example_segment_length
      split: if_splits)

lemma example_short_write:
  "\<exists>m' k'. try_calls example_deps (PosixEnv map_fslib) (PosixWritableFile_ops True) [CallWrite [(2, 1, [])]] example_room example_short_disk =
      Some ([], [(2, 1, [])], IOError, m', k') \<and> SegmentNum m' = 1 \<and> k_answers k' = [] \<and>
    file_map k' = [''w/1-1.wal'' \<mapsto> segment_bytes example_deps [[(1, 1, [7])]] @
      take 3 (batch_bytes example_deps (entries_data example_deps [(2, 1, [])]))]"
proof -
  let ?w = "the (lm_current example_room)" and ?b = "batch_bytes example_deps (entries_data example_deps [(2, 1, [])])"
  have b: "?b \<noteq> []" "drop 3 ?b \<noteq> []" "3 \<le> length ?b"
    using length_batch_bytes [of example_deps "entries_data example_deps [(2, 1, [])]"] by auto
  have n: "1 = fit_count example_deps (lw_logSegmentSize ?w - wf_Size (PosixWritableFile_ops True) (lw_file ?w))
      (take (1 - 0) (drop 0 [(2, 1, [])]))"
    by (simp add: fit_count_def kLogBatchHeaderSize_def Let_def example_room_def PosixWritableFile_ops_def new_PosixWritableFile_def)
  obtain k' where l: "Append_loop 3 ?b example_short_disk = (Some (EOther 28), k')"
    and f: "file_map k' = [''w/1-1.wal'' \<mapsto> segment_bytes example_deps [[(1, 1, [7])]] @ take 3 ?b]" "k_answers k' = []"
    using b splice_end [of "segment_bytes example_deps [[(1, 1, [7])]]" "take 3 ?b"]
    by (simp add: Append_loop.simps sys_write_def sys_enter_def example_short_disk_def example_full_disk_def Let_def
        transferred_def min_absorb1 example_segment_length)
  have a: "wf_Append (PosixWritableFile_ops True) (lw_file ?w) ?b example_short_disk =
      (IOError, lw_file ?w, k')"
    using l by (simp add: example_room_def PosixWritableFile_ops_def Posix_Append_def new_PosixWritableFile_def)
  have "Append_batch example_deps (PosixWritableFile_ops True) ?w [(2, 1, [])] 0 1 None example_short_disk =
      Ret (Inl IOError, ?w, k')"
    by (subst Append_batch_None [OF _ _ _ n]) (simp_all add: example_small a)
  then have "LogWriter_Append example_deps (PosixWritableFile_ops True) ?w [(2, 1, [])] 0 1 None example_short_disk =
      Ret (Inl IOError, ?w, k')"
    by (simp add: LogWriter_Append_def example_room_def)
  then show ?thesis using f
    by (simp add: Write_entries_def LogManager_Write_def Let_def doWrite.simps example_room_def SegmentNum_def)
qed

theorem wal_crash_safe_witness:
  "\<exists>m' k' st lm k3 n. try_calls example_deps (PosixEnv map_fslib) (PosixWritableFile_ops True) [CallWrite [(2, 1, [])]] example_room
      example_short_disk = Some ([], [(2, 1, [])], IOError, m', k') \<and>
    Recover example_deps (PosixEnv map_fslib) (PosixRandomAccessFile_ops map_fslib) example_options None (k'\<lparr>k_fds := Map.empty\<rparr>) =
      Ret (st, Some (None, [(1, 1, [7])] @ take n [(2, 1, [])]), lm, k3)"
proof -
  obtain m' k' where w: "try_calls example_deps (PosixEnv map_fslib) (PosixWritableFile_ops True) [CallWrite [(2, 1, [])]] example_room
      example_short_disk = Some ([], [(2, 1, [])], IOError, m', k')" "SegmentNum m' = 1" "k_answers k' = []"
    "file_map k' = [''w/1-1.wal'' \<mapsto> segment_bytes example_deps [[(1, 1, [7])]] @
      take 3 (batch_bytes example_deps (entries_data example_deps [(2, 1, [])]))]"
    using example_short_write by blast
  have sz: "\<forall>p c. file_map (k'\<lparr>k_fds := Map.empty\<rparr>) p = Some c \<longrightarrow> length c < 2 ^ 64"
    using w(4) by (auto simp: example_segment_length split: if_splits)
  have opt: "lm_options example_room = example_options" by (simp add: example_room_def)
  obtain st mem lm k3 n where "Recover example_deps (PosixEnv map_fslib) (PosixRandomAccessFile_ops map_fslib) example_options None
      (k'\<lparr>k_fds := Map.empty\<rparr>) = Ret (st, mem, lm, k3)"
    "mem = Some (fold (mem_Append example_deps) ([(1, 1, [7])] @ take n [(2, 1, [])]) (mem_new example_deps))"
    using wal_crash_safe [OF map_fslib_size example_fmt map_fslib_dir example_room_wal w(1) _ _ _ _ sz] w(2,3)
    by (auto simp: example_batch_ok opt seg_entries_def Let_def)
  moreover have "fold (mem_Append example_deps) ([(1, 1, [7])] @ take n [(2, 1, [])]) (mem_new example_deps) =
      (None, [(1, 1, [7])] @ take n [(2, 1, [])])"
    by (cases n) (simp_all add: example_deps_def)
  ultimately show ?thesis using w(1) by auto
qed

text \<open>
  A log used by several processes, one after the other: the first finds no segments; each
  recovers the log, makes calls of it while the kernel answers as it likes until one fails or it
  has had enough, and ends.  The next one finds the files the last one has left, and nothing of
  its descriptors.  \<open>acked\<close> are the entries of all writes that returned OK so far, \<open>tried\<close> those
  of all writes.
\<close>

inductive wal_history :: "('e, 'h, 'm) deps \<Rightarrow> fslib \<Rightarrow> bool \<Rightarrow> WriteAheadLogOptions \<Rightarrow> 'e list \<Rightarrow> 'e list \<Rightarrow> kernel \<Rightarrow> bool"
  for D B ok_bool opts where
  first_life:
    "(\<forall>n. isWal n \<longrightarrow> file_map k (log_dir opts @ ''/'' @ n) = None) \<Longrightarrow> k_answers k = [] \<Longrightarrow>
     (\<forall>p c. file_map k p = Some c \<longrightarrow> length c < 2 ^ 64) \<Longrightarrow> wal_history D B ok_bool opts [] [] k"
| next_life:
    "wal_history D B ok_bool opts acked tried k \<Longrightarrow>
     Recover D (PosixEnv B) (PosixRandomAccessFile_ops B) opts None k = Ret (OK, mem, Some m, k1) \<Longrightarrow>
     try_calls D (PosixEnv B) (PosixWritableFile_ops ok_bool) calls m (k1\<lparr>k_answers := answers\<rparr>) = Some (a, failed, s, m', k2) \<Longrightarrow>
     (\<forall>c \<in> set calls. batch_ok D (call_entries c)) \<Longrightarrow> file_map k3 = file_map k2 \<Longrightarrow> k_answers k3 = [] \<Longrightarrow>
     SegmentNum m' < 2 ^ 64 - 1 \<Longrightarrow> (\<forall>p c. file_map k3 p = Some c \<longrightarrow> length c < 2 ^ 64) \<Longrightarrow>
     wal_history D B ok_bool opts (acked @ a) (tried @ a @ failed) k3"

abbreviation wal_dir_manager :: "WriteAheadLogOptions \<Rightarrow> PosixWritableFile LogManager" where
  "wal_dir_manager \<equiv> new_LogManager"

lemma wal_history_files:
  assumes "wal_history D B ok_bool opts acked tried k" "fs_size_law B" "fmt_law D" "\<forall>k. fs_dir_law B (log_dir opts) k"
  shows "\<exists>segs. (lm_files_ok D (wal_dir_manager opts) (file_map k) segs \<or> length acked < length tried \<and>
      torn_files D (wal_dir_manager opts) (file_map k) segs) \<and>
    length segs < 2 ^ 64 - 1 \<and> subseq acked (seg_entries segs) \<and> subseq (seg_entries segs) tried \<and>
    k_answers k = [] \<and> (\<forall>p c. file_map k p = Some c \<longrightarrow> length c < 2 ^ 64)"
  using assms(1)
proof (induction rule: wal_history.induct)
  case (first_life k)
  then show ?case by (intro exI [of _ "[]"]) (simp add: lm_files_ok_def seg_entries_def)
next
  case (next_life acked tried k mem m k1 calls answers a failed s m' k2 k3)
  then obtain segs where F: "lm_files_ok D (wal_dir_manager opts) (file_map k) segs \<or> torn_files D (wal_dir_manager opts) (file_map k) segs"
    and S: "length segs < 2 ^ 64 - 1" "subseq acked (seg_entries segs)" "subseq (seg_entries segs) tried" "k_answers k = []"
    "\<forall>p c. file_map k p = Some c \<longrightarrow> length c < 2 ^ 64" by blast
  have ok: "lm_files_ok D (wal_dir_manager opts) (file_map k) segs"
    using Recover_files [OF assms(2) assms(4) [rule_format] assms(3) S(4) F _ S(1,5)] next_life.hyps(2)
    by (auto split: if_splits)
  from Recover_ok [OF assms(2) assms(4) [rule_format] assms(3) S(4) ok _ S(1,5)] next_life.hyps(2)
  have m: "\<forall>k''. file_map k'' = file_map k \<longrightarrow> posix_wal D m k'' segs" "lm_options m = opts" "k_files k1 = k_files k" by auto
  have "posix_wal D m (k1\<lparr>k_answers := answers\<rparr>) segs" using m(1,3) by simp
  from try_calls_files [OF next_life.hyps(3) this next_life.hyps(4)] obtain segs' n where
    T: "lm_files_ok D m' (file_map k3) segs' \<or> failed \<noteq> [] \<and> torn_files D m' (file_map k3) segs'" "lm_options m' = opts"
      "length segs' = SegmentNum m'" "seg_entries segs' = seg_entries segs @ a @ take n failed"
    unfolding next_life.hyps(5) using m(2) by metis
  have t: "subseq (take n failed) failed" by (rule prefix_imp_subseq [OF take_is_prefix])
  have "subseq (acked @ a @ []) (seg_entries segs @ a @ take n failed)"
    "subseq (seg_entries segs @ a @ take n failed) (tried @ a @ failed)"
    by (intro list_emb_append_mono S(2,3) t subseq_order.refl list_emb_Nil)+
  then have sub: "subseq (acked @ a) (seg_entries segs')" "subseq (seg_entries segs') (tried @ a @ failed)"
    unfolding T(4) by simp_all
  have "length acked \<le> length tried"
    using list_emb_length [OF S(2)] list_emb_length [OF S(3)] by simp
  then have "length (acked @ a) < length (tried @ a @ failed)" if "failed \<noteq> []"
    using that by (cases failed) simp_all
  then have "lm_files_ok D (wal_dir_manager opts) (file_map k3) segs' \<or> length (acked @ a) < length (tried @ a @ failed) \<and>
      torn_files D (wal_dir_manager opts) (file_map k3) segs'"
    using T(1,2) lm_files_ok_cong [of m' "wal_dir_manager opts" D] torn_files_cong [of m' "wal_dir_manager opts" D] by auto
  with sub T(3) next_life.hyps show ?case by (intro exI [of _ segs']) simp
qed

text \<open>
  C3. The log outlives its processes.  However many processes have used the log one after the
  other, each recovering it and writing, syncing and closing it until a call failed or it ended,
  whatever the kernel answered on the way, the next one recovers a log that has the entries of
  all writes of all processes that returned OK, in order and each as often as it was written, and
  besides them only entries of writes that failed, in their place.  \<^verbatim>\<open>Recover\<close> returns OK with a
  manager unless a write has failed; so if none has, the log is exactly what was written.
  Processes that a call of the log ends are not covered.
\<close>

theorem wal_outlives_processes:
  assumes "wal_history D B ok_bool opts acked tried k" "fs_size_law B" "fmt_law D" "\<forall>k. fs_dir_law B (log_dir opts) k"
  shows "\<exists>st mem lm k' log. Recover D (PosixEnv B) (PosixRandomAccessFile_ops B) opts None k = Ret (st, mem, lm, k') \<and>
    (st = OK \<and> lm \<noteq> None \<or> st = Corruption \<and> acked \<noteq> tried) \<and> subseq acked log \<and> subseq log tried \<and>
    (mem = Some (fold (mem_Append D) log (mem_new D)) \<or> mem = None \<and> log = [])"
proof -
  obtain segs where F: "lm_files_ok D (wal_dir_manager opts) (file_map k) segs \<or> length acked < length tried \<and>
      torn_files D (wal_dir_manager opts) (file_map k) segs"
    and S: "length segs < 2 ^ 64 - 1" "subseq acked (seg_entries segs)" "subseq (seg_entries segs) tried" "k_answers k = []"
    "\<forall>p c. file_map k p = Some c \<longrightarrow> length c < 2 ^ 64"
    using wal_history_files [OF assms] by blast
  from F have G: "lm_files_ok D (wal_dir_manager opts) (file_map k) segs \<or> torn_files D (wal_dir_manager opts) (file_map k) segs" by blast
  obtain st mem lm k' where R: "Recover D (PosixEnv B) (PosixRandomAccessFile_ops B) opts None k = Ret (st, mem, lm, k')"
    "if lm_files_ok D (wal_dir_manager opts) (file_map k) segs then st = OK \<and> lm \<noteq> None else st = Corruption"
    "mem = Some (fold (mem_Append D) (seg_entries segs) (mem_new D)) \<or> mem = None \<and> seg_entries segs = []"
    using Recover_files [OF assms(2) assms(4) [rule_format] assms(3) S(4) G _ S(1,5)] by auto
  from R(2) F have "st = OK \<and> lm \<noteq> None \<or> st = Corruption \<and> acked \<noteq> tried" by (auto split: if_splits)
  with R(1,3) S(2,3) show ?thesis by blast
qed

text \<open>An example with two processes: each writes one entry.\<close>

lemma example_first_life:
  "\<exists>k. wal_history example_deps map_fslib True example_options [(1, 1, [7])] [(1, 1, [7])] k \<and>
    file_map k = [''w/1-1.wal'' \<mapsto> segment_bytes example_deps [[(1, 1, [7])]]]"
proof -
  obtain m k1 where run: "run_writes example_deps (PosixEnv map_fslib) (PosixWritableFile_ops True) [[(1, 1, [7])]]
      (new_LogManager example_options) example_disk = Some (m, k1)" "SegmentNum m = 1" "k_answers k1 = []"
    "file_map k1 = [''w/1-1.wal'' \<mapsto> segment_bytes example_deps [[(1, 1, [7])]]]"
    using example_run by blast
  have zero: "wal_history example_deps map_fslib True example_options [] [] example_disk"
    by (rule first_life) (simp_all add: example_disk_def example_kernel_def)
  have "lm_files_ok example_deps (new_LogManager example_options :: PosixWritableFile LogManager) (file_map example_disk) []"
    by (simp add: lm_files_ok_def example_disk_def)
  then have rec: "Recover example_deps (PosixEnv map_fslib) (PosixRandomAccessFile_ops map_fslib) example_options None example_disk =
      Ret (OK, None, Some (new_LogManager example_options), example_disk)"
    using map_fslib_dir [of "''w''" example_disk] by (subst Recover_wals [OF _ example_fmt, where segs = "[]"]) (simp_all add: example_disk_def)
  have kd: "example_disk\<lparr>k_answers := []\<rparr> = example_disk" by (simp add: example_disk_def example_kernel_def)
  have c: "try_calls example_deps (PosixEnv map_fslib) (PosixWritableFile_ops True) (map CallWrite [[(1, 1, [7])]])
      (new_LogManager example_options) (example_disk\<lparr>k_answers := []\<rparr>) = Some (concat [[(1, 1, [7])]], [], OK, m, k1)"
    using run(1) unfolding kd calls_of_writes .
  have "wal_history example_deps map_fslib True example_options ([] @ concat [[(1, 1, [7])]]) ([] @ concat [[(1, 1, [7])]] @ [])
      (k1\<lparr>k_fds := Map.empty\<rparr>)"
    by (rule next_life [OF zero rec c]) (auto simp: run example_segment_length example_batch_ok split: if_splits)
  with run(4) show ?thesis by (intro exI [of _ "k1\<lparr>k_fds := Map.empty\<rparr>"]) simp
qed

lemma one_file_one_segment:
  assumes "lm_files_ok D m [p \<mapsto> c] segs" "segs \<noteq> []"
  shows "length segs = 1"
proof (rule ccontr)
  assume "length segs \<noteq> 1"
  with assms(2) have two: "1 < length segs" by (cases segs) auto
  have path: "seg_path D m segs i = p" if "i < length segs" for i
    using assms(1) that by (auto simp: lm_files_ok_def split: if_splits)
  from assms(1) two have "seg_path D m segs 0 \<noteq> seg_path D m segs 1" by (simp add: lm_files_ok_def)
  with path [of 0] path [of 1] two show False by fastforce
qed

lemma example_second_life:
  "\<exists>k. wal_history example_deps map_fslib True example_options [(1, 1, [7]), (2, 1, [7])] [(1, 1, [7]), (2, 1, [7])] k"
proof -
  obtain k where one: "wal_history example_deps map_fslib True example_options [(1, 1, [7])] [(1, 1, [7])] k"
    and k: "file_map k = [''w/1-1.wal'' \<mapsto> segment_bytes example_deps [[(1, 1, [7])]]]"
    using example_first_life by blast
  have dir: "\<forall>k. fs_dir_law map_fslib (log_dir example_options) k" using map_fslib_dir by blast
  obtain segs where S: "lm_files_ok example_deps (wal_dir_manager example_options) (file_map k) segs"
    "length segs < 2 ^ 64 - 1" "subseq [(1, 1, [7])] (seg_entries segs)" "k_answers k = []"
    "\<forall>p c. file_map k p = Some c \<longrightarrow> length c < 2 ^ 64"
    using wal_history_files [OF one map_fslib_size example_fmt dir] by auto
  obtain mem m k1 where R: "Recover example_deps (PosixEnv map_fslib) (PosixRandomAccessFile_ops map_fslib) example_options None k =
      Ret (OK, mem, Some m, k1)" "posix_wal example_deps m k1 segs" "lm_current m = None" "lm_options m = example_options" "\<not> lm_empty m"
      "k_files k1 = k_files k" "k_answers k1 = []"
    using Recover_ok [OF map_fslib_size dir [rule_format] example_fmt S(4,1) _ S(2,5)] by auto
  define p where "p = segment_path example_deps ''w'' (of_nat (length (lm_files m)) + 1) (lm_lastIndex m + 1)"
  have "segs \<noteq> []" using S(3) by (auto simp: seg_entries_def)
  then have one_seg: "length segs = 1" by (rule one_file_one_segment [OF S(1) [unfolded k]])
  then have "length (lm_files m) = 1" using R(2,3) by (simp add: lm_inv_def)
  then have "p \<noteq> ''w/1-1.wal''"
    using SegmentFileName_inject [OF example_fmt, of 2 _ 1 1] by (simp add: p_def segment_path_def example_name)
  then have "file_map k1 p = None" using R(6) k by simp
  from example_write [OF R(3-5,7) this p_def, of 2] obtain m' k2 where
    W: "run_writes example_deps (PosixEnv map_fslib) (PosixWritableFile_ops True) [[(2, 1, [7])]] m k1 = Some (m', k2)"
      "SegmentNum m' = Suc (SegmentNum m)" "k_answers k2 = []"
      "file_map k2 = (file_map k1)(p \<mapsto> segment_bytes example_deps [[(2, 1, [7])]])" by blast
  have num: "SegmentNum m' < 2 ^ 64 - 1" using W(2) SegmentNum_segs [OF R(2)] one_seg by simp
  have kd: "k1\<lparr>k_answers := []\<rparr> = k1" using R(7) by (cases k1) simp
  have c: "try_calls example_deps (PosixEnv map_fslib) (PosixWritableFile_ops True) (map CallWrite [[(2, 1, [7])]]) m
      (k1\<lparr>k_answers := []\<rparr>) = Some (concat [[(2, 1, [7])]], [], OK, m', k2)"
    using W(1) unfolding kd calls_of_writes .
  have "wal_history example_deps map_fslib True example_options ([(1, 1, [7])] @ concat [[(2, 1, [7])]])
      ([(1, 1, [7])] @ concat [[(2, 1, [7])]] @ []) (k2\<lparr>k_fds := Map.empty\<rparr>)"
    using W(3,4) R(6) k num
    by (intro next_life [OF one R(1) c]) (auto simp: example_segment_length example_batch_ok split: if_splits)
  then show ?thesis by auto
qed

theorem wal_outlives_processes_witness:
  "\<exists>k lm k'. wal_history example_deps map_fslib True example_options [(1, 1, [7]), (2, 1, [7])] [(1, 1, [7]), (2, 1, [7])] k \<and>
    Recover example_deps (PosixEnv map_fslib) (PosixRandomAccessFile_ops map_fslib) example_options None k =
      Ret (OK, Some (None, [(1, 1, [7]), (2, 1, [7])]), lm, k')"
proof -
  let ?es = "[(1, 1, [7]), (2, 1, [7])] :: example_entry list"
  obtain k where k: "wal_history example_deps map_fslib True example_options ?es ?es k"
    using example_second_life by blast
  have "\<forall>k. fs_dir_law map_fslib (log_dir example_options) k" using map_fslib_dir by blast
  from wal_outlives_processes [OF k map_fslib_size example_fmt this] obtain mem lm k' log where
    R: "Recover example_deps (PosixEnv map_fslib) (PosixRandomAccessFile_ops map_fslib) example_options None k = Ret (OK, mem, lm, k')"
      "subseq ?es log" "subseq log ?es"
      "mem = Some (fold (mem_Append example_deps) log (mem_new example_deps)) \<or> mem = None \<and> log = []"
    by blast
  have log: "log = ?es" using R(2,3) by (intro subseq_order.antisym)
  then have "mem = Some (fold (mem_Append example_deps) ?es (mem_new example_deps))" using R(4) by simp
  then have "mem = Some (None, ?es)" by (simp add: example_deps_def)
  with R(1) k show ?thesis by blast
qed

end
