(* ===== verification/Support.thy ===== *)
theory Support
  imports Status Coding
begin

section \<open>Small helpers: random numbers, error strings, the logger\<close>

text \<open>
  include/consensus/base/random.h, src/base/random.cc, src/base/errno.cc, src/base/glog_logger.cc and
  include/consensus/base/stl_container_utils.h.
\<close>

unbundle bit_operations_syntax

subsection \<open>std::mt19937\<close>

text \<open>
  The generator of the standard library: 624 words of state, seeded by a linear recurrence; a step
  appends the next word of the recurrence and drops the first.
\<close>

fun mt_seed_loop :: "nat \<Rightarrow> u32 \<Rightarrow> u32 \<Rightarrow> u32 list" where
  "mt_seed_loop 0 i x = []"
| "mt_seed_loop (Suc n) i x =
     x # mt_seed_loop n (i + 1) (1812433253 * (x XOR drop_bit 30 x) + (i + 1))"

definition mt_seed :: "u32 \<Rightarrow> u32 list" where
  "mt_seed seed = mt_seed_loop 624 0 seed"

definition mt_temper :: "u32 \<Rightarrow> u32" where
  "mt_temper y =
     (let y = y XOR drop_bit 11 y;
          y = y XOR (push_bit 7 y AND 0x9d2c5680);
          y = y XOR (push_bit 15 y AND 0xefc60000)
      in y XOR drop_bit 18 y)"

definition mt_step :: "u32 list \<Rightarrow> u32 \<times> u32 list" where
  "mt_step s =
     (let y = (s ! 0 AND 0x80000000) OR (s ! 1 AND 0x7fffffff);
          x = s ! 397 XOR drop_bit 1 y XOR (if bit y 0 then 0x9908b0df else 0)
      in (mt_temper x, tl s @ [x]))"

type_synonym Random = "u32 list"

definition new_Random :: "u32 \<Rightarrow> Random" where
  "new_Random seed = mt_seed seed"

definition Random_Next :: "Random \<Rightarrow> u32 \<times> Random" where
  "Random_Next g = mt_step g"

definition Random_Uniform :: "u32 \<Rightarrow> Random \<Rightarrow> (u32 \<times> Random) outcome" where
  "Random_Uniform n g = (if n = 0 then Undef DivideByZero else case Random_Next g of (r, g) \<Rightarrow> Ret (r mod n, g))"

text \<open>
  \<^verbatim>\<open>RandomString\<close>: whole words as long as they fit, then the first bytes of one more.  The bytes of
  a word in memory are in the order of the host.
\<close>

definition word_bytes :: "platform \<Rightarrow> u32 \<Rightarrow> bytes" where
  "word_bytes P w = (if host_little P then le_bytes32 w else rev (le_bytes32 w))"

function RandomString_loop :: "platform \<Rightarrow> nat \<Rightarrow> nat \<Rightarrow> u32 \<Rightarrow> bytes \<Rightarrow> Random \<Rightarrow> (nat \<times> u32 \<times> bytes \<times> Random) outcome" where
  "RandomString_loop P n i random cdest rng =
     (if i + 4 \<le> n then
        bind_outcome (buf_write i (word_bytes P random) cdest) (\<lambda>cdest.
          case Random_Next rng of (random, rng) \<Rightarrow> RandomString_loop P n (i + 4) random cdest rng)
      else Ret (i, random, cdest, rng))"
  by auto
termination
  by (relation "measure (\<lambda>(P, n, i, r, d, g). n - i)") auto

declare RandomString_loop.simps [simp del]

definition RandomString :: "platform \<Rightarrow> bytes \<Rightarrow> nat \<Rightarrow> Random \<Rightarrow> (bytes \<times> Random) outcome" where
  "RandomString P dest n rng =
     (case Random_Next rng of (random, rng) \<Rightarrow>
        bind_outcome (RandomString_loop P n 0 random dest rng) (\<lambda>(i, random, cdest, rng).
        bind_outcome (buf_write i (take (n - i) (word_bytes P random)) cdest) (\<lambda>cdest. Ret (cdest, rng))))"

text \<open>The overload that returns a string fills one of size n.\<close>

definition RandomString_new :: "platform \<Rightarrow> nat \<Rightarrow> Random \<Rightarrow> (bytes \<times> Random) outcome" where
  "RandomString_new P n rng = RandomString P (replicate n 0) n rng"

text \<open>Reference: the bytes of the first \<open>k\<close> numbers.\<close>

primrec random_bytes :: "platform \<Rightarrow> nat \<Rightarrow> Random \<Rightarrow> bytes" where
  "random_bytes P 0 g = []"
| "random_bytes P (Suc k) g = word_bytes P (fst (Random_Next g)) @ random_bytes P k (snd (Random_Next g))"

lemma length_word_bytes [simp]: "length (word_bytes P w) = 4"
  by (simp add: word_bytes_def le_bytes32_def)

lemma RandomString_loop_spec:
  "length pre = i \<Longrightarrow> n \<le> length cdest \<Longrightarrow> take i cdest = pre \<Longrightarrow> i \<le> n \<Longrightarrow>
   \<exists>i' r cdest' g'. RandomString_loop P n i random cdest rng = Ret (i', r, cdest', g') \<and> length cdest' = length cdest \<and>
     drop n cdest' = drop n cdest \<and> i' = i + 4 * ((n - i) div 4) \<and>
     take i' cdest' @ word_bytes P r = pre @ word_bytes P random @ random_bytes P ((n - i) div 4) rng"
proof (induction P n i random cdest rng arbitrary: pre rule: RandomString_loop.induct)
  case (1 P n i random cdest rng)
  show ?case
  proof (cases "i + 4 \<le> n")
    case False
    then have "(n - i) div 4 = 0" by simp
    with False 1(2-4) show ?thesis by (subst RandomString_loop.simps) simp
  next
    case True
    let ?d = "take i cdest @ word_bytes P random @ drop (i + 4) cdest"
    obtain r g where N: "Random_Next rng = (r, g)" by fastforce
    have w: "buf_write i (word_bytes P random) cdest = Ret ?d" using True 1(3) by (simp add: buf_write_fits)
    have d: "n \<le> length ?d" "take (i + 4) ?d = pre @ word_bytes P random" "length ?d = length cdest" "drop n ?d = drop n cdest"
      using True 1(2-4) by simp_all
    have l: "length (pre @ word_bytes P random) = i + 4" using 1(2) by simp
    from 1(1) [OF True N [symmetric] l d(1,2) True] obtain i' r' cdest' g' where
      R: "RandomString_loop P n (i + 4) r ?d g = Ret (i', r', cdest', g')" "length cdest' = length cdest"
        "drop n cdest' = drop n cdest" "i' = i + 4 + 4 * ((n - (i + 4)) div 4)"
        "take i' cdest' @ word_bytes P r' = (pre @ word_bytes P random) @ word_bytes P r @ random_bytes P ((n - (i + 4)) div 4) g"
      unfolding d(3,4) by blast
    have k: "(n - i) div 4 = Suc ((n - (i + 4)) div 4)" using True by linarith
    show ?thesis
      by (subst RandomString_loop.simps) (use True w N R k in simp)
  qed
qed

text \<open>
  \<^verbatim>\<open>RandomString\<close> fills the first n bytes of its buffer and writes nothing else: they are the
  bytes of the next numbers of the generator, the last one cut.
\<close>

lemma RandomString_prefix:
  assumes "n \<le> length dest"
  shows "\<exists>g'. RandomString P dest n rng = Ret (take n (random_bytes P (n div 4 + 1) rng) @ drop n dest, g')"
proof -
  obtain r g where N: "Random_Next rng = (r, g)" by fastforce
  from RandomString_loop_spec [of "[]" 0 n dest P r g] assms obtain i' r' d' g' where
    R: "RandomString_loop P n 0 r dest g = Ret (i', r', d', g')" "length d' = length dest" "drop n d' = drop n dest" "i' = 4 * (n div 4)"
      "take i' d' @ word_bytes P r' = word_bytes P r @ random_bytes P (n div 4) g" by auto
  have i: "i' \<le> n" "n - i' < 4" using R(4) by (simp_all add: minus_mod_eq_mult_div [symmetric])
  have "buf_write i' (take (n - i') (word_bytes P r')) d' = Ret (take n (take i' d' @ word_bytes P r') @ drop n dest)"
    using i R(2,3) assms by (simp add: buf_write_def)
  with R(1) N show ?thesis by (simp add: RandomString_def R(5))
qed

lemma RandomString_spec:
  assumes "length dest = n"
  shows "\<exists>g'. RandomString P dest n rng = Ret (take n (random_bytes P (n div 4 + 1) rng), g')"
  using RandomString_prefix [of n dest P rng] assms by simp

lemma length_random_bytes [simp]: "length (random_bytes P n g) = 4 * n"
  by (induction n arbitrary: g) simp_all

lemma Random_Uniform_less: "Random_Uniform n g = Ret (r, g') \<Longrightarrow> r < n"
  by (auto simp: Random_Uniform_def word_mod_less_divisor word_gt_0 split: if_splits prod.splits)

subsection \<open>ErrnoToCString\<close>

text \<open>
  \<^verbatim>\<open>strncpy\<close>: the characters up to and without the first NUL, cut or padded with NULs to the length.
  \<^verbatim>\<open>strerror_r\<close> belongs to the C library; the GNU variant (\<open>Inl\<close>) either fills the buffer or returns a
  string of its own, the POSIX variant (\<open>Inr\<close>) fills the buffer and returns a code.
\<close>

definition strncpy :: "string \<Rightarrow> nat \<Rightarrow> string" where
  "strncpy src n = (let s = takeWhile (\<lambda>c. c \<noteq> CHR 0x00) src in take n s @ replicate (n - length s) (CHR 0x00))"

definition ERANGE :: int where "ERANGE = 34"
definition EINVAL :: int where "EINVAL = 22"

definition terminate :: "string \<Rightarrow> string" where
  "terminate buf = buf[length buf - 1 := CHR 0x00]"

definition ErrnoToCString :: "(int \<Rightarrow> string \<Rightarrow> string + string) + (int \<Rightarrow> string \<Rightarrow> int \<times> string) \<Rightarrow> int \<Rightarrow> string \<Rightarrow> string outcome" where
  "ErrnoToCString strerror_r err buf =
     (if length buf = 0 then Fatal
      else case strerror_r of
        Inr posix \<Rightarrow>
          (case posix err buf of (rc, buf) \<Rightarrow>
             if rc \<noteq> 0 \<and> rc \<noteq> ERANGE \<and> rc \<noteq> EINVAL then Ret (terminate (strncpy ''unknown error'' (length buf))) else Ret buf)
      | Inl gnu \<Rightarrow>
          (case gnu err buf of
             Inl filled \<Rightarrow> Ret filled
           | Inr msg \<Rightarrow> Ret (terminate (strncpy msg (length buf)))))"

lemma length_strncpy [simp]: "length (strncpy s n) = n"
  by (simp add: strncpy_def Let_def)

lemma ErrnoToCString_terminated:
  assumes "buf \<noteq> []" and "\<And>filled. gnu err buf = Inl filled \<Longrightarrow> CHR 0x00 \<in> set filled \<and> length filled = length buf"
  shows "\<exists>out. ErrnoToCString (Inl gnu) err buf = Ret out \<and> length out = length buf \<and> CHR 0x00 \<in> set out"
proof (cases "gnu err buf")
  case (Inl filled)
  with assms show ?thesis by (simp add: ErrnoToCString_def)
next
  case (Inr s)
  have "CHR 0x00 \<in> set (terminate (strncpy s (length buf)))"
    using assms(1) by (simp add: terminate_def set_update_memI)
  with Inr assms(1) show ?thesis by (simp add: ErrnoToCString_def terminate_def)
qed

subsection \<open>GLogLogger\<close>

datatype yaraft_LogLevel = YINFO | YWARNING | YERROR | YFATAL | YOtherLevel int
datatype LogSeverity = GINFO | GWARNING | GERROR | GFATAL

text \<open>
  A level outside the four is caught by an assertion; in a build without assertions the severity is
  not initialised.  A message of severity FATAL ends the process when it is flushed.
\<close>

fun log_severity :: "bool \<Rightarrow> yaraft_LogLevel \<Rightarrow> LogSeverity outcome" where
  "log_severity ndebug YINFO = Ret GINFO"
| "log_severity ndebug YWARNING = Ret GWARNING"
| "log_severity ndebug YERROR = Ret GERROR"
| "log_severity ndebug YFATAL = Ret GFATAL"
| "log_severity ndebug (YOtherLevel n) = (if ndebug then Undef Indeterminate else Fatal)"

definition GLogLogger_Log :: "bool \<Rightarrow> yaraft_LogLevel \<Rightarrow> string \<Rightarrow> (LogSeverity \<times> string) list \<Rightarrow> (LogSeverity \<times> string) list outcome" where
  "GLogLogger_Log ndebug level log out =
     bind_outcome (log_severity ndebug level) (\<lambda>severity. if severity = GFATAL then Fatal else Ret (out @ [(severity, log)]))"

subsection \<open>STLDeleteContainerPointers\<close>

fun STLDeleteContainerPointers :: "nat list \<Rightarrow> nat set \<Rightarrow> nat set outcome" where
  "STLDeleteContainerPointers [] live = Ret live"
| "STLDeleteContainerPointers (p # r) live =
     (if p \<in> live then STLDeleteContainerPointers r (live - {p}) else Undef UseAfterFree)"

lemma delete_pointers_spec:
  "STLDeleteContainerPointers ps live = (if distinct ps \<and> set ps \<subseteq> live then Ret (live - set ps) else Undef UseAfterFree)"
  by (induction ps live rule: STLDeleteContainerPointers.induct) auto

end
