(* ===== verification/TestSupport.thy ===== *)
theory TestSupport
  imports WalFaults Support
begin

section \<open>Fixtures and the benchmark: base/testing.h, base/testing.cc, wal/wal.cc, wal/wal_bench.cc\<close>

text \<open>
  What the tests and the benchmark are set up with: the directory of a test, files with random
  contents, a log with one entry in it, and the loop the benchmark measures.  \<open>Finished\<close> and
  \<open>Failed\<close> are the two ways out of a function with assertions of the test library.
\<close>

datatype 'a test_run = Finished 'a | Failed

definition ASSERT_OK :: "ErrorCodes \<Rightarrow> 'a test_run \<Rightarrow> 'a test_run" where
  "ASSERT_OK s rest = (if s = OK then rest else Failed)"

definition ASSIGN_IF_ASSERT_OK :: "'v StatusWith \<Rightarrow> ('v \<Rightarrow> 'a test_run) \<Rightarrow> 'a test_run" where
  "ASSIGN_IF_ASSERT_OK sw rest = (case sw of Inl e \<Rightarrow> ASSERT_OK e Failed | Inr v \<Rightarrow> rest v)"

definition TestDirectoryHelper_acquire :: "('f, 'r, 'k) Env \<Rightarrow> string \<Rightarrow> 'k \<Rightarrow> 'k outcome" where
  "TestDirectoryHelper_acquire env dir k =
     (case env_CreateDirIfMissing env dir k of (s, k) \<Rightarrow> bind_outcome (FATAL_NOT_OK s) (\<lambda>_. Ret k))"

definition TestDirectoryHelper_release :: "('f, 'r, 'k) Env \<Rightarrow> string \<Rightarrow> 'k \<Rightarrow> 'k outcome" where
  "TestDirectoryHelper_release env dir k =
     (case env_DeleteRecursively env dir k of (s, k) \<Rightarrow> bind_outcome (FATAL_NOT_OK s) (\<lambda>_. Ret k))"

text \<open>The seed is the flag of the test library if it is set, otherwise the time in seconds.\<close>

definition SeedRandom :: "int \<Rightarrow> nat \<Rightarrow> u32" where
  "SeedRandom gtest_random_seed seconds = (if gtest_random_seed \<noteq> 0 then of_int gtest_random_seed else of_nat seconds)"

definition OpenFileForWrite :: "('f, 'r, 'k) Env \<Rightarrow> string \<Rightarrow> CreateMode \<Rightarrow> bool \<Rightarrow> 'k \<Rightarrow> ('f \<times> 'k) outcome" where
  "OpenFileForWrite env fname mode sync_on_close k =
     (case env_NewWritableFile env fname mode sync_on_close k of
        (Inl e, k) \<Rightarrow> Fatal
      | (Inr f, k) \<Rightarrow> Ret (f, k))"

definition WriteTestFile :: "platform \<Rightarrow> ('f, 'r, 'k) Env \<Rightarrow> ('f, 'k) WritableFile \<Rightarrow> string \<Rightarrow> nat \<Rightarrow> Random \<Rightarrow> 'k
    \<Rightarrow> (bytes \<times> Random \<times> 'k) test_run outcome" where
  "WriteTestFile P env ops path sz rng k =
     (case env_NewWritableFile env path CREATE_IF_NON_EXISTING_TRUNCATE False k of
        (Inl e, k) \<Rightarrow> Ret (ASSERT_OK e Failed)
      | (Inr f, k) \<Rightarrow>
          bind_outcome (RandomString_new P sz rng) (\<lambda>(testData, rng).
            case wf_Append ops f testData k of
              (s, f, k) \<Rightarrow>
                Ret (ASSERT_OK s
                  (case wf_Close ops f k of (s, f, k) \<Rightarrow> ASSERT_OK s (Finished (testData, rng, k))))))"

text \<open>\<^verbatim>\<open>TEST_CreateWalStore\<close>: a recovered log, to which an entry as its constructor leaves it is written.\<close>

definition TEST_CreateWalStore :: "('e, 'h, 'm) deps \<Rightarrow> ('f, 'r, 'k) Env \<Rightarrow> ('f, 'k) WritableFile \<Rightarrow> ('r, 'k) RandomAccessFile \<Rightarrow> 'e
    \<Rightarrow> string \<Rightarrow> 'm option \<Rightarrow> 'k \<Rightarrow> ('f LogManager \<times> 'm option \<times> 'k) outcome option" where
  "TEST_CreateWalStore D env ops rops new_Entry testDir memstore k =
     (let options = new_WriteAheadLogOptions\<lparr>log_dir := testDir, verify_checksum := True\<rparr> in
      case bind_outcome (WriteAheadLog_Default D env rops options memstore k) (\<lambda>(s, memstore, wal, k).
             bind_outcome (FATAL_NOT_OK s) (\<lambda>_. Ret (memstore, wal, k))) of
        Undef u \<Rightarrow> Some (Undef u)
      | Fatal \<Rightarrow> Some Fatal
      | Ret (memstore, wal, k) \<Rightarrow>
          (case wal of
             None \<Rightarrow> Some (Undef NullDereference)
           | Some m \<Rightarrow>
               map_option (\<lambda>r. bind_outcome r (\<lambda>(s, m, k). Ret (m, memstore, k))) (Write_entries D env ops [new_Entry] m k)))"

subsection \<open>WalBench\<close>

text \<open>
  \<open>PBEntry\<close> builds an entry from index, term and data.  The loop compares its unsigned counter
  with an \<^verbatim>\<open>int\<close>, which is converted: a negative number of entries is a huge one.
\<close>

definition bench_entries :: "(u64 \<Rightarrow> u64 \<Rightarrow> bytes \<Rightarrow> 'e) \<Rightarrow> nat \<Rightarrow> int \<Rightarrow> 'e list" where
  "bench_entries PBEntry per_size num_entries =
     map (\<lambda>i. PBEntry (of_nat i + 1) 1 (replicate per_size 97)) [0..<unat (of_int num_entries :: u64)]"

text \<open>The measured loop: \<open>n\<close> rounds that write the same entries.\<close>

primrec bench_rounds :: "('e, 'h, 'm) deps \<Rightarrow> ('f, 'r, 'k) Env \<Rightarrow> ('f, 'k) WritableFile \<Rightarrow> 'e list \<Rightarrow> nat
    \<Rightarrow> 'f LogManager \<Rightarrow> 'k \<Rightarrow> ('f LogManager \<times> 'k) outcome option" where
  "bench_rounds D env ops entries 0 m k = Some (Ret (m, k))"
| "bench_rounds D env ops entries (Suc n) m k =
     (case Write_entries D env ops entries m k of
        None \<Rightarrow> None
      | Some (Undef u) \<Rightarrow> Some (Undef u)
      | Some Fatal \<Rightarrow> Some Fatal
      | Some (Ret (s, m, k)) \<Rightarrow> if s \<noteq> OK then Some Fatal else bench_rounds D env ops entries n m k)"

text \<open>
  At the end the log is destroyed and then the helper, which removes the directory.  The count of
  bytes that is reported to the benchmark library is left out.
\<close>

definition WalBench :: "('e, 'h, 'm) deps \<Rightarrow> ('f, 'r, 'k) Env \<Rightarrow> ('f, 'k) WritableFile \<Rightarrow> ('r, 'k) RandomAccessFile \<Rightarrow> 'e
    \<Rightarrow> (u64 \<Rightarrow> u64 \<Rightarrow> bytes \<Rightarrow> 'e) \<Rightarrow> nat \<Rightarrow> int \<Rightarrow> nat \<Rightarrow> 'k \<Rightarrow> 'k outcome option" where
  "WalBench D env ops rops new_Entry PBEntry per_size num_entries iterations k =
     (let dir = ''/tmp/consensus-wal-bench'' in
      case TestDirectoryHelper_acquire env dir k of
        Undef u \<Rightarrow> Some (Undef u)
      | Fatal \<Rightarrow> Some Fatal
      | Ret k \<Rightarrow>
          (case TEST_CreateWalStore D env ops rops new_Entry dir None k of
             None \<Rightarrow> None
           | Some (Undef u) \<Rightarrow> Some (Undef u)
           | Some Fatal \<Rightarrow> Some Fatal
           | Some (Ret (wal, memstore, k)) \<Rightarrow>
               map_option (\<lambda>r. bind_outcome r (\<lambda>(wal, k).
                   bind_outcome (delete_LogManager ops wal k) (TestDirectoryHelper_release env dir)))
                 (bench_rounds D env ops (bench_entries PBEntry per_size num_entries) iterations wal k)))"

subsection \<open>What they leave\<close>

lemma Posix_New_truncated:
  "Posix_NewWritableFile B p CREATE_IF_NON_EXISTING_TRUNCATE sync k = (Inr f, k') \<Longrightarrow>
   posix_open f k' \<and> posix_content f k' = [] \<and> pf_filename f = p"
  by (auto simp: Posix_NewWritableFile_def DoOpen_def sys_open_def Let_def new_PosixWritableFile_def posix_open_def posix_content_def
      update_conv' split: prod.splits sum.splits option.splits if_splits sys_answer.splits)

text \<open>A test file that was written has as many bytes as asked for, and the bytes the test compares with.\<close>

lemma WriteTestFile_content:
  assumes "WriteTestFile P (PosixEnv B) (PosixWritableFile_ops ok_bool) path sz rng k = Ret (Finished (testData, rng', k'))"
  shows "file_map k' path = Some testData \<and> length testData = sz"
proof -
  define d where "d = take sz (random_bytes P (sz div 4 + 1) rng)"
  obtain g where r: "RandomString_new P sz rng = Ret (d, g)"
    using RandomString_spec [of "replicate sz 0" sz P rng] by (auto simp: RandomString_new_def d_def)
  obtain q k1 where q: "Posix_NewWritableFile B path CREATE_IF_NON_EXISTING_TRUNCATE False k = (q, k1)" by fastforce
  with assms obtain f where n: "Posix_NewWritableFile B path CREATE_IF_NON_EXISTING_TRUNCATE False k = (Inr f, k1)"
    by (cases q) (simp_all add: WriteTestFile_def PosixEnv_def ASSERT_OK_def)
  obtain s1 f1 k2 where a: "Posix_Append f d k1 = (s1, f1, k2)" by (metis prod.exhaust)
  obtain s f2 k3 where c: "Posix_Close ok_bool f1 k2 = (s, f2, k3)" by (metis prod.exhaust)
  have "s1 = OK \<and> d = testData \<and> k3 = k'"
    using assms by (simp add: WriteTestFile_def PosixEnv_def PosixWritableFile_ops_def n r a c ASSERT_OK_def split: if_splits)
  then have a: "Posix_Append f testData k1 = (OK, f1, k2)" and c: "Posix_Close ok_bool f1 k2 = (s, f2, k')" and d: "testData = d"
    using a c by simp_all
  note F = Posix_New_truncated [OF n]
  note A = Posix_Append_OK [OF conjunct1 [OF F] a]
  have "file_map k' = file_map k2" using Posix_Close_files [OF _ c] A by simp
  with A F have "file_map k' path = Some testData" by simp
  moreover have "length (random_bytes P n g') = 4 * n" for n g'
    by (induction n arbitrary: g') simp_all
  then have "length testData = sz" using d by (simp add: d_def)
  ultimately show ?thesis by simp
qed

text \<open>Rounds of the benchmark are a sequence of writes; the log has the entries once per round.\<close>

lemma bench_rounds_writes:
  "bench_rounds D env ops entries n m k = Some (Ret (m', k')) \<longleftrightarrow> run_writes D env ops (replicate n entries) m k = Some (m', k')"
  by (induction n arbitrary: m k) (auto split: option.splits outcome.splits)

lemma bench_rounds_log:
  assumes "bench_rounds D (PosixEnv B) (PosixWritableFile_ops ok_bool) entries n m k = Some (Ret (m', k'))" "posix_wal D m k segs"
    "batch_ok D entries"
  shows "\<exists>segs'. posix_wal D m' k' segs' \<and> seg_entries segs' = seg_entries segs @ concat (replicate n entries)"
  using run_writes_inv [OF assms(1) [unfolded bench_rounds_writes] assms(2)] assms(3) by (fastforce simp: in_set_replicate)

end
