(* ===== verification/MemKvHeap.thy ===== *)
theory MemKvHeap
  imports MemKvStore "HOL-Library.Multiset"
begin

section \<open>The nodes of the store in memory: apps/memkv/src/memkv_store.cc\<close>

text \<open>
  The same operations over the objects they work on.  A \<^verbatim>\<open>Node\<close> lies at an address and owns a
  table from segments to the addresses of its children; \<^verbatim>\<open>new\<close> takes an address that was never
  used, and the use of an address that is not live is undefined behaviour.  The entry with a null
  pointer that \<^verbatim>\<open>emplace\<close> makes and the assignment that fills it in are one step.  The order in
  which the destructor visits a table is unspecified, so it is a parameter.
\<close>

type_synonym addr = nat
type_synonym ChildrenTable = "(string \<times> addr) list"

record Node_obj =
  no_children :: ChildrenTable
  no_data :: string

record kv_heap =
  kh_nodes :: "addr \<rightharpoonup> Node_obj"
  kh_next :: addr

definition new_Node_obj :: Node_obj where
  "new_Node_obj = \<lparr>no_children = [], no_data = []\<rparr>"

text \<open>The root is a member of the implementation object; it has the first address.\<close>

definition root_addr :: addr where
  "root_addr = 0"

definition new_MemKvStore :: kv_heap where
  "new_MemKvStore = \<lparr>kh_nodes = [root_addr \<mapsto> new_Node_obj], kh_next = 1\<rparr>"

definition deref :: "addr \<Rightarrow> kv_heap \<Rightarrow> Node_obj outcome" where
  "deref n H = (case kh_nodes H n of None \<Rightarrow> Undef UseAfterFree | Some node \<Rightarrow> Ret node)"

definition emplace_child :: "addr \<Rightarrow> Node_obj \<Rightarrow> string \<Rightarrow> kv_heap \<Rightarrow> addr \<times> kv_heap" where
  "emplace_child n node seg H =
     (case map_of (no_children node) seg of
        Some c \<Rightarrow> (c, H)
      | None \<Rightarrow>
          let c = kh_next H in
          (c, \<lparr>kh_nodes = (kh_nodes H)(n \<mapsto> node\<lparr>no_children := no_children node @ [(seg, c)]\<rparr>, c \<mapsto> new_Node_obj),
               kh_next = c + 1\<rparr>))"

fun heap_Write_loop :: "string list \<Rightarrow> addr \<Rightarrow> kv_heap \<Rightarrow> (addr \<times> kv_heap) outcome" where
  "heap_Write_loop [] n H = Ret (n, H)"
| "heap_Write_loop (seg # pathVec) n H =
     (if length seg = 0 then heap_Write_loop pathVec n H
      else bind_outcome (deref n H) (\<lambda>node.
             case emplace_child n node seg H of (n, H) \<Rightarrow> heap_Write_loop pathVec n H))"

definition heap_assign :: "string list \<Rightarrow> string \<Rightarrow> addr \<Rightarrow> kv_heap \<Rightarrow> kv_heap outcome" where
  "heap_assign pathVec value n H =
     bind_outcome (heap_Write_loop pathVec n H) (\<lambda>(n, H).
     bind_outcome (deref n H) (\<lambda>node.
       Ret (H\<lparr>kh_nodes := (kh_nodes H)(n \<mapsto> node\<lparr>no_data := value\<rparr>)\<rparr>)))"

definition heap_Write :: "kv_lib \<Rightarrow> string \<Rightarrow> string \<Rightarrow> kv_heap \<Rightarrow> (kv_status \<times> kv_heap) outcome" where
  "heap_Write L path value H =
     (case validatePath L path of
        Inl e \<Rightarrow> Ret (e, H)
      | Inr pathVec \<Rightarrow> bind_outcome (heap_assign pathVec value root_addr H) (\<lambda>H. Ret (KvOK, H)))"

text \<open>Erasing the entry of a table destroys the pointer, not the node it points to.\<close>

fun heap_Delete_loop :: "string list \<Rightarrow> addr \<Rightarrow> kv_heap \<Rightarrow> (kv_status \<times> kv_heap) outcome" where
  "heap_Delete_loop [] n H = Ret (KvInvalidArgument, H)"
| "heap_Delete_loop (seg # pathVec) n H =
     (if length seg = 0 then heap_Delete_loop pathVec n H
      else bind_outcome (deref n H) (\<lambda>node.
        case map_of (no_children node) seg of
          None \<Rightarrow> Ret (KvOK, H)
        | Some c \<Rightarrow>
            if pathVec = [] then
              Ret (KvOK, H\<lparr>kh_nodes := (kh_nodes H)
                (n \<mapsto> node\<lparr>no_children := filter (\<lambda>e. fst e \<noteq> seg) (no_children node)\<rparr>)\<rparr>)
            else heap_Delete_loop pathVec c H))"

definition heap_Delete :: "kv_lib \<Rightarrow> string \<Rightarrow> kv_heap \<Rightarrow> (kv_status \<times> kv_heap) outcome" where
  "heap_Delete L path H =
     (case validatePath L path of
        Inl e \<Rightarrow> Ret (e, H)
      | Inr pathVec \<Rightarrow> heap_Delete_loop pathVec root_addr H)"

fun heap_Get_loop :: "string list \<Rightarrow> addr \<Rightarrow> kv_heap \<Rightarrow> (kv_status + string) outcome" where
  "heap_Get_loop [] n H = bind_outcome (deref n H) (\<lambda>node. Ret (Inr (no_data node)))"
| "heap_Get_loop (seg # pathVec) n H =
     (if length seg = 0 then heap_Get_loop pathVec n H
      else bind_outcome (deref n H) (\<lambda>node.
        case map_of (no_children node) seg of
          None \<Rightarrow> Ret (Inl KvNodeNotExist)
        | Some c \<Rightarrow> heap_Get_loop pathVec c H))"

definition heap_Get :: "kv_lib \<Rightarrow> string \<Rightarrow> kv_heap \<Rightarrow> (kv_status + string) outcome" where
  "heap_Get L path H =
     (case validatePath L path of
        Inl e \<Rightarrow> Ret (Inl e)
      | Inr pathVec \<Rightarrow> heap_Get_loop pathVec root_addr H)"

text \<open>
  The destructor of a node deletes its children, each of which runs its own destructor, and then
  the memory is released.  The fuel bounds the depth of the calls.
\<close>

fun delete_Node :: "nat \<Rightarrow> (ChildrenTable \<Rightarrow> ChildrenTable) \<Rightarrow> addr \<Rightarrow> kv_heap \<Rightarrow> kv_heap outcome option"
and delete_children :: "nat \<Rightarrow> (ChildrenTable \<Rightarrow> ChildrenTable) \<Rightarrow> ChildrenTable \<Rightarrow> kv_heap \<Rightarrow> kv_heap outcome option" where
  "delete_Node 0 order n H = None"
| "delete_Node (Suc fuel) order n H =
     (case deref n H of
        Ret node \<Rightarrow>
          (case delete_children fuel order (order (no_children node)) H of
             Some (Ret H) \<Rightarrow> Some (Ret (H\<lparr>kh_nodes := (kh_nodes H)(n := None)\<rparr>))
           | r \<Rightarrow> r)
      | Undef u \<Rightarrow> Some (Undef u)
      | Fatal \<Rightarrow> Some Fatal)"
| "delete_children fuel order [] H = Some (Ret H)"
| "delete_children fuel order (child # cs) H =
     (case delete_Node fuel order (snd child) H of
        Some (Ret H) \<Rightarrow> delete_children fuel order cs H
      | r \<Rightarrow> r)"

definition delete_MemKvStore :: "nat \<Rightarrow> (ChildrenTable \<Rightarrow> ChildrenTable) \<Rightarrow> kv_heap \<Rightarrow> kv_heap outcome option" where
  "delete_MemKvStore fuel order H = delete_Node fuel order root_addr H"

lemma map_of_filter_key: "map_of (filter (\<lambda>e. fst e \<noteq> k) xs) r = (if r = k then None else map_of xs r)"
  by (induction xs) auto

subsection \<open>The objects represent a tree\<close>

text \<open>
  \<open>rep h a t A\<close>: the node at \<open>a\<close> represents the tree \<open>t\<close> with exactly the objects at \<open>A\<close>; no object
  has two parents.
\<close>

inductive rep :: "(addr \<rightharpoonup> Node_obj) \<Rightarrow> addr \<Rightarrow> Node \<Rightarrow> addr set \<Rightarrow> bool" where
  "h a = Some node \<Longrightarrow> distinct (map fst (no_children node)) \<Longrightarrow> [] \<notin> fst ` set (no_children node) \<Longrightarrow>
   (\<And>s. map_of (no_children node) s = None \<Longrightarrow> cs s = None) \<Longrightarrow>
   (\<And>s c. map_of (no_children node) s = Some c \<Longrightarrow> cs s = Some (T s) \<and> rep h c (T s) (F s)) \<Longrightarrow>
   (\<And>s. a \<notin> F s) \<Longrightarrow> (\<And>s s'. s \<noteq> s' \<Longrightarrow> F s \<inter> F s' = {}) \<Longrightarrow>
   (\<And>s. map_of (no_children node) s = None \<Longrightarrow> F s = {}) \<Longrightarrow>
   rep h a (Node cs (no_data node)) (insert a (\<Union>s. F s))"

lemma repE:
  assumes "rep h a t A"
  obtains node T F where "h a = Some node" "distinct (map fst (no_children node))" "[] \<notin> fst ` set (no_children node)"
    "\<And>s. map_of (no_children node) s = None \<Longrightarrow> children t s = None \<and> F s = {}"
    "\<And>s c. map_of (no_children node) s = Some c \<Longrightarrow> children t s = Some (T s) \<and> rep h c (T s) (F s)"
    "\<And>s. a \<notin> F s" "\<And>s s'. s \<noteq> s' \<Longrightarrow> F s \<inter> F s' = {}" "data t = no_data node" "A = insert a (\<Union>s. F s)"
  using assms
proof (cases rule: rep.cases)
  case (1 node cs T F)
  show thesis by (rule that [of node F T]) (use 1 in simp_all)
qed

lemma repI:
  assumes "h a = Some node" "distinct (map fst (no_children node))" "[] \<notin> fst ` set (no_children node)"
    "\<And>s. map_of (no_children node) s = None \<Longrightarrow> cs s = None \<and> F s = {}"
    "\<And>s c. map_of (no_children node) s = Some c \<Longrightarrow> cs s = Some (T s) \<and> rep h c (T s) (F s)"
    "\<And>s. a \<notin> F s" "\<And>s s'. s \<noteq> s' \<Longrightarrow> F s \<inter> F s' = {}"
    "t = Node cs (no_data node)" "A = insert a (\<Union>s. F s)"
  shows "rep h a t A"
  unfolding assms(8,9)
  by (rule rep.intros [OF assms(1-3) _ assms(5-7)]) (simp_all add: assms(4))

lemma rep_frame: "rep h a t A \<Longrightarrow> (\<And>x. x \<in> A \<Longrightarrow> h' x = h x) \<Longrightarrow> rep h' a t A"
proof (induction h a t A rule: rep.induct)
  case (1 h a node cs T F)
  have agree: "h' a = h a" "\<And>x s. x \<in> F s \<Longrightarrow> h' x = h x" using 1(9) by blast+
  show ?case
  proof (rule repI [where T = T and F = F and node = node])
    fix s c
    assume "map_of (no_children node) s = Some c"
    from "1.IH" [OF this] agree(2) [of _ s] show "cs s = Some (T s) \<and> rep h' c (T s) (F s)" by blast
  qed (use "1.hyps" agree(1) in simp_all)
qed

lemma rep_dom: "rep h a t A \<Longrightarrow> A \<subseteq> dom h \<and> a \<in> A"
proof (induction h a t A rule: rep.induct)
  case (1 h a node cs T F)
  have "F s \<subseteq> dom h" for s
  proof (cases "map_of (no_children node) s")
    case None
    with "1.hyps" show ?thesis by simp
  next
    case (Some c)
    from "1.IH" [OF this] show ?thesis by blast
  qed
  with "1.hyps"(1) show ?case by blast
qed

lemma rep_deref: "rep (kh_nodes H) a t A \<Longrightarrow> \<exists>node. kh_nodes H a = Some node \<and> deref a H = Ret node"
  by (erule repE) (simp add: deref_def)

lemma rep_no_child: "rep h a t A \<Longrightarrow> h a = Some node \<Longrightarrow> map_of (no_children node) s = None \<Longrightarrow> children t s = None"
  by (erule repE) simp

lemma rep_data: "rep h a t A \<Longrightarrow> h a = Some node \<Longrightarrow> data t = no_data node"
  by (erule repE) simp

text \<open>Replacing the child of a node, with objects that nothing else uses.\<close>

lemma rep_child:
  assumes "rep h a t A" "h a = Some node" "map_of (no_children node) s = Some c"
  obtains u B R where "children t s = Some u" "rep h c u B" "A = insert a (B \<union> R)" "a \<notin> B" "a \<notin> R" "B \<inter> R = {}"
    "\<And>h' u' B'. rep h' c u' B' \<Longrightarrow> h' a = h a \<Longrightarrow> (\<And>x. x \<in> R \<Longrightarrow> h' x = h x) \<Longrightarrow> a \<notin> B' \<Longrightarrow> B' \<inter> R = {} \<Longrightarrow>
        rep h' a (Node ((children t)(s \<mapsto> u')) (data t)) (insert a (B' \<union> R))"
  using assms(1)
proof (cases rule: repE)
  case (1 node' T F)
  have [simp]: "node' = node" using 1(1) assms(2) by simp
  let ?R = "\<Union>r \<in> - {s}. F r"
  show thesis
  proof (rule that [of "T s" "F s" ?R])
    show "children t s = Some (T s)" "rep h c (T s) (F s)" using 1(5) [of s c] assms(3) by simp_all
    have "(\<Union>r. F r) = F s \<union> ?R" by auto
    then show "A = insert a (F s \<union> ?R)" using 1(9) by simp
    show "a \<notin> F s" "a \<notin> ?R" using 1(6) by simp_all
    show "F s \<inter> ?R = {}" using 1(7) by (simp add: Int_UN_distrib)
  next
    fix h' u' B'
    assume h': "rep h' c u' B'" "h' a = h a" "\<And>x. x \<in> ?R \<Longrightarrow> h' x = h x" "a \<notin> B'" "B' \<inter> ?R = {}"
    have fr: "rep h' c' (T r) (F r)" if "r \<noteq> s" "map_of (no_children node) r = Some c'" for r c'
    proof -
      have "rep h c' (T r) (F r)" using 1(5) that(2) by simp
      moreover have "h' x = h x" if "x \<in> F r" for x by (rule h'(3)) (use that \<open>r \<noteq> s\<close> in auto)
      ultimately show ?thesis by (rule rep_frame)
    qed
    show "rep h' a (Node ((children t)(s \<mapsto> u')) (data t)) (insert a (B' \<union> ?R))"
    proof (rule repI [where cs = "(children t)(s \<mapsto> u')" and node = node and T = "T(s := u')" and F = "F(s := B')"])
      show "insert a (B' \<union> ?R) = insert a (\<Union>r. (F(s := B')) r)" by auto
    next
      fix r r' :: string
      assume "r \<noteq> r'"
      then show "(F(s := B')) r \<inter> (F(s := B')) r' = {}" using 1(7) [of r r'] h'(5) by auto
    next
      fix r
      assume "map_of (no_children node) r = None"
      with 1(4) [of r] assms(3) show "((children t)(s \<mapsto> u')) r = None \<and> (F(s := B')) r = {}" by auto
    next
      fix r c'
      assume "map_of (no_children node) r = Some c'"
      with 1(5) [of r] fr h'(1) assms(3)
      show "((children t)(s \<mapsto> u')) r = Some ((T(s := u')) r) \<and> rep h' c' ((T(s := u')) r) ((F(s := B')) r)"
        by (cases "r = s") simp_all
    qed (use 1(2,3,6,8) assms(2) h'(2,4) in simp_all)
  qed
qed

lemma rep_set_data:
  assumes "rep h a t A" "h a = Some node"
  shows "rep (h(a \<mapsto> node\<lparr>no_data := v\<rparr>)) a (Node (children t) v) A"
  using assms(1)
proof (cases rule: repE)
  case (1 node' T F)
  have [simp]: "node' = node" using 1(1) assms(2) by simp
  let ?h = "h(a \<mapsto> node\<lparr>no_data := v\<rparr>)"
  show ?thesis
  proof (rule repI [where cs = "children t" and node = "node\<lparr>no_data := v\<rparr>" and T = T and F = F])
    fix s c
    assume "map_of (no_children (node\<lparr>no_data := v\<rparr>)) s = Some c"
    with 1(5) have c: "children t s = Some (T s)" "rep h c (T s) (F s)" by simp_all
    have "?h x = h x" if "x \<in> F s" for x using 1(6) [of s] that by auto
    with c show "children t s = Some (T s) \<and> rep ?h c (T s) (F s)" by (simp add: rep_frame)
  qed (use 1(2-4,6-9) in simp_all)
qed

lemma rep_new: "h a = Some new_Node_obj \<Longrightarrow> rep h a new_Node {a}"
  by (rule repI [where F = "\<lambda>_. {}" and node = new_Node_obj]) (simp_all add: new_Node_def new_Node_obj_def)

text \<open>Linking a new empty node below a node.\<close>

lemma rep_link:
  assumes "rep h a t A" "h a = Some node" "map_of (no_children node) s = None" "s \<noteq> []" "h c = None"
  shows "rep (h(a \<mapsto> node\<lparr>no_children := no_children node @ [(s, c)]\<rparr>, c \<mapsto> new_Node_obj)) a
    (Node ((children t)(s \<mapsto> new_Node)) (data t)) (insert c A)"
  using assms(1)
proof (cases rule: repE)
  case (1 node' T F)
  let ?n = "node\<lparr>no_children := no_children node @ [(s, c)]\<rparr>"
  let ?h = "h(a \<mapsto> ?n, c \<mapsto> new_Node_obj)"
  have [simp]: "node' = node" using 1(1) assms(2) by simp
  have A: "A \<subseteq> dom h" using rep_dom [OF assms(1)] by simp
  have ac: "c \<noteq> a" "\<And>r. c \<notin> F r" using A assms(2,5) 1(9) by auto
  have Fs: "F s = {}" using 1(4) assms(3) by simp
  have look: "map_of (no_children ?n) r = (if r = s then Some c else map_of (no_children node) r)" for r
    using assms(3) by (simp add: map_add_def split: option.split)
  show ?thesis
  proof (rule repI [where cs = "(children t)(s \<mapsto> new_Node)" and node = ?n and T = "T(s := new_Node)" and F = "F(s := {c})"])
    show "insert c A = insert a (\<Union>r. (F(s := {c})) r)" using 1(9) Fs by auto
    show "distinct (map fst (no_children ?n))" "[] \<notin> fst ` set (no_children ?n)"
      using 1(2,3) assms(3,4) by (simp_all add: map_of_eq_None_iff)
  next
    fix r r' :: string
    assume "r \<noteq> r'"
    then show "(F(s := {c})) r \<inter> (F(s := {c})) r' = {}" using 1(7) [of r r'] ac(2) by auto
  next
    fix r b
    assume "map_of (no_children ?n) r = Some b"
    with look have b: "if r = s then b = c else map_of (no_children node) r = Some b" by (simp split: if_splits)
    show "((children t)(s \<mapsto> new_Node)) r = Some ((T(s := new_Node)) r) \<and> rep ?h b ((T(s := new_Node)) r) ((F(s := {c})) r)"
    proof (cases "r = s")
      case False
      with b 1(5) have "children t r = Some (T r)" "rep h b (T r) (F r)" by simp_all
      moreover have "?h x = h x" if "x \<in> F r" for x using that 1(6) [of r] ac by auto
      ultimately show ?thesis using False by (simp add: rep_frame)
    qed (use b in \<open>simp add: rep_new\<close>)
  next
    fix r
    assume "map_of (no_children ?n) r = None"
    with look 1(4) [of r] show "((children t)(s \<mapsto> new_Node)) r = None \<and> (F(s := {c})) r = {}"
      by (simp split: if_splits)
  qed (use 1(6,8) ac in simp_all)
qed

text \<open>Removing an entry from the table: the objects of the child are no longer reached.\<close>

lemma rep_unlink:
  assumes "rep h a t A" "h a = Some node" "map_of (no_children node) s = Some c"
  obtains B' where "B' \<subseteq> A" "c \<in> B'" "a \<notin> B'" "rep (h(a \<mapsto> node\<lparr>no_children := filter (\<lambda>e. fst e \<noteq> s) (no_children node)\<rparr>)) a
    (Node ((children t)(s := None)) (data t)) (A - B')"
  using assms(1)
proof (cases rule: repE)
  case (1 node' T F)
  let ?n = "node\<lparr>no_children := filter (\<lambda>e. fst e \<noteq> s) (no_children node)\<rparr>"
  let ?h = "h(a \<mapsto> ?n)"
  have [simp]: "node' = node" using 1(1) assms(2) by simp
  have look: "map_of (no_children ?n) r = (if r = s then None else map_of (no_children node) r)" for r
    by (simp add: map_of_filter_key)
  show thesis
  proof (rule that [of "F s"])
    show "F s \<subseteq> A" "a \<notin> F s" using 1(6,9) by blast+
    show "c \<in> F s" using 1(5) [of s c] assms(3) rep_dom [of h c "T s" "F s"] by simp
    show "rep ?h a (Node ((children t)(s := None)) (data t)) (A - F s)"
    proof (rule repI [where cs = "(children t)(s := None)" and node = ?n and T = T and F = "F(s := {})"])
      define R where "R = (\<Union>r \<in> - {s}. F r)"
      have "(\<Union>r. F r) = F s \<union> R" "(\<Union>r. (F(s := {})) r) = R" by (auto simp: R_def split: if_splits)
      moreover have "F s \<inter> R = {}" using 1(7) by (simp add: R_def Int_UN_distrib)
      moreover have "a \<notin> F s" by (rule 1(6))
      ultimately show "A - F s = insert a (\<Union>r. (F(s := {})) r)" unfolding 1(9) by auto
      show "distinct (map fst (no_children ?n))" "[] \<notin> fst ` set (no_children ?n)"
        using 1(2,3) by (auto simp: distinct_map_filter)
    next
      fix r b
      assume "map_of (no_children ?n) r = Some b"
      with look have b: "r \<noteq> s" "map_of (no_children node) r = Some b" by (simp_all split: if_splits)
      with 1(5) have "children t r = Some (T r)" "rep h b (T r) (F r)" by simp_all
      moreover have "?h x = h x" if "x \<in> F r" for x using that 1(6) [of r] by auto
      ultimately show "((children t)(s := None)) r = Some (T r) \<and> rep ?h b (T r) ((F(s := {})) r)"
        using b(1) by (simp add: rep_frame)
    next
      fix r
      assume "map_of (no_children ?n) r = None"
      with look 1(4) [of r] show "((children t)(s := None)) r = None \<and> (F(s := {})) r = {}"
        by (simp split: if_splits)
    qed (use 1(1,6-8) in simp_all)
  qed
qed

subsection \<open>The operations on the objects are those on the tree\<close>

lemma heap_assign_Cons:
  "heap_assign (seg # pathVec) v n H =
     (if seg = [] then heap_assign pathVec v n H
      else bind_outcome (deref n H) (\<lambda>node. case emplace_child n node seg H of (n, H) \<Rightarrow> heap_assign pathVec v n H))"
  by (simp add: heap_assign_def bind_outcome_assoc split_def)

text \<open>
  What a write at node \<open>a\<close> does: the node represents the updated tree with the old and the new
  objects, and no other object changes.
\<close>

definition assigned :: "string list \<Rightarrow> string \<Rightarrow> addr \<Rightarrow> Node \<Rightarrow> addr set \<Rightarrow> kv_heap \<Rightarrow> kv_heap \<Rightarrow> bool" where
  "assigned pathVec v a t A H H' \<longleftrightarrow>
     rep (kh_nodes H') a (Write_loop pathVec v t) (A \<union> {kh_next H..<kh_next H'}) \<and> kh_next H \<le> kh_next H' \<and>
     dom (kh_nodes H') = {..<kh_next H'} \<and> (\<forall>x. x \<notin> A \<longrightarrow> x < kh_next H \<longrightarrow> kh_nodes H' x = kh_nodes H x)"

lemma assigned_child:
  assumes "rep (kh_nodes H) a t A" "dom (kh_nodes H) = {..<kh_next H}" "kh_nodes H a = Some node"
    "map_of (no_children node) seg = Some c" "seg \<noteq> []"
    and IH: "\<And>u B. rep (kh_nodes H) c u B \<Longrightarrow> \<exists>H'. heap_assign pathVec v c H = Ret H' \<and> assigned pathVec v c u B H H'"
  shows "\<exists>H'. heap_assign pathVec v c H = Ret H' \<and> assigned (seg # pathVec) v a t A H H'"
proof -
  from rep_child [OF assms(1,3,4)] obtain u B R where c: "children t seg = Some u" "rep (kh_nodes H) c u B"
      "A = insert a (B \<union> R)" "a \<notin> B" "a \<notin> R" "B \<inter> R = {}"
    and put: "\<And>h' u' B'. rep h' c u' B' \<Longrightarrow> h' a = kh_nodes H a \<Longrightarrow> (\<And>x. x \<in> R \<Longrightarrow> h' x = kh_nodes H x) \<Longrightarrow>
        a \<notin> B' \<Longrightarrow> B' \<inter> R = {} \<Longrightarrow> rep h' a (Node ((children t)(seg \<mapsto> u')) (data t)) (insert a (B' \<union> R))"
    by blast
  from IH [OF c(2)] obtain H' where H': "heap_assign pathVec v c H = Ret H'" "assigned pathVec v c u B H H'" by blast
  let ?new = "{kh_next H..<kh_next H'}"
  have A: "A \<subseteq> {..<kh_next H}" using rep_dom [OF assms(1)] assms(2) by simp
  note d = H'(2) [unfolded assigned_def]
  have "rep (kh_nodes H') a (Node ((children t)(seg \<mapsto> Write_loop pathVec v u)) (data t)) (insert a ((B \<union> ?new) \<union> R))"
    by (rule put) (use d c A in auto)
  moreover have "insert a ((B \<union> ?new) \<union> R) = A \<union> ?new" using c(3) by auto
  ultimately show ?thesis
    using H'(1) d c(1,3) assms(5) by (auto simp: assigned_def)
qed

lemma heap_assign_rep:
  "rep (kh_nodes H) a t A \<Longrightarrow> dom (kh_nodes H) = {..<kh_next H} \<Longrightarrow>
   \<exists>H'. heap_assign pathVec v a H = Ret H' \<and> assigned pathVec v a t A H H'"
proof (induction pathVec arbitrary: a t A H)
  case Nil
  from rep_deref [OF Nil(1)] obtain node where n: "kh_nodes H a = Some node" "deref a H = Ret node" by blast
  moreover have "a \<in> A" "a < kh_next H" using rep_dom [OF Nil(1)] Nil(2) n(1) by auto
  ultimately show ?case
    using rep_set_data [OF Nil(1) n(1), of v] Nil(2) by (auto simp: heap_assign_def assigned_def)
next
  case (Cons seg pathVec)
  show ?case
  proof (cases "seg = []")
    case True
    then show ?thesis using Cons by (simp add: heap_assign_Cons assigned_def)
  next
    case False
    from rep_deref [OF Cons(2)] obtain node where n: "kh_nodes H a = Some node" "deref a H = Ret node" by blast
    show ?thesis
    proof (cases "map_of (no_children node) seg")
      case (Some c)
      from assigned_child [OF Cons(2,3) n(1) Some False] Cons(1) [OF _ Cons(3)]
      show ?thesis by (simp add: heap_assign_Cons False n emplace_child_def Some)
    next
      case None
      let ?c = "kh_next H" and ?n = "node\<lparr>no_children := no_children node @ [(seg, kh_next H)]\<rparr>"
      let ?t = "Node ((children t)(seg \<mapsto> new_Node)) (data t)"
      let ?H = "\<lparr>kh_nodes = (kh_nodes H)(a \<mapsto> ?n, ?c \<mapsto> new_Node_obj), kh_next = ?c + 1\<rparr>"
      have a: "a \<in> A" "a < ?c" using rep_dom [OF Cons(2)] Cons(3) n(1) by auto
      have fresh: "kh_nodes H ?c = None" using Cons(3) by (metis domIff lessThan_iff less_irrefl)
      have r: "rep (kh_nodes ?H) a ?t (insert ?c A)"
        using rep_link [OF Cons(2) n(1) None False fresh] by simp
      have dom: "dom (kh_nodes ?H) = {..<kh_next ?H}" using Cons(3) a by auto
      have node: "kh_nodes ?H a = Some ?n" "map_of (no_children ?n) seg = Some ?c" using a None by (simp_all add: map_add_def)
      from assigned_child [OF r dom node False] Cons(1) [OF _ dom] obtain H' where
        H': "heap_assign pathVec v ?c ?H = Ret H'" "assigned (seg # pathVec) v a ?t (insert ?c A) ?H H'" by blast
      have "Write_loop (seg # pathVec) v ?t = Write_loop (seg # pathVec) v t"
        using rep_no_child [OF Cons(2) n(1) None] False by simp
      moreover have "insert ?c A \<union> {?c + 1..<kh_next H'} = A \<union> {?c..<kh_next H'}" if "?c + 1 \<le> kh_next H'"
        using that by auto
      ultimately have "assigned (seg # pathVec) v a t A H H'"
        using H'(2) a by (auto simp: assigned_def)
      then show ?thesis using H'(1) by (simp add: heap_assign_Cons False n emplace_child_def None Let_def)
    qed
  qed
qed

lemma heap_Get_loop_rep: "rep (kh_nodes H) a t A \<Longrightarrow> heap_Get_loop pathVec a H = Ret (Get_loop pathVec t)"
proof (induction pathVec arbitrary: a t A)
  case Nil
  from rep_deref [OF this] rep_data [OF this] show ?case by auto
next
  case (Cons seg pathVec)
  from rep_deref [OF Cons(2)] obtain node where n: "kh_nodes H a = Some node" "deref a H = Ret node" by blast
  show ?case
  proof (cases "map_of (no_children node) seg")
    case None
    with n rep_no_child [OF Cons(2) n(1)] Cons show ?thesis by auto
  next
    case (Some c)
    from rep_child [OF Cons(2) n(1) Some] obtain u B where "children t seg = Some u" "rep (kh_nodes H) c u B" by blast
    with n Some Cons show ?thesis by auto
  qed
qed

text \<open>A delete may forget objects, but none is released.\<close>

lemma heap_Delete_loop_rep:
  assumes "rep (kh_nodes H) a t A"
  shows "\<exists>H' A'. heap_Delete_loop pathVec a H = Ret (fst (Delete_loop pathVec t), H') \<and>
    rep (kh_nodes H') a (snd (Delete_loop pathVec t)) A' \<and> A' \<subseteq> A \<and> kh_next H' = kh_next H \<and>
    dom (kh_nodes H') = dom (kh_nodes H) \<and> (\<forall>x. x \<notin> A \<longrightarrow> kh_nodes H' x = kh_nodes H x)"
  using assms
proof (induction pathVec arbitrary: a t A)
  case (Cons seg pathVec)
  from rep_deref [OF Cons(2)] obtain node where n: "kh_nodes H a = Some node" "deref a H = Ret node" by blast
  have aA: "a \<in> A" using rep_dom [OF Cons(2)] by simp
  show ?case
  proof (cases "seg = [] \<or> map_of (no_children node) seg = None")
    case True
    with n rep_no_child [OF Cons(2) n(1), of seg] Cons show ?thesis by auto
  next
    case False
    then obtain c where c: "map_of (no_children node) seg = Some c" and ne: "seg \<noteq> []" by auto
    from rep_child [OF Cons(2) n(1) c] obtain u B R where u: "children t seg = Some u" "rep (kh_nodes H) c u B"
      "A = insert a (B \<union> R)" "a \<notin> B" "a \<notin> R" "B \<inter> R = {}"
      and put: "\<And>h' u' B'. rep h' c u' B' \<Longrightarrow> h' a = kh_nodes H a \<Longrightarrow> (\<And>x. x \<in> R \<Longrightarrow> h' x = kh_nodes H x) \<Longrightarrow>
        a \<notin> B' \<Longrightarrow> B' \<inter> R = {} \<Longrightarrow> rep h' a (Node ((children t)(seg \<mapsto> u')) (data t)) (insert a (B' \<union> R))"
      by blast
    show ?thesis
    proof (cases "pathVec = []")
      case True
      from rep_unlink [OF Cons(2) n(1) c] obtain B' where
        "rep ((kh_nodes H)(a \<mapsto> node\<lparr>no_children := filter (\<lambda>e. fst e \<noteq> seg) (no_children node)\<rparr>)) a
           (Node ((children t)(seg := None)) (data t)) (A - B')" by blast
      with True ne n c u(1) aA show ?thesis by (auto intro!: exI [of _ "A - B'"])
    next
      case more: False
      from Cons(1) [OF u(2)] obtain H' A' where H': "heap_Delete_loop pathVec c H = Ret (fst (Delete_loop pathVec u), H')"
        "rep (kh_nodes H') c (snd (Delete_loop pathVec u)) A'" "A' \<subseteq> B" "kh_next H' = kh_next H"
        "dom (kh_nodes H') = dom (kh_nodes H)" "\<forall>x. x \<notin> B \<longrightarrow> kh_nodes H' x = kh_nodes H x" by blast
      have "rep (kh_nodes H') a (Node ((children t)(seg \<mapsto> snd (Delete_loop pathVec u))) (data t)) (insert a (A' \<union> R))"
        by (rule put) (use H' u in auto)
      with more ne n c u H' show ?thesis
        by (auto simp: split_def intro!: exI [of _ "insert a (A' \<union> R)"])
    qed
  qed
qed auto

subsection \<open>Sequences of operations\<close>

datatype kv_op = OpWrite string string | OpDelete string | OpGet string

type_synonym kv_answer = "kv_status + string"

text \<open>A status without a value is answered as the value of a success that carries none.\<close>

definition status_answer :: "kv_status \<Rightarrow> kv_answer" where
  "status_answer s = (if s = KvOK then Inr [] else Inl s)"

fun tree_op :: "kv_lib \<Rightarrow> kv_op \<Rightarrow> Node \<Rightarrow> kv_answer \<times> Node" where
  "tree_op L (OpWrite p v) t = (case Kv_Write L p v t of (s, t) \<Rightarrow> (status_answer s, t))"
| "tree_op L (OpDelete p) t = (case Kv_Delete L p t of (s, t) \<Rightarrow> (status_answer s, t))"
| "tree_op L (OpGet p) t = (Kv_Get L p t, t)"

fun heap_op :: "kv_lib \<Rightarrow> kv_op \<Rightarrow> kv_heap \<Rightarrow> (kv_answer \<times> kv_heap) outcome" where
  "heap_op L (OpWrite p v) H = bind_outcome (heap_Write L p v H) (\<lambda>(s, H). Ret (status_answer s, H))"
| "heap_op L (OpDelete p) H = bind_outcome (heap_Delete L p H) (\<lambda>(s, H). Ret (status_answer s, H))"
| "heap_op L (OpGet p) H = bind_outcome (heap_Get L p H) (\<lambda>r. Ret (r, H))"

fun tree_ops :: "kv_lib \<Rightarrow> kv_op list \<Rightarrow> Node \<Rightarrow> kv_answer list \<times> Node" where
  "tree_ops L [] t = ([], t)"
| "tree_ops L (op # ops) t =
     (case tree_op L op t of (r, t) \<Rightarrow> case tree_ops L ops t of (rs, t) \<Rightarrow> (r # rs, t))"

fun heap_ops :: "kv_lib \<Rightarrow> kv_op list \<Rightarrow> kv_heap \<Rightarrow> (kv_answer list \<times> kv_heap) outcome" where
  "heap_ops L [] H = Ret ([], H)"
| "heap_ops L (op # ops) H =
     bind_outcome (heap_op L op H) (\<lambda>(r, H). bind_outcome (heap_ops L ops H) (\<lambda>(rs, H). Ret (r # rs, H)))"

text \<open>
  The state of a store that has not been destroyed: its root represents the tree, and every node
  that was ever made is still there.
\<close>

definition store_rep :: "kv_heap \<Rightarrow> Node \<Rightarrow> addr set \<Rightarrow> bool" where
  "store_rep H t A \<longleftrightarrow> rep (kh_nodes H) root_addr t A \<and> dom (kh_nodes H) = {..<kh_next H}"

lemma store_rep_new: "store_rep new_MemKvStore new_Node {root_addr}"
  by (simp add: store_rep_def new_MemKvStore_def rep_new root_addr_def lessThan_Suc)

lemma heap_op_rep:
  assumes "store_rep H t A"
  shows "\<exists>H' A'. heap_op L op H = Ret (fst (tree_op L op t), H') \<and> store_rep H' (snd (tree_op L op t)) A' \<and>
    ((\<forall>p. op \<noteq> OpDelete p) \<longrightarrow> A = {..<kh_next H} \<longrightarrow> A' = {..<kh_next H'})"
proof (cases op)
  case (OpWrite p v)
  show ?thesis
  proof (cases "validatePath L p")
    case (Inr vec)
    from heap_assign_rep [of H root_addr t A vec v] assms obtain H' where
      "heap_assign vec v root_addr H = Ret H'" "assigned vec v root_addr t A H H'" by (auto simp: store_rep_def)
    moreover have "{..<kh_next H} \<union> {kh_next H..<kh_next H'} = {..<kh_next H'}" if "kh_next H \<le> kh_next H'"
      using that by (rule ivl_disj_un_one)
    ultimately show ?thesis
      using OpWrite Inr by (auto simp: heap_Write_def Kv_Write_def assigned_def store_rep_def)
  qed (use assms OpWrite in \<open>auto simp: heap_Write_def Kv_Write_def\<close>)
next
  case (OpDelete p)
  show ?thesis
  proof (cases "validatePath L p")
    case (Inr vec)
    from heap_Delete_loop_rep [of H root_addr t A vec] assms obtain H' A' where
      "heap_Delete_loop vec root_addr H = Ret (fst (Delete_loop vec t), H')"
      "rep (kh_nodes H') root_addr (snd (Delete_loop vec t)) A'" "kh_next H' = kh_next H"
      "dom (kh_nodes H') = dom (kh_nodes H)" by (auto simp: store_rep_def)
    with assms OpDelete Inr show ?thesis
      by (auto simp: heap_Delete_def Kv_Delete_def store_rep_def split: prod.split)
  qed (use assms OpDelete in \<open>auto simp: heap_Delete_def Kv_Delete_def\<close>)
next
  case (OpGet p)
  have "heap_Get L p H = Ret (Kv_Get L p t)"
    using heap_Get_loop_rep [of H root_addr t A] assms
    by (auto simp: heap_Get_def Kv_Get_def store_rep_def split: sum.split)
  with assms OpGet show ?thesis by auto
qed

lemma heap_ops_rep:
  "store_rep H t A \<Longrightarrow>
   \<exists>H' A'. heap_ops L ops H = Ret (fst (tree_ops L ops t), H') \<and> store_rep H' (snd (tree_ops L ops t)) A' \<and>
     ((\<forall>p. OpDelete p \<notin> set ops) \<longrightarrow> A = {..<kh_next H} \<longrightarrow> A' = {..<kh_next H'})"
proof (induction ops arbitrary: H t A)
  case (Cons op ops)
  from heap_op_rep [OF Cons(2), of L op] obtain H1 A1 where 1: "heap_op L op H = Ret (fst (tree_op L op t), H1)"
    "store_rep H1 (snd (tree_op L op t)) A1" "(\<forall>p. op \<noteq> OpDelete p) \<longrightarrow> A = {..<kh_next H} \<longrightarrow> A1 = {..<kh_next H1}"
    by blast
  from Cons(1) [OF 1(2)] obtain H' A' where "heap_ops L ops H1 = Ret (fst (tree_ops L ops (snd (tree_op L op t))), H')"
    "store_rep H' (snd (tree_ops L ops (snd (tree_op L op t)))) A'"
    "(\<forall>p. OpDelete p \<notin> set ops) \<longrightarrow> A1 = {..<kh_next H1} \<longrightarrow> A' = {..<kh_next H'}" by blast
  with 1 show ?case by (auto simp: split_def)
qed auto

subsection \<open>The destructor\<close>

text \<open>A tree has as many paths as objects.\<close>

lemma rep_card: "rep h a t A \<Longrightarrow> finite A \<Longrightarrow> finite (dom (abs_kv t)) \<and> card (dom (abs_kv t)) = card A"
proof (induction h a t A rule: rep.induct)
  case (1 h a node cs T F)
  let ?K = "fst ` set (no_children node)"
  have K: "s \<in> ?K \<longleftrightarrow> map_of (no_children node) s \<noteq> None" for s by (simp add: map_of_eq_None_iff)
  have T: "cs s = Some (T s)" "finite (dom (abs_kv (T s)))" "card (dom (abs_kv (T s))) = card (F s)" if "s \<in> ?K" for s
  proof -
    from that K obtain c where c: "map_of (no_children node) s = Some c" by auto
    have "finite (F s)" by (rule finite_subset [OF _ 1(9)]) auto
    with "1.IH" [OF c] show "cs s = Some (T s)" "finite (dom (abs_kv (T s)))" "card (dom (abs_kv (T s))) = card (F s)" by simp_all
  qed
  have out: "cs s = None" "F s = {}" if "s \<notin> ?K" for s using "1.hyps"(4,7) [of s] K [of s] that by blast+
  have F: "(\<Union>s. F s) = (\<Union>s \<in> ?K. F s)" using out(2) by (fastforce simp del: set_map)
  have fin: "finite (\<Union>s \<in> ?K. F s)" "a \<notin> (\<Union>s \<in> ?K. F s)" using 1(9) "1.hyps"(5) F by auto
  have D: "dom (abs_kv (Node cs (no_data node))) = insert [] (\<Union>s \<in> ?K. Cons s ` dom (abs_kv (T s)))"
  proof (rule set_eqI)
    fix p
    show "p \<in> dom (abs_kv (Node cs (no_data node))) \<longleftrightarrow> p \<in> insert [] (\<Union>s \<in> ?K. Cons s ` dom (abs_kv (T s)))"
    proof (cases p)
      case (Cons s q)
      have "abs_kv (Node cs (no_data node)) (s # q) = (if s \<in> ?K then abs_kv (T s) q else None)"
      proof (cases "s \<in> ?K")
        case True
        then have "s \<noteq> []" using "1.hyps"(3) by metis
        with True T(1) [OF True] show ?thesis by (simp only: abs_kv_Cons Node.sel option.case if_True if_False)
      next
        case False
        then show ?thesis by (simp only: abs_kv_Cons Node.sel out(1) [OF False] option.case if_False if_cancel)
      qed
      moreover have "s # q \<in> (\<Union>s \<in> ?K. Cons s ` dom (abs_kv (T s))) \<longleftrightarrow> s \<in> ?K \<and> abs_kv (T s) q \<noteq> None" by blast
      ultimately show ?thesis using Cons by (simp only: insert_iff domIff list.distinct split: if_split) blast
    qed (simp add: domIff)
  qed
  have "card (\<Union>s \<in> ?K. Cons s ` dom (abs_kv (T s))) = (\<Sum>s \<in> ?K. card (Cons s ` dom (abs_kv (T s))))"
    by (rule card_UN_disjoint) (use T(2) in auto)
  also have "\<dots> = (\<Sum>s \<in> ?K. card (F s))" by (rule sum.cong) (use T(3) in \<open>auto simp: card_image\<close>)
  also have "\<dots> = card (\<Union>s \<in> ?K. F s)"
    by (rule card_UN_disjoint [symmetric]) (use "1.hyps"(6) fin in auto)
  finally have "card (\<Union>s \<in> ?K. Cons s ` dom (abs_kv (T s))) = card (\<Union>s \<in> ?K. F s)" .
  moreover have "finite (\<Union>s \<in> ?K. Cons s ` dom (abs_kv (T s)))" "[] \<notin> (\<Union>s \<in> ?K. Cons s ` dom (abs_kv (T s)))"
    using T(2) by auto
  ultimately show ?case using fin unfolding D F by simp
qed

text \<open>
  Destroying a node releases exactly the objects of its tree, each once; the number of the objects
  is fuel enough.
\<close>

lemma delete_children_rep:
  assumes "\<And>s c H. (s, c) \<in> set xs \<Longrightarrow> (\<And>x. x \<in> F s \<Longrightarrow> kh_nodes H x = h x) \<Longrightarrow>
      \<exists>H'. delete_Node fuel order c H = Some (Ret H') \<and> kh_nodes H' = kh_nodes H |` (- F s) \<and> kh_next H' = kh_next H"
    and "\<And>s s'. s \<noteq> s' \<Longrightarrow> F s \<inter> F s' = {}" "distinct (map fst xs)" "\<And>x s. s \<in> fst ` set xs \<Longrightarrow> x \<in> F s \<Longrightarrow> kh_nodes H x = h x"
  shows "\<exists>H'. delete_children fuel order xs H = Some (Ret H') \<and> kh_nodes H' = kh_nodes H |` (- (\<Union>s \<in> fst ` set xs. F s)) \<and>
    kh_next H' = kh_next H"
  using assms(1,3,4)
proof (induction xs arbitrary: H)
  case (Cons e xs)
  obtain s c where e: "e = (s, c)" by (cases e)
  from Cons(2) [of s c H] Cons(4) [of s] e obtain H1 where
    1: "delete_Node fuel order c H = Some (Ret H1)" "kh_nodes H1 = kh_nodes H |` (- F s)" "kh_next H1 = kh_next H" by auto
  have "kh_nodes H1 x = h x" if "r \<in> fst ` set xs" "x \<in> F r" for x r
  proof -
    have "r \<noteq> s" using Cons(3) that(1) e by auto
    with assms(2) that(2) have "x \<notin> F s" by blast
    with Cons(4) [of r x] that show ?thesis by (simp add: 1(2) restrict_map_def)
  qed
  with Cons(1) [of H1] Cons(2,3) obtain H' where "delete_children fuel order xs H1 = Some (Ret H')"
    "kh_nodes H' = kh_nodes H1 |` (- (\<Union>s \<in> fst ` set xs. F s))" "kh_next H' = kh_next H1" by auto
  with 1 e show ?case by (auto simp: restrict_map_def fun_eq_iff)
qed (simp add: restrict_map_def)

lemma delete_Node_rep:
  assumes "rep h a t A" "finite A" "card A \<le> fuel" "\<And>xs. mset (order xs) = mset xs" "\<And>x. x \<in> A \<Longrightarrow> kh_nodes H x = h x"
  shows "\<exists>H'. delete_Node fuel order a H = Some (Ret H') \<and> kh_nodes H' = kh_nodes H |` (- A) \<and> kh_next H' = kh_next H"
  using assms(1-3,5)
proof (induction h a t A arbitrary: fuel H rule: rep.induct)
  case (1 h a node cs T F)
  let ?U = "\<Union>s. F s" and ?xs = "order (no_children node)"
  have xs: "set ?xs = set (no_children node)" "distinct (map fst ?xs)"
    using assms(4) "1.hyps"(2) by (metis mset_eq_setD, metis mset_map mset_eq_imp_distinct_iff)
  have fin: "finite ?U" "a \<notin> ?U" using 1(9) "1.hyps"(5) by auto
  with 1(10) obtain f where fuel: "fuel = Suc f" "card ?U \<le> f" by (cases fuel) auto
  have "F s = {}" if "s \<notin> fst ` set ?xs" for s
    using "1.hyps"(7) [of s] that by (simp add: xs(1) map_of_eq_None_iff)
  then have U: "(\<Union>s \<in> fst ` set ?xs. F s) = ?U" by (fastforce simp del: set_map)
  have "\<exists>H'. delete_children f order ?xs H = Some (Ret H') \<and> kh_nodes H' = kh_nodes H |` (- (\<Union>s \<in> fst ` set ?xs. F s)) \<and>
    kh_next H' = kh_next H"
  proof (rule delete_children_rep [where h = h])
    fix s c and H :: kv_heap
    assume "(s, c) \<in> set ?xs" and agree: "\<And>x. x \<in> F s \<Longrightarrow> kh_nodes H x = h x"
    then have c: "map_of (no_children node) s = Some c" using "1.hyps"(2) by (simp add: xs(1))
    have sub: "F s \<subseteq> ?U" by blast
    with fin(1) fuel(2) have "finite (F s)" "card (F s) \<le> f" by (auto intro: finite_subset card_mono order_trans)
    with "1.IH" [OF c] agree
    show "\<exists>H'. delete_Node f order c H = Some (Ret H') \<and> kh_nodes H' = kh_nodes H |` (- F s) \<and> kh_next H' = kh_next H" by blast
  next
    fix x s
    assume "x \<in> F s"
    then show "kh_nodes H x = h x" using 1(11) [of x] by blast
  qed (use xs(2) "1.hyps"(6) in auto)
  then obtain H' where "delete_children f order ?xs H = Some (Ret H')" "kh_nodes H' = kh_nodes H |` (- ?U)" "kh_next H' = kh_next H"
    unfolding U by blast
  moreover have "deref a H = Ret node" using 1(11) [of a] "1.hyps"(1) by (simp add: deref_def)
  ultimately show ?case by (auto simp: fuel(1) restrict_map_def fun_eq_iff)
qed

subsection \<open>Properties\<close>

text \<open>
  C9. The store with its nodes in memory answers every sequence of writes, deletes and reads as
  the tree does and never touches an object that does not exist: afterwards its root represents
  the tree, no object has two parents, and all objects that were ever made are still there.
\<close>

theorem heap_store_refines:
  "\<exists>H A. heap_ops L ops new_MemKvStore = Ret (fst (tree_ops L ops new_Node), H) \<and>
     rep (kh_nodes H) root_addr (snd (tree_ops L ops new_Node)) A \<and> dom (kh_nodes H) = {..<kh_next H}"
  using heap_ops_rep [OF store_rep_new, of L ops] unfolding store_rep_def by blast

text \<open>
  C23. Destroying the store after any operations ends, releases no object twice and releases one
  object for every path of the tree, in whatever order the tables are visited.  The objects of
  deleted paths are not among them and are never released; without deletes nothing is left.
\<close>

theorem heap_store_destruction:
  assumes "heap_ops L ops new_MemKvStore = Ret (rs, H)" "kh_next H \<le> fuel" "\<And>xs. mset (order xs) = mset xs"
  shows "\<exists>H'. delete_MemKvStore fuel order H = Some (Ret H') \<and>
    card (dom (kh_nodes H')) + card (dom (abs_kv (snd (tree_ops L ops new_Node)))) = kh_next H \<and>
    ((\<forall>p. OpDelete p \<notin> set ops) \<longrightarrow> kh_nodes H' = Map.empty)"
proof -
  let ?t = "snd (tree_ops L ops new_Node)"
  from heap_ops_rep [OF store_rep_new, of L ops] assms(1) obtain A where
    A: "rep (kh_nodes H) root_addr ?t A" "dom (kh_nodes H) = {..<kh_next H}"
      "(\<forall>p. OpDelete p \<notin> set ops) \<longrightarrow> {root_addr} = {..<kh_next new_MemKvStore} \<longrightarrow> A = {..<kh_next H}"
    by (auto simp: store_rep_def)
  have sub: "A \<subseteq> {..<kh_next H}" using rep_dom [OF A(1)] A(2) by simp
  then have fin: "finite A" "card A \<le> fuel" using assms(2) card_mono [OF _ sub] by (auto intro: finite_subset)
  from delete_Node_rep [OF A(1) fin assms(3), where H = H] obtain H' where
    H': "delete_MemKvStore fuel order H = Some (Ret H')" "kh_nodes H' = kh_nodes H |` (- A)"
    by (auto simp: delete_MemKvStore_def)
  have d: "dom (kh_nodes H') = {..<kh_next H} - A" using A(2) by (auto simp: H'(2))
  then have "card (dom (kh_nodes H')) + card A = kh_next H"
    using sub fin(1) card_mono [OF _ sub] by (simp add: card_Diff_subset)
  moreover have "kh_nodes H' = Map.empty" if "A = {..<kh_next H}"
    using d that by (simp flip: dom_eq_empty_conv)
  moreover have "{root_addr} = {..<kh_next new_MemKvStore}" by (simp add: root_addr_def new_MemKvStore_def lessThan_Suc)
  ultimately show ?thesis using H'(1) rep_card [OF A(1) fin(1)] A(3) by metis
qed

text \<open>A write and a delete of the same path: the node is still there after the destructor.\<close>

theorem heap_store_destruction_witness:
  "\<exists>rs H H'. heap_ops example_lib [OpWrite ''/a'' ''v'', OpDelete ''/a''] new_MemKvStore = Ret (rs, H) \<and>
     delete_MemKvStore 2 rev H = Some (Ret H') \<and> card (dom (kh_nodes H')) = 1"
proof -
  let ?ops = "[OpWrite ''/a'' ''v'', OpDelete ''/a'']"
  let ?H = "\<lparr>kh_nodes = [0 \<mapsto> \<lparr>no_children = [], no_data = []\<rparr>, 1 \<mapsto> \<lparr>no_children = [], no_data = ''v''\<rparr>], kh_next = 2\<rparr>"
  have H: "heap_ops example_lib ?ops new_MemKvStore = Ret ([Inr [], Inr []], ?H)"
    by (simp add: heap_Write_def heap_Delete_def heap_assign_def example_path new_MemKvStore_def root_addr_def deref_def
        emplace_child_def new_Node_obj_def status_answer_def fun_upd_twist)
  have t: "snd (tree_ops example_lib ?ops new_Node) = new_Node"
    by (simp add: Kv_Write_def Kv_Delete_def example_path new_Node_def)
  have "dom (abs_kv new_Node) = {[]}" by (auto simp: abs_new_Node split: if_splits)
  with heap_store_destruction [OF H, of 2 rev] t H show ?thesis by auto
qed

end
