(* ===== verification/Descriptors.thy ===== *)
theory Descriptors
  imports WalFaults
begin

section \<open>The open descriptors of the log\<close>

text \<open>
  Which descriptors of the process the log holds: \<^verbatim>\<open>env_posix.cc\<close> opens and closes them,
  \<^verbatim>\<open>log_manager.cc\<close> and \<^verbatim>\<open>log_writer.cc\<close> own the file that is written, and
  \<^verbatim>\<open>ReadFullyToBuffer\<close> of \<^verbatim>\<open>env_util.cc\<close> opens every segment that is read.
\<close>

subsection \<open>The contract\<close>

text \<open>
  \<open>fds k\<close> are the open descriptors, \<open>own f\<close> is the one of a file object, and \<open>fresh k\<close> says that
  the next descriptor is not in use.
\<close>

locale descriptor_table =
  fixes ops :: "('f, 'k) WritableFile"
    and env :: "('f, 'r, 'k) Env"
    and own :: "'f \<Rightarrow> 'd"
    and fds :: "'k \<Rightarrow> 'd set"
    and fresh :: "'k \<Rightarrow> bool"
  assumes New_fds: "fresh k \<Longrightarrow> env_NewWritableFile env p md sync k = (Inr f, k') \<Longrightarrow>
          fresh k' \<and> own f \<notin> fds k \<and> fds k' = insert (own f) (fds k)"
    and New_error_fds: "fresh k \<Longrightarrow> env_NewWritableFile env p md sync k = (Inl e, k') \<Longrightarrow> fresh k' \<and> fds k' = fds k"
    and Append_fds: "fresh k \<Longrightarrow> own f \<in> fds k \<Longrightarrow> wf_Append ops f d k = (s, f', k') \<Longrightarrow>
          fresh k' \<and> own f' = own f \<and> fds k' = fds k"
    and Sync_fds: "fresh k \<Longrightarrow> own f \<in> fds k \<Longrightarrow> wf_Sync ops f k = (s, f', k') \<Longrightarrow>
          fresh k' \<and> own f' = own f \<and> fds k' = fds k"
    and Close_fds: "fresh k \<Longrightarrow> own f \<in> fds k \<Longrightarrow> wf_Close ops f k = (s, f', k') \<Longrightarrow>
          fresh k' \<and> fds k' = fds k - {own f}"

text \<open>What a manager holds: the descriptor of its current writer.\<close>

definition held :: "('f \<Rightarrow> 'd) \<Rightarrow> 'f LogManager \<Rightarrow> 'd set" where
  "held own m = (case lm_current m of None \<Rightarrow> {} | Some w \<Rightarrow> {own (lw_file w)})"

lemma held_simps [simp]:
  "held own (m\<lparr>lm_current := Some w\<rparr>) = {own (lw_file w)}" "held own (m\<lparr>lm_current := None\<rparr>) = {}"
  "held own (m\<lparr>lm_lastIndex := l\<rparr>) = held own m" "held own (m\<lparr>lm_empty := b\<rparr>) = held own m"
  "held own (m\<lparr>lm_files := fs\<rparr>) = held own m" "lm_current m = None \<Longrightarrow> held own m = {}"
  "lm_current m = Some w \<Longrightarrow> held own m = {own (lw_file w)}" "held own (new_LogManager options) = {}"
  by (simp_all add: held_def new_LogManager_def)

context descriptor_table
begin

text \<open>\<open>keeps m k m' k'\<close>: apart from what the manager holds, the open descriptors are the same.\<close>

definition keeps :: "'f LogManager \<Rightarrow> 'k \<Rightarrow> 'f LogManager \<Rightarrow> 'k \<Rightarrow> bool" where
  "keeps m k m' k' \<longleftrightarrow> fresh k' \<and> held own m' \<subseteq> fds k' \<and> fds k' - held own m' = fds k - held own m"

lemma Append_batch_fds:
  assumes "Append_batch D ops w vec lo hi hs k = Ret (r, w', k')" "fresh k" "own (lw_file w) \<in> fds k"
  shows "fresh k' \<and> own (lw_file w') = own (lw_file w) \<and> fds k' = fds k"
proof -
  from assms(1) obtain d n where "(case wf_Append ops (lw_file w) d k of (s, f', k') \<Rightarrow>
      if s \<noteq> OK then Ret (Inl s, w\<lparr>lw_file := f'\<rparr>, k')
      else Ret (Inr (lo + n), w\<lparr>lw_file := f', lw_meta := (lw_meta w)\<lparr>numEntries := numEntries (lw_meta w) + n\<rparr>\<rparr>, k')) = Ret (r, w', k')"
    by (simp add: Append_batch_def Let_def split_def) blast
  with Append_fds [OF assms(2,3)] show ?thesis by (auto split: prod.splits if_splits)
qed

lemma LogWriter_Append_fds:
  assumes "LogWriter_Append D ops w vec lo hi hs k = Ret (r, w', k')" "fresh k" "own (lw_file w) \<in> fds k"
  shows "fresh k' \<and> own (lw_file w') = own (lw_file w) \<and> fds k' = fds k"
proof (cases "lw_empty w")
  case True
  obtain s f1 k1 where a: "wf_Append ops (lw_file w) kLogSegmentHeaderMagic k = (s, f1, k1)" by (metis prod.exhaust)
  note A = Append_fds [OF assms(2,3) a]
  show ?thesis
  proof (cases "s = OK")
    case ok: True
    with True assms(1) a have "Append_batch D ops (w\<lparr>lw_file := f1, lw_empty := False\<rparr>) vec lo hi hs k1 = Ret (r, w', k')"
      by (simp add: LogWriter_Append_def)
    from Append_batch_fds [OF this] A assms(3) show ?thesis by simp
  qed (use True assms(1) a A in \<open>auto simp: LogWriter_Append_def\<close>)
qed (use assms Append_batch_fds in \<open>simp add: LogWriter_Append_def\<close>)

lemma finishCurrentWriter_fds:
  assumes "finishCurrentWriter ops m k = Ret (m', k')" "fresh k" "held own m \<subseteq> fds k"
  shows "fresh k' \<and> held own m' = {} \<and> fds k' = fds k - held own m"
proof -
  from assms(1) obtain w s f1 k1 s2 f2 where w: "lm_current m = Some w" "wf_Sync ops (lw_file w) k = (s, f1, k1)"
    "wf_Close ops f1 k1 = (s2, f2, k')" "lm_current m' = None"
    by (auto simp: finishCurrentWriter_def LogWriter_Finish_def split: option.splits prod.splits sum.splits if_splits)
  have f: "own (lw_file w) \<in> fds k" using assms(3) w(1) by simp
  from Sync_fds [OF assms(2) f w(2)] Close_fds [OF _ _ w(3)] f w(1,4) show ?thesis by simp
qed

lemma doWrite_fds:
  assumes "doWrite D env' ops' vec lo hs m k = Some r" "env' = env" "ops' = ops" "r = Ret (s, m', k')"
    "fresh k" "held own m \<subseteq> fds k"
  shows "keeps m k m' k'"
  using assms(2-)
proof (induction D env' ops' vec lo hs m k r rule: doWrite.raw_induct)
  case (1 doW D env' ops' vec lo hs m k r)
  note eqs = \<open>env' = env\<close> \<open>ops' = ops\<close> \<open>r = Ret (s, m', k')\<close>
  let ?writer = "case lm_current m of None \<Rightarrow> LogWriter_New D env m k | Some w \<Rightarrow> (Inr w, k)"
  show ?case
  proof (cases "?writer" rule: pair_sum_cases)
    case (Inl e k1)
    then have "m' = m" "k' = k1" "lm_current m = None" "fresh k1 \<and> fds k1 = fds k"
      using 1(2) eqs \<open>fresh k\<close> by (auto simp: LogWriter_New_def Let_def dest: New_error_fds split: option.splits prod.splits sum.splits)
    then show ?thesis by (simp add: keeps_def)
  next
    case (Inr w k1)
    have w: "fresh k1" "own (lw_file w) \<in> fds k1" "fds k1 - {own (lw_file w)} = fds k - held own m"
      using Inr 1(6,7) by (auto simp: LogWriter_New_def Let_def new_LogWriter_def dest: New_fds split: option.splits prod.splits sum.splits)
    show ?thesis
    proof (cases "LogWriter_Append D ops w vec lo (length vec) hs k1" rule: outcome_sum_cases)
      case (Inl e w2 k2)
      with 1(2) eqs \<open>?writer = (Inr w, k1)\<close> have "m' = m\<lparr>lm_current := Some w2\<rparr>" "k' = k2" by auto
      with LogWriter_Append_fds [OF Inl w(1,2)] w show ?thesis by (simp add: keeps_def)
    next
      case app: (Inr it w2 k2)
      note A = LogWriter_Append_fds [OF app w(1,2)]
      show ?thesis
      proof (cases "it = length vec")
        case True
        with 1(2) eqs \<open>?writer = (Inr w, k1)\<close> app have "m' = m\<lparr>lm_current := Some w2\<rparr>" "k' = k2" by auto
        with A w show ?thesis by (simp add: keeps_def)
      next
        case False
        let ?m = "m\<lparr>lm_current := Some w2, lm_lastIndex := entry_index D (vec ! (it - 1))\<rparr>"
        from False 1(2) eqs \<open>?writer = (Inr w, k1)\<close> app obtain m3 k3 where
          fin: "finishCurrentWriter ops ?m k2 = Ret (m3, k3)" and rec: "doW D env ops vec it None m3 k3 = Some r"
          by (auto split: outcome.splits if_splits)
        have "held own ?m = {own (lw_file w2)}" by (simp add: held_def)
        with finishCurrentWriter_fds [OF fin] A w have F: "fresh k3" "held own m3 = {}" "fds k3 = fds k - held own m" by auto
        then have "keeps m3 k3 m' k'" using 1(1) [OF rec refl refl eqs(3)] by simp
        with F show ?thesis by (simp add: keeps_def)
      qed
    qed (use 1(2) eqs \<open>?writer = (Inr w, k1)\<close> in auto)
  qed
qed (rule assms)

lemma make_call_fds:
  assumes "make_call D env ops c m k = Some (Ret (s, m', k'))" "fresh k" "held own m \<subseteq> fds k"
  shows "keeps m k m' k'"
proof (cases c)
  case (CallWrite vec)
  show ?thesis
  proof (cases "vec = []")
    case False
    from Write_entries_doWrite [OF False, of D env ops m k] obtain l b where
      w: "Write_entries D env ops vec m k = doWrite D env ops vec 0 None (m\<lparr>lm_lastIndex := l, lm_empty := b\<rparr>) k" by blast
    with doWrite_fds [OF _ refl refl refl assms(2), of D vec 0 None "m\<lparr>lm_lastIndex := l, lm_empty := b\<rparr>"] assms CallWrite
    show ?thesis by (simp add: keeps_def)
  qed (use assms CallWrite in \<open>auto simp: Write_entries_def LogManager_Write_def keeps_def\<close>)
next
  case CallSync
  with assms show ?thesis
    by (auto simp: LogManager_Sync_def LogWriter_Sync_def keeps_def dest: Sync_fds split: option.splits prod.splits)
next
  case CallClose
  with assms show ?thesis
    by (auto simp: LogManager_Close_def keeps_def dest: finishCurrentWriter_fds split: option.splits)
next
  case CallGC
  with assms show ?thesis by (auto simp: LogManager_GC_def keeps_def)
qed

lemma try_calls_fds:
  "try_calls D env ops cs m k = Some (acked, failed, s, m', k') \<Longrightarrow> fresh k \<Longrightarrow> held own m \<subseteq> fds k \<Longrightarrow> keeps m k m' k'"
proof (induction cs arbitrary: m k acked)
  case (Cons c cs)
  from Cons.prems(1) show ?case
  proof (cases rule: try_calls_Cons)
    case Failed
    with make_call_fds Cons.prems show ?thesis by blast
  next
    case (Returned m1 k1 acked1)
    from make_call_fds [OF Returned(1) Cons.prems(2,3)] Cons.IH [OF Returned(2)] show ?thesis
      by (simp add: keeps_def)
  qed
qed (simp add: keeps_def)

text \<open>Whatever calls a process has made, destroying the log closes the one file it still holds.\<close>

lemma delete_LogManager_fds:
  assumes "try_calls D env ops cs m k = Some (acked, failed, s, m', k')" "delete_LogManager ops m' k' = Ret k2"
    "fresh k" "held own m \<subseteq> fds k"
  shows "fds k2 = fds k - held own m"
proof -
  from try_calls_fds [OF assms(1,3,4)] have K: "fresh k'" "held own m' \<subseteq> fds k'" "fds k' - held own m' = fds k - held own m"
    by (simp_all add: keeps_def)
  show ?thesis
  proof (cases "lm_current m'")
    case None
    with assms(2) K(3) show ?thesis by (simp add: delete_LogManager_def LogManager_Close_def)
  next
    case (Some w)
    with assms(2) obtain m2 where "finishCurrentWriter ops m' k' = Ret (m2, k2)"
      by (auto simp: delete_LogManager_def LogManager_Close_def)
    from finishCurrentWriter_fds [OF this K(1,2)] K(3) show ?thesis by simp
  qed
qed

end

subsection \<open>The POSIX environment\<close>

definition next_unused :: "kernel \<Rightarrow> bool" where
  "next_unused k \<longleftrightarrow> (\<forall>fd \<ge> k_next k. k_fds k fd = None)"

lemma sys_open_fds:
  "sys_open p creat excl trunc k = (r, k') \<Longrightarrow>
   (case r of Inl e \<Rightarrow> k_fds k' = k_fds k \<and> k_next k' = k_next k
    | Inr fd \<Rightarrow> fd = k_next k \<and> k_fds k' = (k_fds k)(fd \<mapsto> (p, 0)) \<and> k_next k' = k_next k + 1)"
  by (auto simp: sys_open_def Let_def dest!: sys_enter_answers
      split: prod.splits option.splits sys_answer.splits if_splits)

lemma sys_write_fds:
  "sys_write fd d k = (r, k') \<Longrightarrow> dom (k_fds k') = dom (k_fds k) \<and> k_next k' = k_next k"
  by (auto simp: sys_write_def Let_def dest!: sys_enter_answers
      split: prod.splits option.splits sys_answer.splits if_splits)

lemma Append_loop_fds:
  "Append_loop fd src k = (e, k') \<Longrightarrow> dom (k_fds k') = dom (k_fds k) \<and> k_next k' = k_next k"
proof (induction fd src k rule: Append_loop.induct)
  case (1 fd src k)
  obtain r k1 where w: "sys_write fd src k = (r, k1)" by fastforce
  note f = sys_write_fds [OF w]
  show ?case
  proof (cases "src = []")
    case False
    from 1(3) False w have "e = None \<and> k' = k \<or> r = Inl EINTR \<and> Append_loop fd src k1 = (e, k') \<or> k' = k1 \<or>
        (\<exists>n. r = Inr n \<and> Append_loop fd (drop n src) k1 = (e, k'))"
      by (subst (asm) Append_loop.simps) (auto split: sum.splits if_splits)
    with f 1(1) [OF False w [symmetric]] 1(2) [OF False w [symmetric]] show ?thesis by (elim disjE exE conjE) simp_all
  qed (use 1(3) in simp)
qed

lemma next_unused_same: "dom (k_fds k') = dom (k_fds k) \<Longrightarrow> k_next k' = k_next k \<Longrightarrow> next_unused k \<Longrightarrow> next_unused k'"
  unfolding next_unused_def by (metis domIff)

lemma sys_close_fds:
  "sys_close fd k = (e, k') \<Longrightarrow> k_fds k' = (k_fds k)(fd := None) \<and> k_next k' = k_next k"
  by (auto simp: sys_close_def sys_simple_def dest!: sys_enter_answers
      split: prod.splits option.splits sys_answer.splits)

lemma ftruncate_retry_fds:
  "ftruncate_retry fd n k = (e, k') \<Longrightarrow> k_fds k' = k_fds k \<and> k_next k' = k_next k"
proof (induction fd n k rule: ftruncate_retry.induct)
  case (1 fd n k)
  obtain r k1 where t: "sys_ftruncate fd n k = (r, k1)" by fastforce
  have f: "k_fds k1 = k_fds k \<and> k_next k1 = k_next k"
    using t by (auto simp: sys_ftruncate_def sys_simple_def Let_def dest!: sys_enter_answers
        split: prod.splits option.splits sys_answer.splits)
  from 1(2) t have "r = Some EINTR \<and> ftruncate_retry fd n k1 = (e, k') \<or> k' = k1"
    by (subst (asm) ftruncate_retry.simps) (auto split: option.splits if_splits)
  with f 1(1) [OF t [symmetric]] show ?case by (elim disjE conjE) simp_all
qed

lemma Posix_Sync_fds:
  "Posix_Sync f k = (s, f', k') \<Longrightarrow> k_fds k' = k_fds k \<and> k_next k' = k_next k \<and> pf_fd f' = pf_fd f"
  by (auto simp: Posix_Sync_def DoSync_def sys_fdatasync_def sys_simple_def Let_def dest!: sys_enter_answers
      split: prod.splits option.splits sys_answer.splits if_splits)

text \<open>\<^verbatim>\<open>Close\<close> gives the descriptor back on every path.\<close>

lemma Posix_Close_fds:
  assumes "Posix_Close ok_bool f k = (s, f', k')"
  shows "k_fds k' = (k_fds k)(pf_fd f := None) \<and> k_next k' = k_next k"
proof -
  obtain s1 f1 k1 where t: "(if pf_filesize f < pf_pre_allocated_size f then
       (case ftruncate_retry (pf_fd f) (unat (pf_filesize f)) k of
          (Some e, k') \<Rightarrow> (IOError, f\<lparr>pf_pending_sync := True\<rparr>, k') | (None, k') \<Rightarrow> (OK, f, k'))
     else (OK, f, k)) = (s1, f1, k1)" by (rule prod_cases3)
  have f1: "pf_fd f1 = pf_fd f" "k_fds k1 = k_fds k" "k_next k1 = k_next k"
    using t by (auto dest!: ftruncate_retry_fds split: if_splits prod.splits option.splits)
  obtain s2 f2 k2 where u: "(if pf_sync_on_close f1 then
       (case Posix_Sync f1 k1 of (sync_status, f', k') \<Rightarrow> (if \<not> ok_bool then (if ok_bool then sync_status else s1) else s1, f', k'))
     else (s1, f1, k1)) = (s2, f2, k2)" by (rule prod_cases3)
  have f2: "pf_fd f2 = pf_fd f" "k_fds k2 = k_fds k" "k_next k2 = k_next k"
    using u f1 by (auto dest!: Posix_Sync_fds split: if_splits prod.splits)
  obtain e k3 where c: "sys_close (pf_fd f2) k2 = (e, k3)" by fastforce
  have "k' = k3" using assms by (simp only: Posix_Close_def Let_def t prod.case u c) (cases e; simp)
  with sys_close_fds [OF c] f2 show ?thesis by simp
qed

lemma Posix_New_fds:
  "Posix_NewWritableFile B p md sync k = (r, k') \<Longrightarrow>
   (case r of Inl e \<Rightarrow> k_fds k' = k_fds k \<and> k_next k' = k_next k
    | Inr f \<Rightarrow> pf_fd f = k_next k \<and> k_fds k' = (k_fds k)(k_next k \<mapsto> (p, 0)) \<and> k_next k' = k_next k + 1)"
  by (auto simp: Posix_NewWritableFile_def DoOpen_def new_PosixWritableFile_def dest!: sys_open_fds
      split: prod.splits sum.splits CreateMode.splits if_splits)

interpretation posix_fds: descriptor_table "PosixWritableFile_ops ok_bool" "PosixEnv B" pf_fd "\<lambda>k. dom (k_fds k)" next_unused
proof (unfold_locales, goal_cases)
  case (1 k p md sync f k')
  then have "Posix_NewWritableFile B p md sync k = (Inr f, k')" by (simp add: PosixEnv_def)
  from Posix_New_fds [OF this] 1(1) show ?case by (auto simp: next_unused_def)
next
  case (2 k p md sync e k')
  then have "Posix_NewWritableFile B p md sync k = (Inl e, k')" by (simp add: PosixEnv_def)
  from Posix_New_fds [OF this] 2(1) show ?case by (simp add: next_unused_def)
next
  case (3 k f d s f' k')
  then obtain e where "Append_loop (pf_fd f) d k = (e, k')" "pf_fd f' = pf_fd f"
    by (auto simp: PosixWritableFile_ops_def Posix_Append_def split: prod.splits option.splits)
  with Append_loop_fds 3(1) next_unused_same show ?case by blast
next
  case (4 k f s f' k')
  then have "Posix_Sync f k = (s, f', k')" by (simp add: PosixWritableFile_ops_def)
  from Posix_Sync_fds [OF this] 4(1) show ?case by (simp add: next_unused_def)
next
  case (5 k f s f' k')
  then have "Posix_Close ok_bool f k = (s, f', k')" by (simp add: PosixWritableFile_ops_def)
  from Posix_Close_fds [OF this] 5(1) show ?case by (auto simp: next_unused_def)
qed

subsection \<open>Reading segments\<close>

lemma pread_retry_fds:
  "pread_retry fd n off k = (r, k') \<Longrightarrow> k_fds k' = k_fds k \<and> k_next k' = k_next k"
proof (induction fd n off k rule: pread_retry.induct)
  case (1 fd n off k)
  obtain r1 k1 where t: "sys_pread fd n off k = (r1, k1)" by fastforce
  have f: "k_fds k1 = k_fds k \<and> k_next k1 = k_next k"
    using t by (auto simp: sys_pread_def dest!: sys_enter_answers
        split: prod.splits option.splits sys_answer.splits if_splits)
  from 1(2) t have "r1 = Inl EINTR \<and> pread_retry fd n off k1 = (r, k') \<or> k' = k1"
    by (subst (asm) pread_retry.simps) (auto split: sum.splits if_splits)
  with f 1(1) [OF t [symmetric]] show ?case by (elim disjE conjE) simp_all
qed

lemma ReadFully_keeps:
  assumes read: "\<And>off n k r k'. raf_Read ops f off n k = (r, k') \<Longrightarrow> P k' = P k"
    and "ReadFully ops f off remain acc k = Ret (r, k')"
  shows "P k' = P k"
  using assms(2)
proof (induction remain arbitrary: off acc k rule: less_induct)
  case (less remain)
  obtain s res k1 where rd: "raf_Read ops f off remain k = ((s, res), k1)" by (metis prod.exhaust)
  show ?case
  proof (cases "remain > 0 \<and> s = OK \<and> res \<noteq> [] \<and> length res \<le> remain")
    case True
    with less.prems rd have "ReadFully ops f (off + of_nat (length res)) (remain - length res) (acc @ res) k1 = Ret (r, k')"
      by (subst (asm) ReadFully.simps) simp
    moreover have "remain - length res < remain" using True by (cases res) auto
    ultimately have "P k' = P k1" by (intro less.IH)
    with read [OF rd] show ?thesis by simp
  next
    case False
    with less.prems rd have "k' = k \<or> k' = k1" by (subst (asm) ReadFully.simps) (auto split: if_splits)
    with read [OF rd] show ?thesis by auto
  qed
qed

text \<open>The file that is opened to be read is not closed.\<close>

lemma ReadFullyToBuffer_fds:
  assumes "ReadFullyToBuffer (PosixEnv B) (PosixRandomAccessFile_ops B) p k = Ret (r, k')"
  shows "(\<exists>e. r = Inl e \<and> e \<noteq> OK) \<and> k_fds k' = k_fds k \<and> k_next k' = k_next k \<or>
    k_fds k' = (k_fds k)(k_next k \<mapsto> (p, 0)) \<and> k_next k' = k_next k + 1"
proof -
  obtain r1 k1 where o: "sys_open p False False False k = (r1, k1)" by fastforce
  note O = sys_open_fds [OF o]
  show ?thesis
  proof (cases r1)
    case (Inl e)
    with assms o O show ?thesis by (auto simp: ReadFullyToBuffer_def PosixEnv_def Posix_NewRandomAccessFile_def)
  next
    case (Inr fd)
    let ?f = "\<lparr>pr_filename = p, pr_fd = fd\<rparr>"
    let ?P = "\<lambda>k. (k_fds k, k_next k)"
    have "k' = k1 \<or> (\<exists>n. ReadFully (PosixRandomAccessFile_ops B) ?f 0 n [] k1 = Ret (r, k'))"
      using assms o Inr by (auto simp: ReadFullyToBuffer_def PosixEnv_def Posix_NewRandomAccessFile_def split: sum.splits)
    moreover have "?P k2 = ?P k0"
      if "raf_Read (PosixRandomAccessFile_ops B) ?f off n k0 = (r, k2)" for off n k0 r k2
      using that by (auto simp: PosixRandomAccessFile_ops_def Posix_Read_def dest: pread_retry_fds split: prod.splits sum.splits)
    then have "?P k' = ?P k1" if "ReadFully (PosixRandomAccessFile_ops B) ?f 0 n [] k1 = Ret (r, k')" for n
      using ReadFully_keeps [where P = ?P, OF _ that] by blast
    ultimately have "?P k' = ?P k1" by blast
    with O Inr show ?thesis by simp
  qed
qed

lemma recover_segments_fds:
  "recover_segments D (PosixEnv B) (PosixRandomAccessFile_ops B) wals mem m k = Ret (OK, mem', m', k') \<Longrightarrow>
   length (lm_files m') = length (lm_files m) + length wals \<and> lm_current m' = lm_current m \<and>
   lm_lastIndex m' = lm_lastIndex m \<and> k_next k' = k_next k + int (length wals) \<and>
   dom (k_fds k') = dom (k_fds k) \<union> {k_next k..<k_next k + int (length wals)}"
proof (induction wals arbitrary: mem m k)
  case (Cons w wals)
  obtain i st where w: "w = (i, st)" by (cases w)
  let ?p = "segment_path D (log_dir (lm_options m)) i st"
  from Cons.prems w obtain mem1 meta k1 where
    rd: "ReadSegmentIntoMemoryStorage D (PosixEnv B) (PosixRandomAccessFile_ops B) ?p (Some mem) new_SegmentMetaData
      (verify_checksum (lm_options m)) k = Ret (OK, mem1, meta, k1)"
    and rest: "recover_segments D (PosixEnv B) (PosixRandomAccessFile_ops B) wals mem1 (m\<lparr>lm_files := lm_files m @ [meta]\<rparr>) k1 = Ret (OK, mem', m', k')"
    by (auto simp: Let_def split: if_splits)
  from rd obtain r k0 where r: "ReadFullyToBuffer (PosixEnv B) (PosixRandomAccessFile_ops B) ?p k = Ret (r, k0)"
    by (auto simp: ReadSegmentIntoMemoryStorage_def)
  with rd have "k0 = k1" "\<not> (\<exists>e. r = Inl e \<and> e \<noteq> OK)" by (cases r; auto simp: ReadSegmentIntoMemoryStorage_def)+
  with ReadFullyToBuffer_fds [OF r] have f: "dom (k_fds k1) = insert (k_next k) (dom (k_fds k))" "k_next k1 = k_next k + 1" by auto
  have "insert (k_next k) {k_next k + 1..<k_next k + 1 + int (length wals)} = {k_next k..<k_next k + int (length (w # wals))}"
    by auto
  with Cons.IH [OF rest] f show ?case by (simp flip: Un_insert_right)
qed simp

text \<open>The library creates directories without opening files.\<close>

definition fs_keeps_fds :: "fslib \<Rightarrow> bool" where
  "fs_keeps_fds B \<longleftrightarrow> (\<forall>d k c k'. fs_create_directories B d k = (c, k') \<longrightarrow> k_fds k' = k_fds k \<and> k_next k' = k_next k)"

lemma Recover_fds:
  assumes "Recover D (PosixEnv B) (PosixRandomAccessFile_ops B) options None k = Ret (OK, mem, Some m, k')" "fs_keeps_fds B"
  shows "lm_current m = None \<and> lm_lastIndex m = 0 \<and> k_next k' = k_next k + int (SegmentNum m) \<and>
    dom (k_fds k') = dom (k_fds k) \<union> {k_next k..<k_next k + int (SegmentNum m)}"
proof -
  obtain c k1 where c: "fs_create_directories B (log_dir options) k = (c, k1)" by fastforce
  have k1: "k_fds k1 = k_fds k" "k_next k1 = k_next k" using assms(2) c unfolding fs_keeps_fds_def by blast+
  from assms(1) c consider (Empty) "m = new_LogManager options" "k' = k1"
    | (Segments) wals mem' where "recover_segments D (PosixEnv B) (PosixRandomAccessFile_ops B) wals (mem_new D)
        ((new_LogManager options)\<lparr>lm_empty := False\<rparr>) k1 = Ret (OK, mem', m, k')"
    by (auto simp: Recover_def PosixEnv_def boost_status_def Let_def split: if_splits)
  then show ?thesis
  proof cases
    case Empty
    with k1 show ?thesis by (simp add: SegmentNum_def new_LogManager_def)
  next
    case Segments
    from recover_segments_fds [OF this] k1 show ?thesis by (simp add: SegmentNum_def new_LogManager_def)
  qed
qed

subsection \<open>Properties\<close>

text \<open>
  C24. A process recovers a log, makes any calls of it, and destroys it, and all of these come back.  Writing, syncing and
  closing hold one descriptor at most and give it back; but every segment that was read during
  recovery has left a descriptor open, which nothing closes before the process ends.
\<close>

theorem log_descriptors:
  assumes "Recover D (PosixEnv B) (PosixRandomAccessFile_ops B) options None k = Ret (OK, mem, Some m, k1)"
    "try_calls D (PosixEnv B) (PosixWritableFile_ops ok_bool) cs m k1 = Some (acked, failed, s, m2, k2)"
    "delete_LogManager (PosixWritableFile_ops ok_bool) m2 k2 = Ret k3" "next_unused k" "fs_keeps_fds B"
  shows "\<exists>leaked. card leaked = SegmentNum m \<and> leaked \<inter> dom (k_fds k) = {} \<and> dom (k_fds k3) = dom (k_fds k) \<union> leaked"
proof -
  note R = Recover_fds [OF assms(1,5)]
  have "fd \<notin> dom (k_fds k1)" if "k_next k1 \<le> fd" for fd using R assms(4) that by (auto simp: next_unused_def)
  then have k1: "next_unused k1" unfolding next_unused_def by (metis domIff)
  let ?leaked = "{k_next k..<k_next k + int (SegmentNum m)}"
  have "dom (k_fds k3) = dom (k_fds k) \<union> ?leaked"
    using posix_fds.delete_LogManager_fds [OF assms(2,3) k1] R by simp
  moreover have "?leaked \<inter> dom (k_fds k) = {}" using assms(4) by (auto simp: next_unused_def)
  ultimately show ?thesis by (intro exI [of _ ?leaked]) simp
qed

theorem log_descriptors_witness:
  "\<exists>mem m k1 k3. Recover example_deps (PosixEnv map_fslib) (PosixRandomAccessFile_ops map_fslib) example_options None
      example_full_disk = Ret (OK, mem, Some m, k1) \<and> delete_LogManager (PosixWritableFile_ops True) m k1 = Ret k3 \<and>
     (\<exists>fd. fd \<noteq> 3 \<and> dom (k_fds k3) = {3, fd})"
proof -
  have "SegmentNum example_room = 1" by (simp add: SegmentNum_def example_room_def)
  moreover have "length c < 2 ^ 64" if "file_map example_full_disk p = Some c" for p c
    using that example_segment_length [of 1] by (auto simp: example_full_disk_def split: if_splits)
  ultimately obtain m k1 where
    R: "Recover example_deps (PosixEnv map_fslib) (PosixRandomAccessFile_ops map_fslib) example_options None example_full_disk =
      Ret (OK, Some (fold (mem_Append example_deps) [(1, 1, [7])] (mem_new example_deps)), Some m, k1)" "SegmentNum m = 1"
    using posix_wal_recovers [OF map_fslib_size example_fmt map_fslib_dir example_room_wal, of example_options example_full_disk]
    by (fastforce simp: example_room_def example_short_disk_def example_full_disk_def seg_entries_def)
  have keeps: "fs_keeps_fds map_fslib" by (simp add: fs_keeps_fds_def map_fslib_def)
  have d: "delete_LogManager (PosixWritableFile_ops True) m k1 = Ret k1"
    using Recover_fds [OF R(1) keeps] by (simp add: delete_LogManager_def LogManager_Close_def)
  have n: "next_unused example_full_disk" "dom (k_fds example_full_disk) = {3}" by (simp_all add: next_unused_def example_full_disk_def)
  from log_descriptors [OF R(1) _ d n(1) keeps, of "[]"] R(2) n(2) obtain leaked where
    "card leaked = 1" "leaked \<inter> {3} = {}" "dom (k_fds k1) = {3} \<union> leaked" by auto
  with R(1) d show ?thesis by (auto simp: card_1_singleton_iff)
qed

text \<open>
  After a recovery the manager does not know the last index: the next segment is named as if it
  started at index 1.
\<close>

lemma recovered_segment_start:
  assumes "Recover D (PosixEnv B) (PosixRandomAccessFile_ops B) options None k = Ret (OK, mem, Some m, k1)" "fs_keeps_fds B"
    "LogWriter_New D (PosixEnv B) m k1 = (Inr w, k2)"
  shows "fileName (lw_meta w) = segment_path D (log_dir (lm_options m)) (of_nat (SegmentNum m) + 1) 1"
  using Recover_fds [OF assms(1,2)] assms(3)
  by (auto simp: LogWriter_New_def Let_def new_LogWriter_def SegmentNum_def split: prod.splits sum.splits)

end
