(* ===== verification/UnitTests.thy ===== *)
theory UnitTests
  imports TestSupport Shutdown MemKvHeap
begin

section \<open>The unit tests on the model\<close>

text \<open>
  The tests of the repository, translated like the code they test and proved to pass.  A test that
  runs over a table of values or over random data is a definition that takes the data, and passes
  for all of them.  An assertion is a conjunct; code of third parties is a parameter here too.
\<close>

subsection \<open>coding_test.cc\<close>

fun Fixed32_loop :: "platform \<Rightarrow> u32 list \<Rightarrow> bytes \<Rightarrow> bool" where
  "Fixed32_loop P [] p = True"
| "Fixed32_loop P (v # vs) p = (DecodeFixed32 P p = Ret v \<and> Fixed32_loop P vs (drop 4 p))"

definition TEST_Fixed32 :: "platform \<Rightarrow> u32 list \<Rightarrow> bool" where
  "TEST_Fixed32 P vs = Fixed32_loop P vs (foldl (PutFixed32 P) [] vs)"

fun Fixed64_loop :: "platform \<Rightarrow> u64 list \<Rightarrow> bytes \<Rightarrow> bool" where
  "Fixed64_loop P [] p = True"
| "Fixed64_loop P (v # vs) p = (DecodeFixed64 P p = Ret v \<and> Fixed64_loop P vs (drop 8 p))"

definition TEST_Fixed64 :: "platform \<Rightarrow> u64 list \<Rightarrow> bool" where
  "TEST_Fixed64 P vs = Fixed64_loop P vs (foldl (PutFixed64 P) [] vs)"

definition TEST_EncodingOutput :: "platform \<Rightarrow> bool" where
  "TEST_EncodingOutput P =
     (PutFixed32 P [] 0x04030201 = [1, 2, 3, 4] \<and>
      PutFixed64 P [] 0x0807060504030201 = [1, 2, 3, 4, 5, 6, 7, 8])"

fun Varint32_loop :: "u32 list \<Rightarrow> bytes \<Rightarrow> bool" where
  "Varint32_loop [] p = (p = [])"
| "Varint32_loop (expected # vs) p =
     (case GetVarint32Ptr p of
        None \<Rightarrow> False
      | Some (actual, q) \<Rightarrow>
          expected = actual \<and> VarintLength (ucast actual) = length p - length q \<and> Varint32_loop vs q)"

definition TEST_Varint32 :: "u32 list \<Rightarrow> bool" where
  "TEST_Varint32 vs = Varint32_loop vs (foldl PutVarint32 [] vs)"

fun Varint64_loop :: "u64 list \<Rightarrow> bytes \<Rightarrow> bool" where
  "Varint64_loop [] p = (p = [])"
| "Varint64_loop (expected # vs) p =
     (p \<noteq> [] \<and>
      (case GetVarint64Ptr p of
         None \<Rightarrow> False
       | Some (actual, q) \<Rightarrow>
           expected = actual \<and> VarintLength actual = length p - length q \<and> Varint64_loop vs q))"

definition TEST_Varint64 :: "u64 list \<Rightarrow> bool" where
  "TEST_Varint64 values = Varint64_loop values (foldl PutVarint64 [] values)"

definition TEST_Varint32Overflow :: bool where
  "TEST_Varint32Overflow = (GetVarint32Ptr [0x81, 0x82, 0x83, 0x84, 0x85, 0x11] = None)"

definition TEST_Varint64Overflow :: bool where
  "TEST_Varint64Overflow = (GetVarint64Ptr [0x81, 0x82, 0x83, 0x84, 0x85, 0x81, 0x82, 0x83, 0x84, 0x85, 0x11] = None)"

definition TEST_Varint32Truncation :: "u32 \<Rightarrow> bool" where
  "TEST_Varint32Truncation large_value =
     (let s = PutVarint32 [] large_value in
      list_all (\<lambda>len. GetVarint32Ptr (take len s) = None) [0..<length s - 1] \<and>
      map_option fst (GetVarint32Ptr s) = Some large_value)"

definition TEST_Varint64Truncation :: "u64 \<Rightarrow> bool" where
  "TEST_Varint64Truncation large_value =
     (let s = PutVarint64 [] large_value in
      list_all (\<lambda>len. GetVarint64Ptr (take len s) = None) [0..<length s - 1] \<and>
      map_option fst (GetVarint64Ptr s) = Some large_value)"

fun Strings_loop :: "bytes list \<Rightarrow> bytes \<Rightarrow> bool" where
  "Strings_loop [] input = (input = [])"
| "Strings_loop (expected # vs) input =
     (case GetLengthPrefixedSlice input of None \<Rightarrow> False | Some (v, input) \<Rightarrow> v = expected \<and> Strings_loop vs input)"

definition TEST_Strings :: "bytes list \<Rightarrow> bool" where
  "TEST_Strings vs = Strings_loop vs (foldl PutLengthPrefixedSlice [] vs)"

lemma foldl_put: "(\<And>d v. put d v = d @ enc v) \<Longrightarrow> foldl put dst vs = dst @ concat (map enc vs)"
  by (induction vs arbitrary: dst) simp_all

lemma Fixed32_loop_concat: "Fixed32_loop P vs (concat (map (EncodeFixed32 P) vs))"
  by (induction vs) (simp_all add: DecodeFixed32_Encode codec_simps)

lemma Fixed64_loop_concat: "Fixed64_loop P vs (concat (map (EncodeFixed64 P) vs))"
  by (induction vs) (simp_all add: DecodeFixed64_Encode codec_simps)

lemma GetVarintPtr_Encode:
  "GetVarint32Ptr (EncodeVarint32 v @ rest) = Some (v, rest)" "GetVarint64Ptr (EncodeVarint64 w @ rest) = Some (w, rest)"
  using GetVarint32_Encode [of v rest] GetVarint64_Encode [of w rest]
  by (simp_all add: GetVarint32_def GetVarint64_def split: option.splits prod.splits)

lemma Varint_loop_concat:
  "Varint32_loop vs (concat (map EncodeVarint32 vs))" "Varint64_loop ws (concat (map EncodeVarint64 ws))"
proof -
  show "Varint32_loop vs (concat (map EncodeVarint32 vs))"
    by (induction vs) (simp_all add: GetVarintPtr_Encode VarintLength_eq flip: EncodeVarint32_eq_64)
  show "Varint64_loop ws (concat (map EncodeVarint64 ws))"
  proof (induction ws)
    case (Cons w ws)
    have "EncodeVarint64 w \<noteq> []" using length_EncodeVarint64 [of w] by auto
    with Cons show ?case by (simp add: GetVarintPtr_Encode VarintLength_eq)
  qed simp
qed

lemma Strings_loop_concat: "\<forall>v \<in> set vs. length v < 2 ^ 32 \<Longrightarrow> Strings_loop vs (concat (map (PutLengthPrefixedSlice []) vs))"
  by (induction vs) (simp_all add: GetLengthPrefixedSlice_Put)

lemma Varint_truncated:
  "n < length (EncodeVarint32 v) \<Longrightarrow> GetVarint32Ptr (take n (EncodeVarint32 v)) = None"
  "n < length (EncodeVarint64 w) \<Longrightarrow> GetVarint64Ptr (take n (EncodeVarint64 w)) = None"
  using varint32.dec_truncated [OF TrueI, of v "take n (EncodeVarint32 v)" "drop n (EncodeVarint32 v)"]
    varint64.dec_truncated [OF TrueI, of w "take n (EncodeVarint64 w)" "drop n (EncodeVarint64 w)"]
  by (auto simp: GetVarint32_def GetVarint64_def split: option.splits)

text \<open>
  C32. The tests of coding_test.cc pass, each for every list of values: fixed-width integers,
  varints of both widths and length-prefixed strings written one after the other are read back in
  order with nothing left over, the cut-off varints the tests look at (all but the one that lacks its last
  byte only) and their two varints that are too long are rejected, and the fixed-width bytes are the
  little-endian ones.
\<close>

theorem coding_tests:
  assumes "\<forall>s \<in> set strings. length s < 2 ^ 32"
  shows "TEST_Fixed32 P vs \<and> TEST_Fixed64 P ws \<and> TEST_EncodingOutput (default_platform host) \<and>
    TEST_Varint32 vs \<and> TEST_Varint64 ws \<and> TEST_Varint32Overflow \<and> TEST_Varint64Overflow \<and>
    TEST_Varint32Truncation v \<and> TEST_Varint64Truncation w \<and> TEST_Strings strings"
proof (intro conjI)
  show "TEST_Fixed32 P vs" "TEST_Fixed64 P ws"
    by (simp_all add: TEST_Fixed32_def TEST_Fixed64_def foldl_put [OF PutFixed32_def] foldl_put [OF PutFixed64_def]
        Fixed32_loop_concat Fixed64_loop_concat)
  show "TEST_EncodingOutput (default_platform host)"
    by (simp add: TEST_EncodingOutput_def PutFixed32_def PutFixed64_def EncodeFixed_default le_bytes32_def le_bytes64_def)
  show "TEST_Varint32 vs" "TEST_Varint64 ws"
    by (simp_all add: TEST_Varint32_def TEST_Varint64_def foldl_put [OF PutVarint32_def] foldl_put [OF PutVarint64_def]
        Varint_loop_concat)
  show "TEST_Varint32Overflow" "TEST_Varint64Overflow"
    by (simp_all add: TEST_Varint32Overflow_def TEST_Varint64Overflow_def GetVarint32Ptr_def GetVarint32PtrFallback_def GetVarint64Ptr_def Let_def)
  show "TEST_Varint32Truncation v" "TEST_Varint64Truncation w"
    using GetVarintPtr_Encode(1) [of v "[]"] GetVarintPtr_Encode(2) [of w "[]"]
    by (simp_all add: TEST_Varint32Truncation_def TEST_Varint64Truncation_def PutVarint32_def PutVarint64_def
        Varint_truncated list_all_iff)
  have put: "PutLengthPrefixedSlice d s = d @ PutLengthPrefixedSlice [] s" for d s
    by (simp add: PutLengthPrefixedSlice_def PutVarint32_def)
  show "TEST_Strings strings"
    by (simp add: TEST_Strings_def foldl_put [OF put] Strings_loop_concat [OF assms])
qed

theorem coding_tests_witness:
  "TEST_Varint64 [0, 100, 2 ^ 64 - 1] \<and> TEST_Varint32Truncation (2 ^ 31 + 100) \<and>
   TEST_Strings [[], [102, 111, 111], [98, 97, 114], replicate 200 120]"
  using coding_tests [of "[[], [102, 111, 111], [98, 97, 114], replicate 200 120]" "default_platform True" "[]" "[0, 100, 2 ^ 64 - 1]"
      True "2 ^ 31 + 100" 0] by simp

subsection \<open>log_writer_test.cc\<close>

text \<open>A segment size that holds exactly the given entries.\<close>

definition InitLogSegment :: "('e, 'h, 'm) deps \<Rightarrow> 'e list \<Rightarrow> nat" where
  "InitLogSegment D entries =
     foldl (\<lambda>logSegmentSize e. logSegmentSize +
         (kRecordHeaderSize + VarintLength (of_nat (length (entry_bytes D e))) + length (entry_bytes D e)))
       (length kLogSegmentHeaderMagic + kLogBatchHeaderSize) entries"

definition test_writer :: "nat \<Rightarrow> MockWritableFile LogWriter" where
  "test_writer logSegmentSize = new_LogWriter \<lparr>mock_buf = [], mock_fileName = []\<rparr> ''test-seg'' (of_nat logSegmentSize)"

definition TestAppendEntries :: "('e, 'h, 'm) deps \<Rightarrow> 'e list \<Rightarrow> 'e \<Rightarrow> bool" where
  "TestAppendEntries D es one_more =
     (let logSegmentSize = InitLogSegment D es; entries = es @ [one_more] in
      case LogWriter_Append D MockWritableFile_ops (test_writer logSegmentSize) entries 0 (length entries) None () of
        Ret (Inr it, writer, k) \<Rightarrow>
          it = length es \<and> length (mock_buf (lw_file writer)) = logSegmentSize \<and>
          (case LogWriter_Finish MockWritableFile_ops writer k of
             (Inr metaData, writer, k) \<Rightarrow> numEntries metaData = length es
           | _ \<Rightarrow> False)
      | _ \<Rightarrow> False)"

text \<open>
  The loop of the test over \<^verbatim>\<open>ReadRecord\<close> is that of \<^verbatim>\<open>ReadSegmentIntoMemoryStorage\<close>.  The test
  compares the entries of the storage; here the storage is compared with one to which the entries
  were appended.
\<close>

definition TestEncodeAndDecode :: "('e, 'h, 'm) deps \<Rightarrow> 'e list \<Rightarrow> bool" where
  "TestEncodeAndDecode D entries =
     (let logSegmentSize = InitLogSegment D entries in
      case LogWriter_Append D MockWritableFile_ops (test_writer logSegmentSize) entries 0 (length entries) None () of
        Ret (Inr it, writer, k) \<Rightarrow>
          let fileData = mock_buf (lw_file writer) in
          length fileData = logSegmentSize \<and>
          (case ReadSegment D fileData (mem_new D) new_SegmentMetaData True of
             Ret (s, seg) \<Rightarrow> s = OK \<and> rs_memStore seg = fold (mem_Append D) entries (mem_new D)
           | _ \<Rightarrow> False)
      | _ \<Rightarrow> False)"

lemma InitLogSegment_length:
  assumes "\<forall>e \<in> set es. small_entry D e"
  shows "InitLogSegment D es = 18 + length (entries_data D es)"
proof -
  have "foldl (\<lambda>n e. n + (kRecordHeaderSize + VarintLength (of_nat (length (entry_bytes D e))) + length (entry_bytes D e))) m es =
      m + length (entries_data D es)" for m
    using assms
  proof (induction es arbitrary: m)
    case (Cons e es)
    then have "length (entry_record D e) = kRecordHeaderSize + VarintLength (of_nat (length (entry_bytes D e))) + length (entry_bytes D e)"
      by (simp add: entry_record_def length_record_bytes small_entry_def)
    with Cons show ?case by (simp add: entries_data_def)
  qed (simp add: entries_data_def)
  then show ?thesis by (simp add: InitLogSegment_def kLogSegmentHeaderMagic_def kLogBatchHeaderSize_def)
qed

lemma entries_data_mono:
  assumes "i < j" "j \<le> length es"
  shows "length (entries_data D (take i es)) < length (entries_data D (take j es))"
proof -
  obtain k where k: "j = i + Suc k" using assms(1) less_imp_Suc_add by auto
  have "drop i es = es ! i # drop (Suc i) es" using assms by (simp add: Cons_nth_drop_Suc)
  then have "take j es = take i es @ es ! i # take k (drop (Suc i) es)" unfolding k take_add [of i "Suc k"] by simp
  then show ?thesis by (simp add: entries_data_def entry_record_def record_bytes_def)
qed

lemma fit_count_exact:
  assumes "\<forall>e \<in> set (es @ xs). small_entry D e" "unat r = 8 + length (entries_data D es)"
  shows "fit_count D r (es @ xs) = length es"
proof -
  define n where "n = fit_count D r (es @ xs)"
  note spec = fit_count_spec [OF assms(1), of r, folded n_def]
  have es: "length (entries_data D (take (length es) (es @ xs))) = length (entries_data D es)" "length es \<le> length (es @ xs)" by simp_all
  have "\<not> n < length es"
  proof
    assume n: "n < length es"
    then have lt: "n < length (es @ xs)" by simp
    from spec(2) [OF lt] assms(2) have "length (entries_data D es) \<le> length (entries_data D (take n (es @ xs)))" by linarith
    with entries_data_mono [OF n es(2), of D] es(1) show False by linarith
  qed
  moreover have "\<not> length es < n"
  proof
    assume n: "length es < n"
    then have "0 < n" by simp
    from spec(3) [OF this] assms(2) have lt: "length (entries_data D (take (n - 1) (es @ xs))) < length (entries_data D es)" by linarith
    consider "length es < n - 1" | "n - 1 = length es" using n by linarith
    then show False
    proof cases
      case 1
      with spec(1) have "n - 1 \<le> length (es @ xs)" by linarith
      from entries_data_mono [OF 1 this, of D] lt es(1) show ?thesis by linarith
    next
      case 2
      with lt show ?thesis by simp
    qed
  qed
  ultimately show ?thesis by (simp add: n_def)
qed

text \<open>The writer of the tests fills its segment with the entries it was sized for, exactly.\<close>

lemma test_writer_Append:
  assumes "\<forall>e \<in> set (es @ xs). small_entry D e" "InitLogSegment D es < 2 ^ 64"
  shows "\<exists>w. LogWriter_Append D MockWritableFile_ops (test_writer (InitLogSegment D es)) (es @ xs) 0 (length (es @ xs)) None () =
      Ret (Inr (length es), w, ()) \<and> mock_buf (lw_file w) = segment_bytes D [es] \<and> numEntries (lw_meta w) = length es"
proof -
  let ?w = "test_writer (InitLogSegment D es)"
  have I: "InitLogSegment D es = 18 + length (entries_data D es)" using assms(1) by (intro InitLogSegment_length) simp
  have w: "(if lw_empty ?w then kLogSegmentHeaderMagic else []) = kLogSegmentHeaderMagic" "mock_buf (lw_file ?w) = []" "lw_logSegmentSize ?w = of_nat (InitLogSegment D es)" "numEntries (lw_meta ?w) = 0"
    by (simp_all add: test_writer_def new_LogWriter_def new_SegmentMetaData_def)
  have magic: "length kLogSegmentHeaderMagic = 10" by (simp add: kLogSegmentHeaderMagic_def)
  have r: "(of_nat (InitLogSegment D es) :: u64) - of_nat 10 = of_nat (8 + length (entries_data D es))"
    by (simp add: I)
  have n: "fit_count D (of_nat (InitLogSegment D es) - of_nat 10) (es @ xs) = length es"
    unfolding r using assms(2) by (intro fit_count_exact [OF assms(1)], simp only: unat_of_nat I) simp
  have all: "take (length (es @ xs)) (es @ xs) = es @ xs" "take (length es) (es @ xs) = es" by simp_all
  from mock.LogWriter_Append_None [OF TrueI assms(1) le0 order_refl, where w = ?w and k = "()"] obtain q w' k' where
    a: "LogWriter_Append D MockWritableFile_ops ?w (es @ xs) 0 (length (es @ xs)) None () = Ret (q, w', k')"
    and S: "\<And>m. q = Inr m \<Longrightarrow> m = length es \<and> mock_buf (lw_file w') = kLogSegmentHeaderMagic @ batch_bytes D (entries_data D es) \<and>
      lw_meta w' = (lw_meta ?w)\<lparr>numEntries := 0 + length es\<rparr>"
    unfolding Let_def w append_Nil magic diff_zero drop_0 all n add_0 by blast
  from a obtain m where "q = Inr m" using Mock_LogWriter_OK by blast
  with a S show ?thesis by (simp add: segment_bytes_def)
qed

lemma TestAppendEntries_passes:
  assumes "\<forall>e \<in> set (es @ [x]). small_entry D e" "InitLogSegment D es < 2 ^ 64"
  shows "TestAppendEntries D es x"
proof -
  have "length (segment_bytes D [es]) = InitLogSegment D es"
    using assms(1) InitLogSegment_length [of es D]
    by (simp add: segment_bytes_def length_batch_bytes kLogSegmentHeaderMagic_def)
  with test_writer_Append [OF assms] show ?thesis
    by (auto simp: TestAppendEntries_def Let_def LogWriter_Finish_def MockWritableFile_ops_def)
qed

lemma TestEncodeAndDecode_passes:
  assumes "batch_ok D es" "InitLogSegment D es < 2 ^ 64"
  shows "TestEncodeAndDecode D es"
proof -
  have small: "\<forall>e \<in> set (es @ []). small_entry D e" using assms(1) by (simp add: batch_ok_def entry_codec_def)
  have "length (segment_bytes D [es]) = InitLogSegment D es"
    using small InitLogSegment_length [of es D]
    by (simp add: segment_bytes_def length_batch_bytes kLogSegmentHeaderMagic_def)
  moreover have "ReadSegment D (segment_bytes D [es]) (mem_new D) new_SegmentMetaData True = Ret (OK, \<lparr>rs_buf = [],
      rs_memStore = fold (mem_Append D) es (mem_new D), rs_metaData = new_SegmentMetaData\<lparr>numEntries := length es\<rparr>,
      rs_verifyChecksum = True\<rparr>)"
    using ReadSegment_batches [of "[es]" D "mem_new D" new_SegmentMetaData _ _ "[]"] assms(1)
    by (simp add: stored_def read_batches.simps Eof_def new_SegmentMetaData_def)
  ultimately show ?thesis
    using test_writer_Append [OF small assms(2)] by (auto simp: TestEncodeAndDecode_def Let_def)
qed

text \<open>
  The tests of log_writer_test.cc pass for all entries, not only for those of the test: a
  segment that was sized for some entries takes exactly these, one more entry is left to the next
  segment, the file has exactly the configured size, and the bytes of the file are read back to the
  same entries with verified checksums.
\<close>

lemma log_writer_tests:
  assumes "batch_ok D es" "small_entry D one_more" "InitLogSegment D es < 2 ^ 64"
  shows "TestAppendEntries D es one_more \<and> TestEncodeAndDecode D es"
proof
  have "\<forall>e \<in> set (es @ [one_more]). small_entry D e" using assms(1,2) by (simp add: batch_ok_def entry_codec_def)
  then show "TestAppendEntries D es one_more" by (rule TestAppendEntries_passes) (rule assms(3))
qed (rule TestEncodeAndDecode_passes [OF assms(1,3)])

lemma InitLogSegment_batch: "batch_ok D es \<Longrightarrow> InitLogSegment D es < 2 ^ 64"
  using InitLogSegment_length [of es D] by (auto simp: batch_ok_def entry_codec_def)

lemma log_writer_tests_witness:
  "TestAppendEntries example_deps [(1, 1, []), (2, 2, [])] (3, 3, []) \<and> TestEncodeAndDecode example_deps [(1, 1, []), (2, 2, [])]"
proof (rule log_writer_tests)
  show b: "batch_ok example_deps [(1, 1, []), (2, 2, [])]" by (rule example_batch_ok) simp_all
  show "InitLogSegment example_deps [(1, 1, []), (2, 2, [])] < 2 ^ 64" by (rule InitLogSegment_batch [OF b])
qed (rule example_small, simp)

subsection \<open>memkv_store_test.cc\<close>

text \<open>
  What the tests need of the library: \<^verbatim>\<open>TrimSpace\<close> leaves a string alone that neither starts nor
  ends with white space, and the string is split at its slashes.
\<close>

definition kv_lib_law :: "kv_lib \<Rightarrow> bool" where
  "kv_lib_law L \<longleftrightarrow> split_slash L = slash_tokens \<and>
     (\<forall>s. s = [] \<or> \<not> is_space (hd s) \<and> \<not> is_space (last s) \<longrightarrow> TrimSpace L s = s)"

text \<open>A test is a sequence of calls of a new store and the answers it expects.\<close>

definition store_test :: "kv_lib \<Rightarrow> kv_op list \<Rightarrow> kv_answer list \<Rightarrow> bool" where
  "store_test L ops expected = (case heap_ops L ops new_MemKvStore of Ret (rs, kv) \<Rightarrow> rs = expected | _ \<Rightarrow> False)"

definition TEST_WriteAndGet :: "kv_lib \<Rightarrow> bool" where
  "TEST_WriteAndGet L = list_all (\<lambda>(key, testKey, answer). store_test L [OpWrite key ''test_value'', OpGet testKey] [Inr [], answer])
     [(''/tmp/xiaomi/ads/pegasus-1/table-num-counter'', ''/tmp/xiaomi/ads/pegasus-1/table-num-counter'', Inr ''test_value''),
      (''/tmp/xiaomi/ads/pegasus-1/table-num-counter'', ''/var'', Inl KvNodeNotExist),
      (''tmp/xiaomi'', ''///tmp/xiaomi'', Inr ''test_value''),
      (''tmp'', '''', Inl KvInvalidArgument)]"

text \<open>
  The random data is put into a map; \<open>data_map\<close> are its entries in any order.  The status of the
  writes is not looked at.
\<close>

primrec randomString :: "nat \<Rightarrow> Random \<Rightarrow> (string \<times> Random) outcome" where
  "randomString 0 rnd = Ret ([], rnd)"
| "randomString (Suc len) rnd =
     bind_outcome (Random_Uniform 26 rnd) (\<lambda>(r, rnd).
     bind_outcome (randomString len rnd) (\<lambda>(result, rnd). Ret (char_of (97 + unat r) # result, rnd)))"

primrec random_data :: "nat \<Rightarrow> Random \<Rightarrow> (string \<times> string) list \<Rightarrow> (string \<times> string) list outcome" where
  "random_data 0 rnd data_map = Ret data_map"
| "random_data (Suc i) rnd data_map =
     bind_outcome (randomString 10 rnd) (\<lambda>(key, rnd).
     bind_outcome (randomString 20 rnd) (\<lambda>(v, rnd). random_data i rnd (AList.update key v data_map)))"

definition read_after_writes :: "kv_lib \<Rightarrow> (string \<times> string) list \<Rightarrow> bool" where
  "read_after_writes L data_map =
     (case heap_ops L (map (\<lambda>(key, v). OpWrite key v) data_map @ map (\<lambda>(key, v). OpGet key) data_map) new_MemKvStore of
        Ret (rs, store) \<Rightarrow> drop (length data_map) rs = map (\<lambda>(key, v). Inr v) data_map
      | _ \<Rightarrow> False)"

definition TEST_MultiReadWrite :: "kv_lib \<Rightarrow> ((string \<times> string) list \<Rightarrow> (string \<times> string) list) \<Rightarrow> bool" where
  "TEST_MultiReadWrite L order =
     (case random_data 2 (new_Random 0) [] of Ret data_map \<Rightarrow> read_after_writes L (order data_map) | _ \<Rightarrow> False)"

definition TEST_Delete :: "kv_lib \<Rightarrow> bool" where
  "TEST_Delete L =
     store_test L [OpWrite ''/tmp'' ''1'', OpGet ''/tmp'', OpDelete ''/tmp'', OpGet ''/tmp'']
       [Inr [], Inr ''1'', Inr [], Inl KvNodeNotExist]"

definition TEST_DeleteRecursively :: "kv_lib \<Rightarrow> bool" where
  "TEST_DeleteRecursively L =
     store_test L
       [OpWrite ''/tmp/xiaomi/ads/pegasus-1/table-num-counter'' ''1'', OpGet ''/tmp/xiaomi/ads/pegasus-1/table-num-counter'',
        OpDelete ''/tmp/xiaomi/ads/pegasus-1'', OpGet ''/tmp/xiaomi/ads'', OpGet ''/tmp/xiaomi/ads/pegasus-1'']
       [Inr [], Inr ''1'', Inr [], Inr [], Inl KvNodeNotExist]"

text \<open>By the refinement a test can be run on the tree.\<close>

lemma store_test_tree: "store_test L ops expected \<longleftrightarrow> fst (tree_ops L ops new_Node) = expected"
  using heap_ops_rep [OF store_rep_new, of L ops] by (auto simp: store_test_def)

lemma validatePath_tokens:
  assumes "kv_lib_law L" "p \<noteq> []" "\<not> is_space (hd p)" "\<not> is_space (last p)" "CHR 0x00 \<notin> set p"
  shows "validatePath L p = Inr (slash_tokens p)"
  using assms by (auto simp: validatePath_def kv_lib_law_def Let_def in_set_conv_nth)

lemma validatePath_empty: "kv_lib_law L \<Longrightarrow> validatePath L [] = Inl KvInvalidArgument"
  by (simp add: validatePath_def kv_lib_law_def)

lemma tokens_of:
  assumes "kv_lib_law L" "p \<noteq> [] \<and> \<not> is_space (hd p) \<and> \<not> is_space (last p) \<and> CHR 0x00 \<notin> set p \<and> slash_tokens p = vec"
  shows "validatePath L p = Inr vec"
  using assms validatePath_tokens by blast

lemma test_paths:
  assumes "kv_lib_law L"
  shows "validatePath L ''/tmp/xiaomi/ads/pegasus-1/table-num-counter'' =
      Inr [[], ''tmp'', ''xiaomi'', ''ads'', ''pegasus-1'', ''table-num-counter'']"
    "validatePath L ''/tmp/xiaomi/ads/pegasus-1'' = Inr [[], ''tmp'', ''xiaomi'', ''ads'', ''pegasus-1'']"
    "validatePath L ''/tmp/xiaomi/ads'' = Inr [[], ''tmp'', ''xiaomi'', ''ads'']"
    "validatePath L ''/var'' = Inr [[], ''var'']" "validatePath L ''/tmp'' = Inr [[], ''tmp'']"
    "validatePath L ''tmp'' = Inr [''tmp'']" "validatePath L ''tmp/xiaomi'' = Inr [''tmp'', ''xiaomi'']"
    "validatePath L ''///tmp/xiaomi'' = Inr [[], [], [], ''tmp'', ''xiaomi'']"
  by (rule tokens_of [OF assms], code_simp)+

lemma fixed_store_tests:
  assumes "kv_lib_law L"
  shows "TEST_WriteAndGet L" "TEST_Delete L" "TEST_DeleteRecursively L"
  by (simp_all add: TEST_WriteAndGet_def TEST_Delete_def TEST_DeleteRecursively_def store_test_tree Kv_Write_def Kv_Get_def
      Kv_Delete_def test_paths [OF assms] validatePath_empty [OF assms] status_answer_def new_Node_def)

text \<open>The random keys of the test consist of letters, so each is one segment.\<close>

definition letters :: "string \<Rightarrow> bool" where
  "letters k \<longleftrightarrow> k \<noteq> [] \<and> set k \<subseteq> set ''abcdefghijklmnopqrstuvwxyz''"

lemma letters_path:
  assumes "kv_lib_law L" "letters k"
  shows "kv_path L k = Some [k]"
proof -
  have chars: "\<forall>c \<in> set ''abcdefghijklmnopqrstuvwxyz''. \<not> is_space c \<and> c \<noteq> CHR 0x00 \<and> c \<noteq> CHR ''/''" by code_simp
  have no_slash: "slash_tokens s = [s]" if "CHR ''/'' \<notin> set s" for s
    using that by (induction s) auto
  have k: "k \<noteq> []" "\<forall>c \<in> set k. \<not> is_space c \<and> c \<noteq> CHR 0x00 \<and> c \<noteq> CHR ''/''"
    using assms(2) chars unfolding letters_def by blast+
  have "validatePath L k = Inr [k]"
    by (rule tokens_of [OF assms(1)]) (use k no_slash [of k] in auto)
  with k(1) show ?thesis by (simp add: kv_path_def)
qed

lemma tree_ops_append:
  "tree_ops L (xs @ ys) t = (fst (tree_ops L xs t) @ fst (tree_ops L ys (snd (tree_ops L xs t))), snd (tree_ops L ys (snd (tree_ops L xs t))))"
  by (induction xs arbitrary: t) (auto simp: split_def)

lemma tree_writes:
  "distinct (map fst kvs) \<Longrightarrow> \<forall>kv \<in> set kvs. kv_path L (fst kv) = Some [fst kv] \<Longrightarrow>
   fst (tree_ops L (map (\<lambda>(k, v). OpWrite k v) kvs) t) = replicate (length kvs) (Inr []) \<and>
   (\<forall>k. abs_kv (snd (tree_ops L (map (\<lambda>(k, v). OpWrite k v) kvs) t)) [k] =
      (case map_of kvs k of None \<Rightarrow> abs_kv t [k] | Some v \<Rightarrow> Some v))"
proof (induction kvs arbitrary: t)
  case (Cons kv kvs)
  obtain k v where kv: "kv = (k, v)" by (cases kv)
  obtain t1 where w: "Kv_Write L k v t = (KvOK, t1)" "abs_kv t1 = kv_put [k] v (abs_kv t)"
    using memkv.put_valid [of L k "[k]" v t] Cons.prems kv by auto
  have "map_of kvs k = None" using Cons.prems(1) kv by (simp add: map_of_eq_None_iff)
  with Cons.IH [of t1] Cons.prems w show ?case
    by (auto simp: kv split_def status_answer_def kv_put_def split: option.splits)
qed simp

lemma tree_reads:
  "tree_ops L (map (\<lambda>(k, v). OpGet k) kvs) t = (map (\<lambda>(k, v). Kv_Get L k t) kvs, t)"
  by (induction kvs) auto

lemma read_after_writes_passes:
  assumes "kv_lib_law L" "distinct (map fst data_map)" "\<forall>(k, v) \<in> set data_map. letters k"
  shows "read_after_writes L data_map"
proof -
  let ?t = "snd (tree_ops L (map (\<lambda>(k, v). OpWrite k v) data_map) new_Node)"
  let ?ops = "map (\<lambda>(k, v). OpWrite k v) data_map @ map (\<lambda>(k, v). OpGet k) data_map"
  have p: "\<forall>kv \<in> set data_map. kv_path L (fst kv) = Some [fst kv]"
    using assms(3) letters_path [OF assms(1)] by fastforce
  note W = tree_writes [OF assms(2) p, of new_Node]
  have "Kv_Get L k ?t = Inr v" if "(k, v) \<in> set data_map" for k v
    using W p that assms(2) by (fastforce simp: memkv.get_law)
  then have "map (\<lambda>(k, v). Kv_Get L k ?t) data_map = map (\<lambda>(k, v). Inr v) data_map" by auto
  with W have "store_test L ?ops (replicate (length data_map) (Inr []) @ map (\<lambda>(k, v). Inr v) data_map)"
    by (simp add: store_test_tree tree_ops_append tree_reads)
  then show ?thesis by (auto simp: store_test_def read_after_writes_def split: outcome.splits)
qed

lemma randomString_letters:
  "\<exists>s rnd'. randomString n rnd = Ret (s, rnd') \<and> length s = n \<and> set s \<subseteq> set ''abcdefghijklmnopqrstuvwxyz''"
proof (induction n arbitrary: rnd)
  case (Suc n)
  obtain r g where r: "Random_Uniform 26 rnd = Ret (r, g)"
    by (cases "Random_Next rnd") (auto simp: Random_Uniform_def)
  have "\<forall>i \<in> set [0..<26]. char_of (97 + i :: nat) \<in> set ''abcdefghijklmnopqrstuvwxyz''" by code_simp
  moreover have "unat r \<in> set [0..<26]" using Random_Uniform_less [OF r] by (simp add: word_less_nat_alt)
  ultimately have "char_of (97 + unat r) \<in> set ''abcdefghijklmnopqrstuvwxyz''" by blast
  with Suc.IH [of g] r show ?case by fastforce
qed simp

lemma random_data_letters:
  "distinct (map fst m) \<Longrightarrow> \<forall>(k, v) \<in> set m. letters k \<Longrightarrow>
   \<exists>m'. random_data n rnd m = Ret m' \<and> distinct (map fst m') \<and> (\<forall>(k, v) \<in> set m'. letters k)"
proof (induction n arbitrary: rnd m)
  case (Suc n)
  obtain key g where k: "randomString 10 rnd = Ret (key, g)" "letters key"
    using randomString_letters [of 10 rnd] unfolding letters_def by (metis list.size(3) zero_neq_numeral)
  obtain v g' where v: "randomString 20 g = Ret (v, g')" using randomString_letters [of 20 g] by blast
  have "\<forall>k' \<in> fst ` set (AList.update key v m). letters k'"
    using Suc.prems(2) k(2) by (auto simp: dom_update)
  then have "\<forall>(k', v') \<in> set (AList.update key v m). letters k'" by force
  with Suc.IH [of "AList.update key v m" g'] Suc.prems(1) k(1) v show ?case by (simp add: distinct_update)
qed auto

text \<open>
  The tests of the store pass on the nodes in memory, whatever the order of the map of the test is;
  reading back what was written works for all different keys made of letters.
\<close>

lemma memkv_store_tests:
  assumes "kv_lib_law L" "\<And>m. mset (order m) = mset m"
  shows "TEST_WriteAndGet L \<and> TEST_MultiReadWrite L order \<and> TEST_Delete L \<and> TEST_DeleteRecursively L"
proof -
  obtain m where m: "random_data 2 (new_Random 0) [] = Ret m" "distinct (map fst m)" "\<forall>(k, v) \<in> set m. letters k"
    using random_data_letters [of "[]" 2 "new_Random 0"] by auto
  have "mset (map fst (order m)) = mset (map fst m)" "set (order m) = set m"
    using assms(2) [of m] by (metis mset_map, metis set_mset_mset)
  with m have "read_after_writes L (order m)"
    by (intro read_after_writes_passes [OF assms(1)]) (auto simp del: mset_map dest: mset_eq_imp_distinct_iff)
  with m(1) fixed_store_tests [OF assms(1)] show ?thesis by (simp add: TEST_MultiReadWrite_def)
qed

subsection \<open>background_worker_test.cc\<close>

text \<open>\<^verbatim>\<open>Stop\<close> of a worker whose loop ends after the flag is set: the request and, if it succeeded, the join.\<close>

definition BackgroundWorker_Stop :: "BackgroundWorker \<Rightarrow> ErrorCodes \<times> BackgroundWorker" where
  "BackgroundWorker_Stop w = (case Stop_request w of (s, w) \<Rightarrow> (s, if s = OK then Stop_join w else w))"

definition TEST_BackgroundWorker_Stop :: bool where
  "TEST_BackgroundWorker_Stop =
     (let (s1, worker) = BackgroundWorker_Stop new_BackgroundWorker;
          (_, worker) = StartLoop True worker;
          (s2, worker) = BackgroundWorker_Stop worker;
          (_, worker) = StartLoop True worker;
          (s3, worker) = BackgroundWorker_Stop worker;
          (s4, worker) = BackgroundWorker_Stop worker
      in s1 = RuntimeError \<and> s2 = OK \<and> s3 = OK \<and> s4 = RuntimeError \<and> delete_BackgroundWorker worker = Ret ())"

definition TEST_BackgroundWorker_Start :: bool where
  "TEST_BackgroundWorker_Start =
     (let (_, worker) = StartLoop True new_BackgroundWorker;
          (s, worker) = StartLoop True worker;
          (_, worker) = BackgroundWorker_Stop worker
      in s = RuntimeError \<and> delete_BackgroundWorker worker = Ret ())"

lemma background_worker_tests: "TEST_BackgroundWorker_Stop \<and> TEST_BackgroundWorker_Start"
  by code_simp

subsection \<open>random_test.cc\<close>

definition kLenMax :: nat where
  "kLenMax = 100"

definition kNumTrials :: nat where
  "kNumTrials = 100"

text \<open>
  \<^verbatim>\<open>CheckEmpty\<close>: the condition of the loop jumps over the range.  For a range that is not one the
  jump would go back, so the loop ends only behind the checks; they are those of a debug build.
\<close>

partial_function (option) CheckEmpty_loop :: "bytes \<Rightarrow> nat \<Rightarrow> nat \<Rightarrow> nat \<Rightarrow> nat \<Rightarrow> unit outcome option" where
  "CheckEmpty_loop start a b stop j =
     (let j = (if j = a then b else j) in
      if j < stop then
        if length start \<le> j then Some (Undef OutOfBounds)
        else if start ! j \<noteq> 0 then Some Fatal
        else CheckEmpty_loop start a b stop (Suc j)
      else Some (Ret ()))"

definition CheckEmpty :: "bytes \<Rightarrow> nat \<Rightarrow> nat \<Rightarrow> nat \<Rightarrow> unit outcome option" where
  "CheckEmpty start a b stop = (if \<not> (a \<le> b \<and> b \<le> stop) then Some Fatal else CheckEmpty_loop start a b stop 0)"

text \<open>One trial: a range of the zeroed buffer is filled.\<close>

definition fill_range :: "platform \<Rightarrow> bytes \<Rightarrow> Random \<Rightarrow> (bytes \<times> nat \<times> nat \<times> Random) outcome" where
  "fill_range P start rng =
     bind_outcome (Random_Uniform (of_nat kLenMax + 1) rng) (\<lambda>(b, rng).
     bind_outcome (Random_Uniform (b + 1) rng) (\<lambda>(a, rng).
     bind_outcome (RandomString P (drop (unat a) start) (unat b - unat a) rng) (\<lambda>(cdest, rng).
       Ret (take (unat a) start @ cdest, unat a, unat b, rng))))"

primrec random_trials :: "platform \<Rightarrow> nat \<Rightarrow> Random \<Rightarrow> Random outcome option" where
  "random_trials P 0 rng = Some (Ret rng)"
| "random_trials P (Suc n) rng =
     (case fill_range P (replicate kLenMax 0) rng of
        Undef u \<Rightarrow> Some (Undef u)
      | Fatal \<Rightarrow> Some Fatal
      | Ret (start, a, b, rng) \<Rightarrow>
          (case CheckEmpty start a b kLenMax of
             None \<Rightarrow> None
           | Some (Undef u) \<Rightarrow> Some (Undef u)
           | Some Fatal \<Rightarrow> Some Fatal
           | Some (Ret _) \<Rightarrow> random_trials P n rng))"

definition TestRandomString :: "platform \<Rightarrow> Random \<Rightarrow> unit outcome option" where
  "TestRandomString P rng =
     (case random_trials P kNumTrials rng of
        None \<Rightarrow> None
      | Some (Undef u) \<Rightarrow> Some (Undef u)
      | Some Fatal \<Rightarrow> Some Fatal
      | Some (Ret rng) \<Rightarrow>
          (case RandomString P (replicate kLenMax 0) 0 rng of
             Undef u \<Rightarrow> Some (Undef u)
           | Fatal \<Rightarrow> Some Fatal
           | Ret (start, rng) \<Rightarrow> CheckEmpty start 0 0 kLenMax))"

lemma CheckEmpty_loop_zero:
  assumes "a \<le> b" "stop \<le> length start" "\<forall>i < stop. i < a \<or> b \<le> i \<longrightarrow> start ! i = 0"
  shows "j \<le> a \<or> b < j \<Longrightarrow> CheckEmpty_loop start a b stop j = Some (Ret ())"
proof (induction "stop - j" arbitrary: j rule: less_induct)
  case less
  let ?j = "if j = a then b else j"
  show ?case
  proof (cases "?j < stop")
    case True
    have "?j < a \<or> b \<le> ?j" "Suc ?j \<le> a \<or> b < Suc ?j" "stop - Suc ?j < stop - j"
      using less.prems assms(1) True by (auto split: if_splits)
    with True less.hyps [of "Suc ?j"] assms(2,3) have "start ! ?j = 0" "?j < length start"
      "CheckEmpty_loop start a b stop (Suc ?j) = Some (Ret ())" by fastforce+
    with True show ?thesis by (subst CheckEmpty_loop.simps) (simp add: Let_def)
  next
    case False
    then show ?thesis by (subst CheckEmpty_loop.simps) (simp add: Let_def)
  qed
qed

lemma CheckEmpty_zero:
  "a \<le> b \<Longrightarrow> b \<le> stop \<Longrightarrow> stop \<le> length start \<Longrightarrow> \<forall>i < stop. i < a \<or> b \<le> i \<longrightarrow> start ! i = 0 \<Longrightarrow>
   CheckEmpty start a b stop = Some (Ret ())"
  by (simp add: CheckEmpty_def CheckEmpty_loop_zero)

lemma fill_range_outside:
  "\<exists>start a b rng'. fill_range P (replicate kLenMax 0) rng = Ret (start, a, b, rng') \<and> CheckEmpty start a b kLenMax = Some (Ret ())"
proof -
  obtain b g1 where b: "Random_Uniform (of_nat kLenMax + 1) rng = Ret (b, g1)"
    by (cases "Random_Next rng") (auto simp: Random_Uniform_def kLenMax_def)
  have "b < 101" using Random_Uniform_less [OF b] by (simp add: kLenMax_def)
  then have ub: "unat b \<le> kLenMax" by (simp add: kLenMax_def word_less_nat_alt)
  have "unat (b + 1) = unat b + 1" using ub by (subst unat_add_lem [THEN iffD1]) (simp_all add: kLenMax_def)
  then have nz: "b + 1 \<noteq> 0" by (metis add_is_0 one_neq_zero unat_0)
  then obtain a g2 where a: "Random_Uniform (b + 1) g1 = Ret (a, g2)"
    by (cases "Random_Next g1") (auto simp: Random_Uniform_def)
  have ua: "unat a \<le> unat b"
    using Random_Uniform_less [OF a] \<open>unat (b + 1) = unat b + 1\<close> by (simp add: word_less_nat_alt)
  let ?d = "drop (unat a) (replicate kLenMax 0) :: bytes" and ?n = "unat b - unat a"
  have "?n \<le> length ?d" using ub by simp
  from RandomString_prefix [OF this, of P g2]
  obtain g3 where r: "RandomString P ?d ?n g2 = Ret (take ?n (random_bytes P (?n div 4 + 1) g2) @ drop ?n ?d, g3)" ..
  let ?s = "take (unat a) (replicate kLenMax 0) @ take ?n (random_bytes P (?n div 4 + 1) g2) @ drop ?n ?d"
  have "CheckEmpty (take (unat a) (replicate kLenMax 0) @ cs @ drop ?n ?d) (unat a) (unat b) kLenMax = Some (Ret ())"
    if "length cs = ?n" for cs
    using ua ub that by (intro CheckEmpty_zero) (auto simp: nth_append)
  moreover have "length (take ?n (random_bytes P (?n div 4 + 1) g2)) = ?n" by simp
  ultimately have "CheckEmpty ?s (unat a) (unat b) kLenMax = Some (Ret ())" by blast
  moreover have "fill_range P (replicate kLenMax 0) rng = Ret (?s, unat a, unat b, g3)"
    unfolding fill_range_def b bind_outcome.simps prod.case a r ..
  ultimately show ?thesis by blast
qed

lemma random_tests: "TestRandomString P rng = Some (Ret ())"
proof -
  have t: "\<exists>g'. random_trials P n g = Some (Ret g')" for n g
  proof (induction n arbitrary: g)
    case (Suc n)
    with fill_range_outside [of P g] show ?case by fastforce
  qed simp
  obtain g where g: "random_trials P kNumTrials rng = Some (Ret g)" using t by blast
  obtain g' where "RandomString P (replicate kLenMax 0) 0 g = Ret (replicate kLenMax 0, g')"
    using RandomString_prefix [of 0 "replicate kLenMax 0" P g] by auto
  with g show ?thesis by (simp add: TestRandomString_def CheckEmpty_zero)
qed

subsection \<open>env_test.cc\<close>

text \<open>An assertion that fails makes the test fail, wherever it is; what would be run after it is left out.\<close>

fun bind_test :: "'a test_run outcome \<Rightarrow> ('a \<Rightarrow> 'b test_run outcome) \<Rightarrow> 'b test_run outcome" where
  "bind_test (Ret (Finished a)) rest = rest a"
| "bind_test (Ret Failed) rest = Ret Failed"
| "bind_test (Undef u) rest = Undef u"
| "bind_test Fatal rest = Fatal"

definition ReadAndVerifyTestData :: "('f, 'r, 'k) Env \<Rightarrow> ('r, 'k) RandomAccessFile \<Rightarrow> string \<Rightarrow> bytes \<Rightarrow> 'k \<Rightarrow> 'k test_run outcome" where
  "ReadAndVerifyTestData env rops filePath testData k =
     bind_outcome (ReadFullyToBuffer env rops filePath k) (\<lambda>(sw, k).
       Ret (ASSIGN_IF_ASSERT_OK sw (\<lambda>s. if s = testData then Finished k else Failed)))"

primrec ReadFully_trials :: "platform \<Rightarrow> ('f, 'r, 'k) Env \<Rightarrow> ('f, 'k) WritableFile \<Rightarrow> ('r, 'k) RandomAccessFile \<Rightarrow> string \<Rightarrow> nat
    \<Rightarrow> nat \<Rightarrow> Random \<Rightarrow> 'k \<Rightarrow> (Random \<times> 'k) test_run outcome" where
  "ReadFully_trials P env ops rops kTestPath kFileSize 0 rng k = Ret (Finished (rng, k))"
| "ReadFully_trials P env ops rops kTestPath kFileSize (Suc i) rng k =
     bind_test (WriteTestFile P env ops kTestPath kFileSize rng k) (\<lambda>(testData, rng, k).
     bind_test (ReadAndVerifyTestData env rops kTestPath testData k) (\<lambda>k.
       case env_DeleteFile env kTestPath k of (_, k) \<Rightarrow> ReadFully_trials P env ops rops kTestPath kFileSize i rng k))"

definition TEST_ReadFully :: "platform \<Rightarrow> ('f, 'r, 'k) Env \<Rightarrow> ('f, 'k) WritableFile \<Rightarrow> ('r, 'k) RandomAccessFile \<Rightarrow> string
    \<Rightarrow> Random \<Rightarrow> 'k \<Rightarrow> (Random \<times> 'k) test_run outcome" where
  "TEST_ReadFully P env ops rops testDir rng k =
     (case Random_Next rng of (n, rng) \<Rightarrow>
        ReadFully_trials P env ops rops (testDir @ ''/test_'' @ decimal (unat n)) (64 * 1024) 1000 rng k)"

primrec RandomDataSet :: "platform \<Rightarrow> nat \<Rightarrow> nat \<Rightarrow> Random \<Rightarrow> (bytes list \<times> Random) outcome" where
  "RandomDataSet P 0 slice_size rng = Ret ([], rng)"
| "RandomDataSet P (Suc n) slice_size rng =
     bind_outcome (RandomString_new P slice_size rng) (\<lambda>(s, rng).
     bind_outcome (RandomDataSet P n slice_size rng) (\<lambda>(dataSet, rng). Ret (s # dataSet, rng)))"

definition TestAppendVector :: "platform \<Rightarrow> ('f, 'r, 'k) Env \<Rightarrow> ('f, 'k) WritableFile \<Rightarrow> ('r, 'k) RandomAccessFile \<Rightarrow> string
    \<Rightarrow> nat \<Rightarrow> nat \<Rightarrow> Random \<Rightarrow> 'k \<Rightarrow> 'k test_run outcome" where
  "TestAppendVector P env ops rops testDir num_slices slice_size rng k =
     (let kTestPath = testDir @ ''/test_env_appendvec_read_append'' in
      bind_outcome (OpenFileForWrite env kTestPath CREATE_IF_NON_EXISTING_TRUNCATE False k) (\<lambda>(f, k).
      bind_outcome (RandomDataSet P num_slices slice_size rng) (\<lambda>(dataSet, rng).
        let slices = foldl (@) [] dataSet; testData = foldl (@) [] dataSet in
        case wf_Append ops f slices k of
          (s, f, k) \<Rightarrow>
            bind_test (Ret (ASSERT_OK s (case wf_Close ops f k of (s, f, k) \<Rightarrow> ASSERT_OK s (Finished k)))) (\<lambda>k.
              if length testData \<noteq> num_slices * slice_size then Ret Failed
              else ReadAndVerifyTestData env rops kTestPath testData k))))"

lemma New_truncated_quiet:
  "k_answers k = [] \<Longrightarrow>
   \<exists>f k'. Posix_NewWritableFile B p CREATE_IF_NON_EXISTING_TRUNCATE sync k = (Inr f, k') \<and> k_answers k' = []"
  by (cases "file_map k p") (simp_all add: Posix_NewWritableFile_def DoOpen_def sys_open_def sys_enter_def Let_def)

text \<open>Opening, appending and closing a file on a kernel that reports no errors.\<close>

lemma write_file_quiet:
  assumes "k_answers k = []"
  obtains f k1 f1 k2 f2 k3 where
    "env_NewWritableFile (PosixEnv B) p CREATE_IF_NON_EXISTING_TRUNCATE sync k = (Inr f, k1)"
    "wf_Append (PosixWritableFile_ops ok_bool) f d k1 = (OK, f1, k2)"
    "wf_Close (PosixWritableFile_ops ok_bool) f1 k2 = (OK, f2, k3)" "k_answers k3 = []" "file_map k3 p = Some d"
proof -
  obtain f k1 where n: "Posix_NewWritableFile B p CREATE_IF_NON_EXISTING_TRUNCATE sync k = (Inr f, k1)" "k_answers k1 = []"
    using New_truncated_quiet [OF assms] by blast
  note F = Posix_New_truncated [OF n(1)]
  obtain f1 k2 where a: "wf_Append (PosixWritableFile_ops ok_bool) f d k1 = (OK, f1, k2)" "k_answers k2 = []"
    using posix_quiet.Append_quiet [OF n(2)] F by blast
  note A = posix.Append_OK [OF _ a(1)]
  have op: "posix_open f1 k2" using A F by blast
  obtain f2 k3 where c: "wf_Close (PosixWritableFile_ops ok_bool) f1 k2 = (OK, f2, k3)" "k_answers k3 = []"
    using posix_quiet.Close_quiet [OF a(2) op] by blast
  have "file_map k3 = file_map k2" using Posix_Close_files [OF op] c(1) by (simp add: PosixWritableFile_ops_def)
  moreover have "file_map k2 p = Some d"
    using Posix_Append_OK [OF conjunct1 [OF F], of d f1 k2] a(1) F by (simp add: PosixWritableFile_ops_def)
  ultimately show ?thesis using that [of f k1 f1 k2 f2 k3] n a c by (simp add: PosixEnv_def)
qed

lemma ReadAndVerify_quiet:
  assumes "fs_size_law B" "file_map k p = Some d" "length d < 2 ^ 64" "k_answers k = []"
  shows "\<exists>k'. ReadAndVerifyTestData (PosixEnv B) (PosixRandomAccessFile_ops B) p d k = Ret (Finished k') \<and> k_answers k' = []"
  using ReadFullyToBuffer_quiet [OF assms] by (auto simp: ReadAndVerifyTestData_def ASSIGN_IF_ASSERT_OK_def)

text \<open>The library that removes a file makes none of the calls that the kernel of the model answers.\<close>

definition fs_remove_law :: "fslib \<Rightarrow> bool" where
  "fs_remove_law B \<longleftrightarrow> (\<forall>p k. k_answers (snd (fs_remove B p k)) = k_answers k)"

lemma ReadFully_trials_pass:
  assumes "fs_size_law B" "fs_remove_law B" "n < 2 ^ 64"
  shows "k_answers k = [] \<Longrightarrow>
    \<exists>rng' k'. ReadFully_trials P (PosixEnv B) (PosixWritableFile_ops ok_bool) (PosixRandomAccessFile_ops B) p n i rng k =
      Ret (Finished (rng', k'))"
proof (induction i arbitrary: rng k)
  case (Suc i)
  obtain d rng' where r: "RandomString_new P n rng = Ret (d, rng')" "length d = n"
    using RandomString_spec [of "replicate n 0" n P rng] by (auto simp: RandomString_new_def simp del: random_bytes.simps)
  obtain f k1 f1 k2 f2 k3 where
    w: "env_NewWritableFile (PosixEnv B) p CREATE_IF_NON_EXISTING_TRUNCATE False k = (Inr f, k1)"
      "wf_Append (PosixWritableFile_ops ok_bool) f d k1 = (OK, f1, k2)"
      "wf_Close (PosixWritableFile_ops ok_bool) f1 k2 = (OK, f2, k3)" "k_answers k3 = []" "file_map k3 p = Some d"
    by (rule write_file_quiet [OF Suc.prems])
  have W: "WriteTestFile P (PosixEnv B) (PosixWritableFile_ops ok_bool) p n rng k = Ret (Finished (d, rng', k3))"
    using r w by (simp add: WriteTestFile_def ASSERT_OK_def)
  obtain k4 where v: "ReadAndVerifyTestData (PosixEnv B) (PosixRandomAccessFile_ops B) p d k3 = Ret (Finished k4)" "k_answers k4 = []"
    using ReadAndVerify_quiet [OF assms(1) w(5) _ w(4)] r(2) assms(3) by auto
  obtain s k5 where D: "env_DeleteFile (PosixEnv B) p k4 = (s, k5)" by fastforce
  have "k5 = snd (fs_remove B p k4)" using D by (auto simp: PosixEnv_def boost_status_def split: prod.splits)
  with v(2) assms(2) have "k_answers k5 = []" by (simp add: fs_remove_law_def)
  from Suc.IH [OF this] W v D show ?case by simp
qed simp

lemma RandomDataSet_total:
  "\<exists>ds rng'. RandomDataSet P n sz rng = Ret (ds, rng') \<and> length (concat ds) = n * sz"
proof (induction n arbitrary: rng)
  case (Suc n)
  obtain d g where r: "RandomString_new P sz rng = Ret (d, g)" "length d = sz"
    using RandomString_spec [of "replicate sz 0" sz P rng] by (auto simp: RandomString_new_def simp del: random_bytes.simps)
  from Suc.IH [of g] r show ?case by auto
qed simp

lemma AppendVector_passes:
  assumes "fs_size_law B" "n * sz < 2 ^ 64" "k_answers k = []"
  shows "\<exists>k'. TestAppendVector P (PosixEnv B) (PosixWritableFile_ops ok_bool) (PosixRandomAccessFile_ops B) dir n sz rng k =
    Ret (Finished k')"
proof -
  let ?p = "dir @ ''/test_env_appendvec_read_append''"
  obtain ds g where r: "RandomDataSet P n sz rng = Ret (ds, g)" "length (concat ds) = n * sz"
    using RandomDataSet_total by blast
  obtain f k1 f1 k2 f2 k3 where
    w: "env_NewWritableFile (PosixEnv B) ?p CREATE_IF_NON_EXISTING_TRUNCATE False k = (Inr f, k1)"
      "wf_Append (PosixWritableFile_ops ok_bool) f (concat ds) k1 = (OK, f1, k2)"
      "wf_Close (PosixWritableFile_ops ok_bool) f1 k2 = (OK, f2, k3)" "k_answers k3 = []" "file_map k3 ?p = Some (concat ds)"
    by (rule write_file_quiet [OF assms(3)])
  have "foldl (@) a ds = a @ concat ds" for a :: bytes by (induction ds arbitrary: a) simp_all
  then have "foldl (@) [] ds = concat ds" by simp
  with ReadAndVerify_quiet [OF assms(1) w(5) _ w(4)] r w(1-3) assms(2) show ?thesis
    by (auto simp: TestAppendVector_def OpenFileForWrite_def ASSERT_OK_def Let_def)
qed

text \<open>
  The tests that write files and read them back pass on every kernel that reports no errors, for
  every state of the generator.
\<close>

lemma env_tests:
  assumes "fs_size_law B" "fs_remove_law B" "k_answers k = []"
  shows "(\<exists>rng' k'. TEST_ReadFully P (PosixEnv B) (PosixWritableFile_ops ok_bool) (PosixRandomAccessFile_ops B) dir rng k =
      Ret (Finished (rng', k'))) \<and>
    (\<exists>k'. TestAppendVector P (PosixEnv B) (PosixWritableFile_ops ok_bool) (PosixRandomAccessFile_ops B) dir 2000 1024 rng k =
      Ret (Finished k'))"
  using ReadFully_trials_pass [OF assms(1,2) _ assms(3)] AppendVector_passes [OF assms(1) _ assms(3), of 2000 1024 P ok_bool dir rng]
  by (auto simp: TEST_ReadFully_def split: prod.splits)

subsection \<open>log_manager_test.cc\<close>

text \<open>
  Entries are compared by their text form; here they are compared.  \<^verbatim>\<open>TEST_Entries\<close> of the memory
  storage is a parameter.  The first block of the test writes a log, the rest recovers it.
\<close>

definition TEST_CreateWalStore_only :: "('e, 'h, 'm) deps \<Rightarrow> ('f, 'r, 'k) Env \<Rightarrow> ('f, 'k) WritableFile \<Rightarrow> ('r, 'k) RandomAccessFile \<Rightarrow> 'e
    \<Rightarrow> string \<Rightarrow> 'k \<Rightarrow> ('f LogManager \<times> 'k) outcome option" where
  "TEST_CreateWalStore_only D env ops rops new_Entry testDir k =
     map_option (\<lambda>r. bind_outcome r (\<lambda>(wal, memstore, k). Ret (wal, k))) (TEST_CreateWalStore D env ops rops new_Entry testDir None k)"

definition LogManagerTest_write :: "('e, 'h, 'm) deps \<Rightarrow> ('f, 'r, 'k) Env \<Rightarrow> ('f, 'k) WritableFile \<Rightarrow> ('r, 'k) RandomAccessFile \<Rightarrow> 'e
    \<Rightarrow> string \<Rightarrow> 'e list \<Rightarrow> 'k \<Rightarrow> (nat \<times> 'k) test_run outcome option" where
  "LogManagerTest_write D env ops rops new_Entry testDir expected k =
     (case TEST_CreateWalStore_only D env ops rops new_Entry testDir k of
        None \<Rightarrow> None
      | Some (Undef u) \<Rightarrow> Some (Undef u)
      | Some Fatal \<Rightarrow> Some Fatal
      | Some (Ret (w, k)) \<Rightarrow>
          map_option (\<lambda>r. bind_outcome r (\<lambda>(s, w, k).
              if s \<noteq> OK then Ret Failed
              else
                bind_outcome (LogManager_Close ops w k) (\<lambda>(s, w, k).
                  if s \<noteq> OK then Ret Failed
                  else bind_outcome (delete_LogManager ops w k) (\<lambda>k. Ret (Finished (SegmentNum w, k))))))
            (Write_entries D env ops expected w k))"

definition LogManagerTest_recover :: "('e, 'h, 'm) deps \<Rightarrow> ('f, 'r, 'k) Env \<Rightarrow> ('f, 'k) WritableFile \<Rightarrow> ('r, 'k) RandomAccessFile
    \<Rightarrow> ('m \<Rightarrow> 'e list) \<Rightarrow> string \<Rightarrow> 'e list \<Rightarrow> nat \<Rightarrow> 'k \<Rightarrow> unit test_run outcome" where
  "LogManagerTest_recover D env ops rops TEST_Entries testDir expected segNum k =
     (let options = new_WriteAheadLogOptions\<lparr>log_dir := testDir, log_segment_size := 1024\<rparr> in
      bind_outcome (Recover D env rops options None k) (\<lambda>(s, memstore, m, k).
        if s \<noteq> OK then Ret Failed
        else
          (case m of
             None \<Rightarrow> Undef NullDereference
           | Some m \<Rightarrow>
               if segNum \<noteq> SegmentNum m then Ret Failed
               else
                 (case memstore of
                    None \<Rightarrow> Undef NullDereference
                  | Some mem \<Rightarrow>
                      if TEST_Entries mem = [] then Undef InvalidIterator
                      else
                        let actual = tl (TEST_Entries mem) in
                        if 1 < length actual \<and> expected \<noteq> actual then Ret Failed
                        else bind_outcome (delete_LogManager ops m k) (\<lambda>k. Ret (Finished ()))))))"

lemma Recover_fresh:
  assumes "\<forall>k. fs_dir_law B (log_dir opts) k" "fmt_law D" "\<forall>n. isWal n \<longrightarrow> file_map k (log_dir opts @ ''/'' @ n) = None"
  shows "Recover D (PosixEnv B) (PosixRandomAccessFile_ops B) opts None k = Ret (OK, None, Some (new_LogManager opts), k)"
  using assms(3) by (subst Recover_wals [OF assms(1) [rule_format] assms(2), where segs = "[]"]) simp_all

text \<open>
  The log of the tests: one entry, in a segment with room for more.  For an empty directory no
  memory storage is made (\<^verbatim>\<open>RecoverFromEmtpyDirectory\<close>).
\<close>

lemma test_wal_store:
  assumes law: "\<forall>k. fs_dir_law B dir k" "fmt_law D" and k: "k_answers k = []" "\<forall>n. isWal n \<longrightarrow> file_map k (dir @ ''/'' @ n) = None"
    and e: "entry_codec D e" "length (entries_data D [e]) < 2 ^ 25"
  shows "\<exists>m k1 segs. TEST_CreateWalStore D (PosixEnv B) (PosixWritableFile_ops ok_bool) (PosixRandomAccessFile_ops B) e dir None k =
      Some (Ret (m, None, k1)) \<and> k_answers k1 = [] \<and> posix_wal D m k1 segs \<and> length segs = 1 \<and> seg_entries segs = [e] \<and> has_room m \<and>
      log_dir (lm_options m) = dir \<and> unat (log_segment_size (lm_options m)) = 2 ^ 26"
proof -
  let ?o = "new_WriteAheadLogOptions\<lparr>log_dir := dir, verify_checksum := True\<rparr>"
  let ?m = "new_LogManager ?o :: PosixWritableFile LogManager"
  let ?n = "SegmentFileName D 1 1"
  have o: "log_dir ?o = dir" "log_segment_size ?o = 67108864" by (simp_all add: new_WriteAheadLogOptions_def)
  have R: "Recover D (PosixEnv B) (PosixRandomAccessFile_ops B) ?o None k = Ret (OK, None, Some ?m, k)"
    by (rule Recover_fresh) (use law k o in simp_all)
  have m: "lm_current ?m = None" "\<not> lm_empty ?m" "lm_files ?m = []" "lm_lastIndex ?m = 0" by (simp_all add: new_LogManager_def)
  have p: "file_map k (dir @ ''/'' @ ?n) = None" using k(2) parse_SegmentFileName [OF law(2), of 1 1] by blast
  have small: "small_entry D e" using e(1) by (simp add: entry_codec_def)
  obtain w k1 where W: "Posix_Write D B ok_bool [e] ?m k = Some (Ret (OK, ?m\<lparr>lm_current := Some w\<rparr>, k1))" "k_answers k1 = []"
      "posix_open (lw_file w) k1" "posix_content (lw_file w) k1 = segment_bytes D [[e]]"
    using first_write [OF m(1,2) k(1) p _ small, of B ok_bool] m o by (auto simp: segment_path_def)
  obtain segs where S: "posix_wal D (?m\<lparr>lm_current := Some w\<rparr>) k1 segs" "seg_entries segs = [e]"
    using Posix_Write_OK [OF W(1) fresh_wal] e k(2) o by (auto simp: seg_entries_def batch_ok_def)
  have len: "length segs = 1" using S(1) m by (simp add: lm_inv_def)
  have "length (segment_bytes D [[e]]) < 2 ^ 25 + 100"
    using e(2) by (simp add: segment_bytes_def length_batch_bytes)
  then have "unat (67108864 - of_nat (length (segment_bytes D [[e]])) :: u64) > 8"
    by (subst unat_sub) (simp_all add: word_le_nat_alt unat_of_nat)
  then have "has_room (?m\<lparr>lm_current := Some w\<rparr>)"
    using W(3,4) o by (simp add: has_room_def posix_open_def)
  with R W S len o show ?thesis
    by (auto simp: TEST_CreateWalStore_def WriteAheadLog_Default_def FATAL_NOT_OK_def Let_def intro!: exI [of _ segs])
qed

text \<open>A log is closed and then destroyed, on a kernel that reports no errors.\<close>

lemma Close_quiet_log:
  assumes "posix_wal D m k segs" "k_answers k = []"
  shows "\<exists>m' k'. LogManager_Close (PosixWritableFile_ops ok_bool) m k = Ret (OK, m', k') \<and> k_answers k' = [] \<and> lm_current m' = None \<and>
    delete_LogManager (PosixWritableFile_ops ok_bool) m' k' = Ret k'"
proof (cases "lm_current m")
  case None
  with assms(2) show ?thesis by (simp add: LogManager_Close_def delete_LogManager_def)
next
  case (Some w)
  then have "posix_open (lw_file w) k" using assms(1) by (simp add: lm_inv_def)
  with posix_quiet.finish_quiet [OF assms(2) Some, of ok_bool] obtain m' k' where
    f: "finishCurrentWriter (PosixWritableFile_ops ok_bool) m k = Ret (m', k')" "k_answers k' = []" by blast
  have "lm_current m' = None" using posix.finish_inv [OF assms(1) f(1)] by blast
  with f Some show ?thesis by (simp add: LogManager_Close_def delete_LogManager_def)
qed

text \<open>
  The test \<^verbatim>\<open>Recover\<close>: the log is written and closed, and if its files can be addressed, it is
  recovered with the number of its segments.  The storage it is recovered into is the initial one
  with the entry of the fixture and then exactly those of the test appended; if that storage holds
  the entries of the test behind one of its own, the test passes.
\<close>

lemma log_manager_tests:
  assumes law: "fs_size_law B" "\<forall>k. fs_dir_law B dir k" "fmt_law D"
    and k: "k_answers k = []" "\<forall>n. isWal n \<longrightarrow> file_map k (dir @ ''/'' @ n) = None"
    and e: "entry_codec D e" "length (entries_data D [e]) < 2 ^ 25"
    and es: "batch_ok D expected" "length expected < 2 ^ 64 - 1"
  shows "\<exists>n k1. LogManagerTest_write D (PosixEnv B) (PosixWritableFile_ops ok_bool) (PosixRandomAccessFile_ops B) e dir expected k =
      Some (Ret (Finished (n, k1))) \<and>
    (n < 2 ^ 64 - 1 \<longrightarrow> (\<forall>p c. file_map k1 p = Some c \<longrightarrow> length c < 2 ^ 64) \<longrightarrow>
     (\<forall>TEST_Entries first. TEST_Entries (fold (mem_Append D) (e # expected) (mem_new D)) = first # expected \<longrightarrow>
        LogManagerTest_recover D (PosixEnv B) (PosixWritableFile_ops ok_bool) (PosixRandomAccessFile_ops B) TEST_Entries dir expected n k1 =
          Ret (Finished ())))"
proof -
  let ?ops = "PosixWritableFile_ops ok_bool" and ?rops = "PosixRandomAccessFile_ops B"
  let ?o = "new_WriteAheadLogOptions\<lparr>log_dir := dir, log_segment_size := 1024\<rparr>"
  obtain m k0 segs where C: "TEST_CreateWalStore D (PosixEnv B) ?ops ?rops e dir None k = Some (Ret (m, None, k0))" "k_answers k0 = []"
      "posix_wal D m k0 segs" "length segs = 1" "seg_entries segs = [e]" "has_room m" "log_dir (lm_options m) = dir"
      "unat (log_segment_size (lm_options m)) = 2 ^ 26"
    using test_wal_store [OF law(2,3) k e, of ok_bool] by blast
  obtain m1 k1 segs1 where W: "Posix_Write D B ok_bool expected m k0 = Some (Ret (OK, m1, k1))" "k_answers k1 = []"
      "posix_wal D m1 k1 segs1" "lm_options m1 = lm_options m" "seg_entries segs1 = e # expected"
    using Posix_Write_room [OF C(3,2) _ _ _ law(3) _ C(6), of expected B ok_bool] es C(4,5,8) by (auto simp: batch_ok_def)
  obtain m2 k2 where Q: "LogManager_Close ?ops m1 k1 = Ret (OK, m2, k2)" "k_answers k2 = []" "lm_current m2 = None"
      "delete_LogManager ?ops m2 k2 = Ret k2"
    using Close_quiet_log [OF W(3,2), of ok_bool] by blast
  have S: "posix_wal D m2 k2 segs1" "log_dir (lm_options m2) = dir" using posix.Close_inv [OF W(3) Q(1)] W(4) C(7) by auto
  have "LogManagerTest_write D (PosixEnv B) ?ops ?rops e dir expected k = Some (Ret (Finished (SegmentNum m2, k2)))"
    using C(1) W(1) Q by (simp add: LogManagerTest_write_def TEST_CreateWalStore_only_def)
  moreover have "LogManagerTest_recover D (PosixEnv B) ?ops ?rops TEST_Entries dir expected (SegmentNum m2) k2 = Ret (Finished ())"
    if sizes: "SegmentNum m2 < 2 ^ 64 - 1" "\<forall>p c. file_map k2 p = Some c \<longrightarrow> length c < 2 ^ 64"
      and mem: "TEST_Entries (fold (mem_Append D) (e # expected) (mem_new D)) = first # expected" for TEST_Entries first
  proof -
    let ?m = "m2\<lparr>lm_options := ?o\<rparr>"
    have o: "log_dir ?o = dir" by simp
    have inv: "posix_wal D ?m k2 segs1" using S Q(3) by (simp add: lm_inv_def lm_files_ok_def seg_path_def)
    have dir_law: "fs_dir_law B (log_dir ?o) k2" using law(2) by simp
    have "lm_files_ok D ?m (file_map k2) segs1" "length segs1 < 2 ^ 64 - 1"
      using inv sizes(1) SegmentNum_segs [OF S(1)] by (simp_all add: lm_inv_def)
    with Recover_ok [OF law(1) dir_law law(3) Q(2), of ?m segs1] sizes(2) W(5) obtain m3 k3 where
      R: "Recover D (PosixEnv B) ?rops ?o None k2 = Ret (OK, Some (fold (mem_Append D) (e # expected) (mem_new D)), Some m3, k3)"
        "posix_wal D m3 k2 segs1" "lm_current m3 = None"
      by (auto simp: seg_entries_def split: if_splits)
    have "SegmentNum m2 = SegmentNum m3" using SegmentNum_segs [OF S(1)] SegmentNum_segs [OF R(2)] by simp
    then show ?thesis
      unfolding LogManagerTest_recover_def Let_def R(1) bind_outcome.simps
      using R(3) mem by (simp add: delete_LogManager_def LogManager_Close_def)
  qed
  ultimately show ?thesis by blast
qed

subsection \<open>raft_service_test.cc\<close>

definition RaftServiceTest_Step :: "('n, 'msg, 'e, 'h, 'm) yaraft \<Rightarrow> 'msg \<Rightarrow> 'msg \<Rightarrow> 'n \<Rightarrow> 'n test_run outcome" where
  "RaftServiceTest_Step Y MsgHup MsgHeartbeatResp node =
     bind_outcome (RaftService_Step Y MsgHup node) (\<lambda>(code, node).
       if code \<noteq> PbStepLocalMsg then Ret Failed
       else
         bind_outcome (RaftService_Step Y MsgHeartbeatResp node) (\<lambda>(code, node).
           if code \<noteq> PbStepPeerNotFound then Ret Failed else Ret (Finished node)))"

text \<open>The test passes exactly on a node that rejects both messages with the codes of the response.\<close>

lemma raft_service_tests:
  "(\<exists>node'. RaftServiceTest_Step Y hup resp node = Ret (Finished node')) \<longleftrightarrow>
   fst (Step Y hup node) = StepLocalMsg \<and> fst (Step Y resp (snd (Step Y hup node))) = StepPeerNotFound"
proof -
  obtain s n1 where 1: "Step Y hup node = (s, n1)" by fastforce
  obtain s' n2 where 2: "Step Y resp n1 = (s', n2)" by fastforce
  show ?thesis
    by (cases s; cases s') (simp_all add: RaftServiceTest_Step_def RaftService_Step_def Step_task_def 1 2)
qed

end
