(* ===== verification/Spec2Isabelle.thy ===== *)
theory Spec2Isabelle
  imports NodeWal KvDb Shutdown TestSupport MemKvHeap Descriptors UnitTests
begin

text \<open>
  A verification library of consensus-yaraft: a C++ library that replicates a log with the raft
  state machine of yaraft, with a write-ahead log on files, and memkv, a key-value server on top of it.

  \<^bold>\<open>The program and how its parts interact.\<close>  A client of memkv calls the RPC service
  (apps/memkv/src/memkv_service.cc), which calls the database (db.cc).  An update becomes a command
  in the replicated log (src/replicated_log_impl.h): a task on the raft node, run by the single
  worker of a task queue (src/base/task_queue.cc, src/raft_task_executor.h).  A timer
  (src/raft_timer.cc) ticks the node, the raft service (src/raft_service.cc) gives it the messages of
  its peers.  The flusher (src/ready_flusher.cc) takes what the node has ready, writes it to the
  write-ahead log (src/wal), tells the observer of commits (src/wal_commit_observer.cc), which answers
  the waiting client, and sends the messages to the peers (src/rpc).  The write-ahead log writes
  segments of batches of records through the file environment (src/base/env_posix.cc) in the
  encodings of src/base/coding.cc, and reads them back at start-up.

  \<^bold>\<open>How the code is modelled.\<close>  A function that can go wrong returns an \<^typ>\<open>'a outcome\<close>: a value, an
  undefined behaviour with its reason, or the end of the process (\<^verbatim>\<open>CHECK\<close>, \<^verbatim>\<open>LOG(FATAL)\<close>, an exception
  nobody catches).  A status is its error code; messages are not modelled.  Classes are records, an
  abstract class is a record of its virtual functions, and its contract a locale that is interpreted on
  the definitions that implement it.  State is passed explicitly: the kernel with its files and
  descriptors, the network, the heap objects, the channels.  A loop that may run forever returns an
  option, \<^const>\<open>None\<close> for not returning; all other loops are functions proved to terminate.  Only the
  destructors of the nodes of the store take fuel, the depth of their calls; as many as there were
  nodes are shown to be enough.  Threads are inductive step relations.  Integers have their widths.  A \<^verbatim>\<open>std::map\<close> is the list
  of its pairs in key order.  What is not in the repository is a parameter: protobuf, the checksum
  and formatting functions (\<^verbatim>\<open>deps\<close>), the answers of the kernel (a script of results), the filesystem
  library (\<^verbatim>\<open>fslib\<close>), the string library of memkv (\<^verbatim>\<open>kv_lib\<close>), yaraft (\<^verbatim>\<open>yaraft\<close>), the RPC library (calls are
  events of a network), the queue of moodycamel (\<^verbatim>\<open>ConcurrentQueue\<close>, which keeps what is put in until it
  is taken once; no order is assumed).

  \<^bold>\<open>The theories.\<close>

  \<^item> \<open>Prelude\<close>: outcomes, writes into buffers, ordered maps, shared facts.
  \<^item> \<open>Status\<close>: the error codes of both libraries and the macros that return or abort on them.
  \<^item> \<open>Coding\<close>: src/base/coding.cc.  Fixed-width and varint integers and length-prefixed strings; round
    trips, rejection of cut-off input, agreement of the unrolled and inlined variants with the loops.
  \<^item> \<open>Env\<close>, \<open>EnvPosix\<close>: include/consensus/base/env.h, src/base/env_posix.cc.  The interface of files with
    its contracts \<open>file_system\<close>, \<open>torn_file_system\<close> and \<open>reliable_file_system\<close>, and the POSIX implementation on a kernel that
    may answer any call with a short count, an interruption or an error.  Appends and reads are exact or
    report an error; syncing never reaches the kernel.
  \<^item> \<open>LogWriter\<close>, \<open>ReadableLogSegment\<close>: src/wal/log_writer.cc, src/wal/readable_log_segment.cc.  The format of
    a segment; what an append adds, when a segment is full, the buffer overflow of hard states; reading
    back exactly what was written, safety on arbitrary bytes, torn tails, bad checksums.
  \<^item> \<open>LogManager\<close>, \<open>WalRecovery\<close>: src/wal/log_manager.cc, src/wal/wal.cc.  Segments on disk as an invariant
    of the manager that every write preserves; recovery; a write ends, appends its entries across
    segments, and what was written is recovered; the cases in which a write goes wrong.
  \<^item> \<open>WalFaults\<close>: the same code when the kernel fails.  What a failed write leaves in the directory, possibly
    a torn end, and what recovery makes of it; no acknowledged entry is lost and none invented.  A history of processes that use the log one after the
    other, with calls that fail at any point, as an inductive relation: what the next one recovers.
  \<^item> \<open>Descriptors\<close>: the open descriptors of the log, with the contract \<open>descriptor_table\<close> of an environment.
    Writing, syncing, closing and destroying give back what they open; recovery leaves one descriptor open
    per segment.
  \<^item> \<open>Runtime\<close>: channels, background workers, the task queue, the executor and the timer.  Tasks run once;
    stopping and progress of the queue; the executor carries out the instructions of a task one by one, and a
    call that waits goes on only after the work of its task.
  \<^item> \<open>Rpc\<close>: the interface to yaraft, peers, the cluster, the raft service.  Delivery of messages, memory of
    the calls, answers of the service.
  \<^item> \<open>ReplicatedLog\<close>: observer, flusher and replicated log, and both of its threads as one step relation.
    Order of a flush, answers of a write, construction and ownership; that at most one write is acknowledged
    before the behaviour of the observer is undefined.  The body of the observer's loop is a step of its own, so
    that a client can receive the answer it sends.
    The contract \<open>write_ahead_log\<close> says what a flush leaves in the log.
  \<^item> \<open>Shutdown\<close>: the threads of a replicated log (task queue, src/raft_timer.cc, src/ready_flusher.cc) and its
    destructor as one step relation.  The destructor can always return, and the queue stops last; that
    a queued write can find the commit observer destroyed.
  \<^item> \<open>NodeWal\<close>: the log manager on POSIX files fulfils that contract.
  \<^item> \<open>MemKvStore\<close>: apps/memkv/src/memkv_store.cc.  The tree of nodes implements a map of paths, the contract
    \<open>kv_store\<close>.
  \<^item> \<open>MemKvHeap\<close>: the same file with the nodes as objects in memory.  The inductive predicate \<open>rep\<close> says which
    tree a node represents and with which objects; every operation keeps it, answers as the tree does
    and never follows a pointer to nothing; what the destructor releases, and what it does not because
    a delete has dropped the pointer.
  \<^item> \<open>KvDb\<close>: apps/memkv/src/db.cc, memkv_service.cc, memkv_server.cc.  The store is the replay of the
    acknowledged commands; reads after writes, also through the service; the configuration.
  \<^item> \<open>Support\<close>: random numbers and strings, error strings, the logger, container helpers.
  \<^item> \<open>TestSupport\<close>: the fixtures of include/consensus/base/testing.h and src/base/testing.cc, the log of
    \<^verbatim>\<open>TEST_CreateWalStore\<close> and the loop of src/wal/wal_bench.cc, with what they leave on disk.
  \<^item> \<open>UnitTests\<close>: the unit tests as definitions over the model (coding_test.cc, log_writer_test.cc,
    memkv_store_test.cc, background_worker_test.cc, random_test.cc, env_test.cc, log_manager_test.cc,
    raft_service_test.cc), proved to pass for all data of their shape and not only for the data of the test.
  \<^item> This theory: the properties that need several parts, from the flusher down to the recovered files and
    from the database down to the observer.

  \<^bold>\<open>Bounds.\<close>  Lengths are below the width that stores them: records and batches below 4 GiB, strings of
  commands below 4 GiB, fewer than 2 to the 64 segments and segment sizes below 2 to the 64.  Writes are
  shown to end for segments larger than 18 bytes, the magic and one batch header; the default is 64 MiB.

  \<^bold>\<open>What is not modelled.\<close>  Generated protobuf code and two mocks whose methods only return
  OK (one of which is out of date, neither is included anywhere).  The tests that compare directory
  listings (\<^verbatim>\<open>TestEnv.GetChildren\<close>) or the contents of the storage of yaraft (\<^verbatim>\<open>AppendToOneSegment\<close>,
  \<^verbatim>\<open>AppendToMemStore\<close>), and those that wait for elections and timers (replicated_log_test.cc,
  raft_timer_test.cc, raft_task_executor_test.cc).  Functions that only pass their arguments on to the
  object behind an \<^verbatim>\<open>impl_\<close> pointer, the text of status and log messages, time (a step of a thread may come at any moment), the memory of the C++
  objects except where a claim is about it (buffers, the objects of a call, shared components, the
  observer at destruction, the nodes of the store), and the servers of the RPC library.  A kernel that loses data it has
  accepted is not modelled: a file has what the calls of \<^verbatim>\<open>write\<close> have transferred.  \<^verbatim>\<open>ReplicatedLog::Write\<close> and \<^verbatim>\<open>AsyncWrite\<close> are modelled with the copy
  of the returned channel elided.
\<close>

section \<open>Properties that span components\<close>

subsection \<open>Flusher, write-ahead log and recovery\<close>

text \<open>
  C2. Flushed entries survive a restart.  Start with a directory without segments and let the
  flusher work off any sequence of Readys, with or without entries and hard states, on a leader or on a
  follower, each flush coming to its end.  A process that starts later on the same files recovers
  a memory storage with exactly the entries of all the Readys, in order.  So every entry a
  follower acknowledges with its messages, which it sends at the end of a flush, is on its disk.  (A
  flush with both entries and a hard state never comes to its end: the log overflows its buffer.)
\<close>

theorem flushed_entries_survive:
  assumes laws: "fs_size_law B" "fmt_law D" "fs_dir_law B (log_dir opts) k2"
    and start: "\<forall>n. isWal n \<longrightarrow> file_map k (log_dir opts @ ''/'' @ n) = None" "rl_wal rl = (new_LogManager opts, k)"
    and run: "flush_all Y (posix_log D B ok_bool) rds rl = Some (Ret rl')" "rl_wal rl' = (m, k1)"
    and rds: "\<forall>rd \<in> set rds. ready_ok D (rd_entries rd) (hardState rd)" "concat (map rd_entries rds) \<noteq> []"
    and later: "file_map k2 = file_map k1" "k_answers k2 = []"
    and sizes: "SegmentNum m < 2 ^ 64 - 1" "\<forall>p c. file_map k2 p = Some c \<longrightarrow> length c < 2 ^ 64"
  shows "\<exists>m2 k3. Recover D (PosixEnv B) (PosixRandomAccessFile_ops B) opts None k2 =
    Ret (OK, Some (fold (mem_Append D) (concat (map rd_entries rds)) (mem_new D)), Some m2, k3)"
proof -
  have "wal_holds D opts (rl_wal rl) []" unfolding start(2) by (rule wal_holds_new [OF start(1)])
  from file_log.flush_all_holds [OF run(1) this rds(1)] have "wal_holds D opts (m, k1) (concat (map rd_entries rds))"
    by (simp add: run(2))
  from wal_holds_recovers [OF this rds(2) laws later sizes] show ?thesis by blast
qed

text \<open>A raft node for examples, on the entries and storage of the examples of the log.\<close>

definition example_raft :: "(u64, u64 \<times> string, example_entry, bytes, example_store) yaraft" where
  "example_raft =
     \<lparr>RawNode = conf_id, node_Id = id, IsLeader = (\<lambda>n. False), LeaderHint = (\<lambda>n. 2), LastIndex = (\<lambda>n. 0), CurrentTerm = (\<lambda>n. 1),
      Tick = id, Step = (\<lambda>m n. (YaraftOK, n)), Propose = (\<lambda>b n. (YaraftOK, n)), node_GetReady = (\<lambda>n. (None, n)),
      Advance = (\<lambda>rd m. fold (mem_Append example_deps) (rd_entries rd) m), msg_to = fst,
      has_commit = (\<lambda>h. h = [1]), hs_commit = (\<lambda>h. 1)\<rparr>"

definition example_follower :: "(u64, u64 \<times> string, PosixWritableFile LogManager \<times> kernel, example_store) ReplicatedLogImpl" where
  "example_follower =
     \<lparr>rl_node = 1, rl_observer = [], rl_channels = (\<lambda>_. new_SimpleChannel), rl_cluster = Cluster_Default example_cluster,
      rl_network = new_network, rl_memstore = (None, []), rl_wal = (new_LogManager example_options, example_disk)\<rparr>"

definition example_append :: "(u64 \<times> string, example_entry, bytes) Ready" where
  "example_append = \<lparr>currentLeader = 2, messages = [], hardState = None, rd_entries = [(1, 1, [7])]\<rparr>"

definition example_term :: "(u64 \<times> string, example_entry, bytes) Ready" where
  "example_term = \<lparr>currentLeader = 2, messages = [], hardState = Some [4, 2], rd_entries = []\<rparr>"

lemma example_flush_run:
  "\<exists>m k1 rl'. flush_all example_raft (posix_log example_deps map_fslib True) [example_term, example_append] example_follower = Some (Ret rl') \<and>
     rl_wal rl' = (m, k1) \<and> SegmentNum m = 1 \<and> k_answers k1 = [] \<and>
     file_map k1 = [''w/1-1.wal'' \<mapsto> segment_bytes example_deps [[(1, 1, [7])]]]"
proof -
  let ?W = "posix_log example_deps map_fslib True"
  from example_run obtain m k1 where r: "Posix_Write example_deps map_fslib True [(1, 1, [7])] (new_LogManager example_options) example_disk =
      Some (Ret (OK, m, k1))" and k: "SegmentNum m = 1" "k_answers k1 = []"
      "file_map k1 = [''w/1-1.wal'' \<mapsto> segment_bytes example_deps [[(1, 1, [7])]]]"
    by (auto split: option.splits outcome.splits if_splits)
  have "wal_Write ?W [(1, 1, [7])] None (new_LogManager example_options, example_disk) = Some (Ret (OK, m, k1))"
    using r by (simp only: posix_log_Write)
  moreover have "wal_Write ?W [] (Some [4, 2]) (new_LogManager example_options, example_disk) =
      Some (Ret (OK, new_LogManager example_options, example_disk))"
    by (simp add: posix_log_def LogManager_Write_def)
  ultimately show ?thesis using k
    by (simp add: flushReady_def flush_calls_def example_term_def example_append_def example_follower_def example_raft_def)
qed

lemma example_file_sizes:
  "file_map k = [''w/1-1.wal'' \<mapsto> segment_bytes example_deps [[(1, 1, [7])]]] \<Longrightarrow>
   \<forall>p c. file_map k p = Some c \<longrightarrow> length c < 2 ^ 64"
  by (auto simp: example_segment_length split: if_splits)

theorem flushed_entries_survive_witness:
  "\<exists>rl' m k1 m2 k3. flush_all example_raft (posix_log example_deps map_fslib True) [example_term, example_append] example_follower = Some (Ret rl') \<and>
     rl_wal rl' = (m, k1) \<and>
     Recover example_deps (PosixEnv map_fslib) (PosixRandomAccessFile_ops map_fslib) example_options None (k1\<lparr>k_fds := Map.empty\<rparr>) =
       Ret (OK, Some (None, [(1, 1, [7])]), Some m2, k3)"
proof -
  from example_flush_run obtain m k1 rl' where
    r: "flush_all example_raft (posix_log example_deps map_fslib True) [example_term, example_append] example_follower = Some (Ret rl')"
      "rl_wal rl' = (m, k1)" and k: "SegmentNum m = 1" "k_answers k1 = []"
      "file_map k1 = [''w/1-1.wal'' \<mapsto> segment_bytes example_deps [[(1, 1, [7])]]]" by blast
  let ?k = "k1\<lparr>k_fds := Map.empty\<rparr>"
  have e: "concat (map rd_entries [example_term, example_append]) = [(1, 1, [7])]" by (simp add: example_term_def example_append_def)
  have "\<exists>m2 k3. Recover example_deps (PosixEnv map_fslib) (PosixRandomAccessFile_ops map_fslib) example_options None ?k =
      Ret (OK, Some (fold (mem_Append example_deps) (concat (map rd_entries [example_term, example_append])) (mem_new example_deps)), Some m2, k3)"
    using k example_file_sizes [of ?k]
    by (intro flushed_entries_survive [OF map_fslib_size example_fmt map_fslib_dir _ _ r])
      (simp_all add: example_term_def example_append_def example_follower_def example_disk_def example_batch_ok ready_ok_def example_hs)
  with r show ?thesis unfolding e by (auto simp: example_deps_def)
qed

text \<open>
  C17. A vote is not durable.  When a follower's Ready has a hard state (a new term or vote) and no
  entries, the flush sends all its messages, among them the answer to the vote request, and the
  write-ahead log is exactly as before: no byte has been written and after a restart the node can
  vote again in the same term.
\<close>

theorem vote_sent_before_persisted:
  assumes "currentLeader rd \<noteq> node_Id Y (rl_node rl)" "rd_entries rd = []" "hardState rd = Some hs" "\<not> has_commit Y hs"
    and "rl_cluster rl = Cluster_Default cs" "distinct (map fst cs)" "\<forall>msg \<in> set (messages rd). msg_to Y msg \<noteq> 0 \<and> msg_to Y msg \<in> fst ` set cs"
  shows "\<exists>made rl'. flushReady Y (posix_log D B ok_bool) rd rl = (made, Some (Ret rl')) \<and> rl_wal rl' = rl_wal rl \<and>
    map sent_to (net_calls (rl_network rl')) =
      map sent_to (net_calls (rl_network rl)) @ map (\<lambda>msg. (the (map_of cs (msg_to Y msg)), msg)) (messages rd)"
proof -
  let ?W = "posix_log D B ok_bool"
  let ?rl = "rl\<lparr>rl_memstore := Advance Y rd (rl_memstore rl)\<rparr>"
  have w: "run_call Y ?W (WalWrite [] (Some hs)) rl = Some (Ret rl)"
    by (cases "rl_wal rl") (simp add: posix_log_def LogManager_Write_def)
  from Pass_Cluster_Default [OF assms(6,7), of "rl_network rl"] obtain net' where
    p: "run_call Y ?W (Pass (messages rd)) ?rl = Some (Ret (?rl\<lparr>rl_network := net'\<rparr>))"
    and sent: "map sent_to (net_calls net') =
      map sent_to (net_calls (rl_network rl)) @ map (\<lambda>msg. (the (map_of cs (msg_to Y msg)), msg)) (messages rd)"
    by (auto simp: assms(5))
  have calls: "flush_calls Y (node_Id Y (rl_node rl)) rd =
      [WalWrite [] (Some hs), AdvanceReady rd] @ (if messages rd = [] then [] else [Pass (messages rd)])"
    using assms(1-4) by (simp add: flush_calls_def)
  show ?thesis
  proof (cases "messages rd = []")
    case True
    then show ?thesis unfolding flushReady_def calls using w by (simp del: run_call.simps(1-3))
  next
    case False
    then show ?thesis unfolding flushReady_def calls using w p sent by (simp del: run_call.simps(1-3))
  qed
qed

definition example_vote :: "(u64 \<times> string, example_entry, bytes) Ready" where
  "example_vote = \<lparr>currentLeader = 0, messages = [(2, ''vote granted'')], hardState = Some [4, 2], rd_entries = []\<rparr>"

theorem vote_sent_before_persisted_witness:
  "\<exists>made rl'. flushReady example_raft (posix_log example_deps map_fslib True) example_vote example_follower = (made, Some (Ret rl')) \<and>
     rl_wal rl' = (new_LogManager example_options, example_disk) \<and>
     map sent_to (net_calls (rl_network rl')) = [(''127.0.0.1:12322'', (2, ''vote granted''))]"
proof -
  note s = example_vote_def example_follower_def example_raft_def example_cluster_def
  have "\<exists>made rl'. flushReady example_raft (posix_log example_deps map_fslib True) example_vote example_follower = (made, Some (Ret rl')) \<and>
     rl_wal rl' = rl_wal example_follower \<and> map sent_to (net_calls (rl_network rl')) =
       map sent_to (net_calls (rl_network example_follower)) @
       map (\<lambda>msg. (the (map_of example_cluster (msg_to example_raft msg)), msg)) (messages example_vote)"
    by (rule vote_sent_before_persisted [where hs = "[4, 2]"]) (simp_all add: s)
  then show ?thesis by (simp add: s new_network_def)
qed

subsection \<open>A restart of memkv\<close>

text \<open>
  C18. A restart recovers the log and not the data.  Starting the database on files that hold a log
  of entries succeeds: the raft node gets a storage with exactly these entries.  But the key-value
  store is empty: whatever was written before, a read of any path other than the root answers
  NodeNotExist.
\<close>

theorem restart_loses_data:
  assumes "wal_holds D (new_WriteAheadLogOptions\<lparr>log_dir := wal_dir options\<rparr>) (m, k1) es" "es \<noteq> []"
    and "fs_size_law B" "fmt_law D" "fs_dir_law B (wal_dir options) k2" "file_map k2 = file_map k1" "k_answers k2 = []"
    and "SegmentNum m < 2 ^ 64 - 1" "\<forall>p c. file_map k2 p = Some c \<longrightarrow> length c < 2 ^ 64"
    and "kv_path L path = Some a" "a \<noteq> []"
  shows "\<exists>db k3 h'. DB_Bootstrap D (PosixEnv B) (PosixRandomAccessFile_ops B) Y ident options k2 h = Ret (Inr db, k3, h') \<and>
    rl_memstore (log_impl (db_log db)) = fold (mem_Append D) es (mem_new D) \<and>
    DB_Get R L path True \<lparr>db_log = l, db_kv = db_kv db\<rparr> = Inl KvNodeNotExist"
proof -
  let ?w = "new_WriteAheadLogOptions\<lparr>log_dir := wal_dir options\<rparr>"
  have "log_dir ?w = wal_dir options" by simp
  with wal_holds_recovers [OF assms(1-4), of k2] assms(5-9) obtain m2 k3 where
    "Recover D (PosixEnv B) (PosixRandomAccessFile_ops B) ?w None k2 =
      Ret (OK, Some (fold (mem_Append D) es (mem_new D)), Some m2, k3)" by auto
  then have "WriteAheadLog_Default D (PosixEnv B) (PosixRandomAccessFile_ops B) ?w None k2 =
      Ret (OK, Some (fold (mem_Append D) es (mem_new D)), Some m2, k3)" by (simp add: WriteAheadLog_Default_def)
  note D = this
  let ?o = "(new_ReplicatedLogOptions ident)\<lparr>opt_id := member_id options, heartbeat_interval := 100,
      election_timeout := 1000, initial_cluster := db_initial_cluster options, opt_wal := Some (m2, k3),
      opt_memstore := Some (fold (mem_Append D) es (mem_new D))\<rparr>"
  obtain rl h' where N: "ReplicatedLog_New Y (mem_new D) ?o h = (Inr rl, h')" "rl_memstore (log_impl rl) = fold (mem_Append D) es (mem_new D)"
    by (cases "New_components ?o h") (simp add: ReplicatedLog_New_def Validate_def Let_def)
  have "DB_Bootstrap D (PosixEnv B) (PosixRandomAccessFile_ops B) Y ident options k2 h =
      Ret (Inr \<lparr>db_log = rl, db_kv = new_Node\<rparr>, k3, h')"
    by (simp add: DB_Bootstrap_def D N(1))
  moreover have "DB_Get R L path True \<lparr>db_log = l, db_kv = new_Node\<rparr> = Inl KvNodeNotExist"
    using assms(10,11) by (simp add: DB_Get_def memkv.get_law abs_new_Node)
  ultimately show ?thesis using N(2) by simp
qed

definition example_db_options :: DBOptions where
  "example_db_options = \<lparr>member_id = 1, wal_dir = ''w'', db_initial_cluster = example_cluster\<rparr>"

theorem restart_loses_data_witness:
  "\<exists>k2 db k3 h'. DB_Bootstrap example_deps (PosixEnv map_fslib) (PosixRandomAccessFile_ops map_fslib) example_raft 0 example_db_options k2
       \<lparr>hp_next = 0, hp_live = {}, hp_registered = \<lambda>_. []\<rparr> = Ret (Inr db, k3, h') \<and>
     rl_memstore (log_impl (db_log db)) = (None, [(1, 1, [7])]) \<and>
     DB_Get example_api example_lib ''/a'' True \<lparr>db_log = (True, []), db_kv = db_kv db\<rparr> = Inl KvNodeNotExist"
proof -
  let ?o = "new_WriteAheadLogOptions\<lparr>log_dir := wal_dir example_db_options\<rparr>"
  let ?m = "(new_LogManager ?o)\<lparr>lm_files := [\<lparr>fileName = ''w/1-1.wal'', numEntries = 1\<rparr>]\<rparr> :: PosixWritableFile LogManager"
  let ?h = "\<lparr>hp_next = 0, hp_live = {}, hp_registered = \<lambda>_. []\<rparr>"
  have f: "file_map example_full_disk = [''w/1-1.wal'' \<mapsto> segment_bytes example_deps [[(1, 1, [7])]]]"
    by (simp add: example_full_disk_def)
  have "posix_wal example_deps ?m example_full_disk [(1, [[(1, 1, [7])]])]"
    using example_batch_ok [of "[(1, 1, [7])]"]
    by (auto simp: lm_inv_def lm_files_ok_def f seg_path_def segment_path_def example_name new_LogManager_def example_db_options_def
        split: if_splits)
  then have holds: "wal_holds example_deps ?o (?m, example_full_disk) [(1, 1, [7])]"
    by (auto simp: wal_holds_def seg_entries_def new_LogManager_def intro!: exI [of _ "[(1, [[(1, 1, [7])]])]"])
  have "\<exists>db k3 h'. DB_Bootstrap example_deps (PosixEnv map_fslib) (PosixRandomAccessFile_ops map_fslib) example_raft 0 example_db_options
       example_full_disk ?h = Ret (Inr db, k3, h') \<and>
     rl_memstore (log_impl (db_log db)) = fold (mem_Append example_deps) [(1, 1, [7])] (mem_new example_deps) \<and>
     DB_Get example_api example_lib ''/a'' True \<lparr>db_log = (True, []), db_kv = db_kv db\<rparr> = Inl KvNodeNotExist"
    by (rule restart_loses_data [OF holds _ map_fslib_size example_fmt map_fslib_dir refl _ _ example_file_sizes [OF f] example_path(3)])
      (simp_all add: example_full_disk_def SegmentNum_def new_LogManager_def)
  then show ?thesis by (auto simp: example_deps_def)
qed

text \<open>
  C14. A torn write stops the node for good.  When the last write to the log was cut off in the
  middle of a batch or of the magic, whether because the disk was full or because the machine
  died, the database does not start on that log any more: Bootstrap answers ConsensusError and
  the server ends; and it leaves the files as they are, so the next attempt ends the same way.
\<close>

theorem torn_log_stops_server:
  assumes laws: "fs_size_law B" "fmt_law D" "fs_dir_law B (FLAGS_wal_dir flags) k" and quiet: "k_answers k = []"
    and torn: "torn_files D (new_LogManager (new_WriteAheadLogOptions\<lparr>log_dir := FLAGS_wal_dir flags\<rparr>) :: PosixWritableFile LogManager)
      (file_map k) segs" "length segs < 2 ^ 64 - 1" "\<forall>p c. file_map k p = Some c \<longrightarrow> length c < 2 ^ 64"
    and flags: "server_options fmt_int flags = Ret options" "FLAGS_memkv_log_dir flags = []"
  shows "(\<exists>k'. DB_Bootstrap D (PosixEnv B) (PosixRandomAccessFile_ops B) Y ident options k h = Ret (Inl KvConsensusError, k', h) \<and>
      k_files k' = k_files k \<and> k_answers k' = []) \<and>
    server_main D (PosixEnv B) (PosixRandomAccessFile_ops B) Y fmt_int ident flags k h = Fatal"
proof -
  let ?opts = "new_WriteAheadLogOptions\<lparr>log_dir := FLAGS_wal_dir flags\<rparr>"
  have dir: "wal_dir options = FLAGS_wal_dir flags"
    using flags(1) by (cases "cluster_loop fmt_int (FLAGS_server_count flags) 1 []") (auto simp: server_options_def)
  obtain lm k' where "Recover D (PosixEnv B) (PosixRandomAccessFile_ops B) ?opts None k =
      Ret (Corruption, Some (fold (mem_Append D) (seg_entries segs) (mem_new D)), lm, k')"
    "k_files k' = k_files k" "k_answers k' = []"
    using Recover_torn [OF laws(1) _ laws(2) quiet torn(1) _ torn(2,3), of ?opts] laws(3) by auto
  note R = this
  from R(1) have b: "DB_Bootstrap D (PosixEnv B) (PosixRandomAccessFile_ops B) Y ident options k h = Ret (Inl KvConsensusError, k', h)"
    by (simp add: DB_Bootstrap_def WriteAheadLog_Default_def dir)
  then show ?thesis using flags R(2,3) by (simp add: server_main_def InitLogging_def)
qed

lemma example_torn_files:
  "torn_files example_deps (new_LogManager (new_WriteAheadLogOptions\<lparr>log_dir := ''w''\<rparr>) :: PosixWritableFile LogManager)
     [''w/1-1.wal'' \<mapsto> segment_bytes example_deps [[(1, 1, [7])]] @ take 3 (batch_bytes example_deps (entries_data example_deps [(2, 1, [])]))]
     [(1, [[(1, 1, [7])]])]"
proof -
  let ?b = "batch_bytes example_deps (entries_data example_deps [(2, 1, [])])"
  let ?m = "new_LogManager (new_WriteAheadLogOptions\<lparr>log_dir := ''w''\<rparr>) :: PosixWritableFile LogManager"
  have "length ?b = 8 + length (entries_data example_deps [(2, 1, [])])" by (rule length_batch_bytes)
  then have "take 3 ?b \<noteq> []" "strict_prefix (take 3 ?b) ?b"
    by (auto simp: strict_prefix_def take_is_prefix dest: arg_cong [of "take 3 ?b" _ length])
  then have t: "torn example_deps [[(1, 1, [7])]] (segment_bytes example_deps [[(1, 1, [7])]] @ take 3 ?b)"
    unfolding torn_def using example_batch_ok [of "[(2, 1, [])]"] by auto
  have path: "seg_path example_deps ?m [(1, [[(1, 1, [7])]])] 0 = ''w/1-1.wal''"
    by (simp add: seg_path_def segment_path_def example_name)
  have "lm_files_ok example_deps ?m [''w/1-1.wal'' \<mapsto> segment_bytes example_deps [[(1, 1, [7])]]] [(1, [[(1, 1, [7])]])]"
    using example_batch_ok [of "[(1, 1, [7])]"]
    by (auto simp: lm_files_ok_def path example_name split: if_splits)
  with t show ?thesis unfolding torn_files_def
    by (intro conjI exI [of _ "segment_bytes example_deps [[(1, 1, [7])]] @ take 3 ?b"]
        exI [of _ "[''w/1-1.wal'' \<mapsto> segment_bytes example_deps [[(1, 1, [7])]]]"]) (simp_all add: path)
qed

text \<open>The files a full disk has left, and a server that is started on them.\<close>

theorem torn_log_stops_server_witness:
  "\<exists>m' k'. try_calls example_deps (PosixEnv map_fslib) (PosixWritableFile_ops True) [CallWrite [(2, 1, [])]] example_room example_short_disk =
      Some ([], [(2, 1, [])], IOError, m', k') \<and>
    server_main example_deps (PosixEnv map_fslib) (PosixRandomAccessFile_ops map_fslib) example_raft (\<lambda>_. []) 0
      (default_flags\<lparr>FLAGS_wal_dir := ''w'', FLAGS_server_count := 1\<rparr>) (k'\<lparr>k_fds := Map.empty\<rparr>)
      \<lparr>hp_next = 0, hp_live = {}, hp_registered = \<lambda>_. []\<rparr> = Fatal"
proof -
  obtain m' k' where w: "try_calls example_deps (PosixEnv map_fslib) (PosixWritableFile_ops True) [CallWrite [(2, 1, [])]] example_room
      example_short_disk = Some ([], [(2, 1, [])], IOError, m', k')" "k_answers k' = []"
    "file_map k' = [''w/1-1.wal'' \<mapsto> segment_bytes example_deps [[(1, 1, [7])]] @
      take 3 (batch_bytes example_deps (entries_data example_deps [(2, 1, [])]))]"
    using example_short_write by blast
  let ?flags = "default_flags\<lparr>FLAGS_wal_dir := ''w'', FLAGS_server_count := 1\<rparr>" and ?k = "k'\<lparr>k_fds := Map.empty\<rparr>"
  have sz: "\<forall>p c. file_map ?k p = Some c \<longrightarrow> length c < 2 ^ 64"
    using w(3) by (auto simp: example_segment_length split: if_splits)
  obtain options where o: "server_options (\<lambda>_. []) ?flags = Ret options"
    by (simp add: server_options_def cluster_loop.simps)
  have t: "torn_files example_deps (new_LogManager (new_WriteAheadLogOptions\<lparr>log_dir := FLAGS_wal_dir ?flags\<rparr>) :: PosixWritableFile LogManager)
      (file_map ?k) [(1, [[(1, 1, [7])]])]"
    using example_torn_files w(3) by simp
  have "server_main example_deps (PosixEnv map_fslib) (PosixRandomAccessFile_ops map_fslib) example_raft (\<lambda>_. []) 0 ?flags ?k
      \<lparr>hp_next = 0, hp_live = {}, hp_registered = \<lambda>_. []\<rparr> = Fatal"
    using torn_log_stops_server [OF map_fslib_size example_fmt map_fslib_dir _ t _ sz o, where Y = example_raft and ident = 0
        and h = "\<lparr>hp_next = 0, hp_live = {}, hp_registered = \<lambda>_. []\<rparr>"] w(2)
    by (simp add: default_flags_def)
  with w(1) show ?thesis by blast
qed

subsection \<open>memkv on the replicated log\<close>








end
